(* ===== verification/Prelude.thy ===== *)
theory Prelude
  imports Main "HOL-Library.Word"
begin

text \<open>
  Prelude of the development: the names of the types every component uses, the exceptions of the
  program as values, the result type and its sequencing, association lists as the model of
  directories and dictionaries, and the collections of facts (\<open>struct_eqs\<close>, \<open>layout_eqs\<close>) the
  components add to and the later proofs use.
\<close>

named_theorems struct_eqs \<open>packing and unpacking of binary fields\<close>
named_theorems layout_eqs \<open>sizes of the parts of a stored record\<close>

type_synonym byte = "8 word"
type_synonym bytes = "byte list"

text \<open>
  \<open>Offset\<close> and \<open>Position\<close> of \<open>storage/types.py\<close>: a logical record number and a byte position.
  An offset read from a file can be any signed number; a position is never negative.
\<close>

type_synonym offset = int
type_synonym position = nat

section \<open>Exceptions as values\<close>

text \<open>
  One constructor per exception class the modelled code raises or catches. \<open>StructError\<close> is
  \<open>struct.error\<close>, which is not a \<open>ValueError\<close>.
\<close>

datatype py_error =
    ValueError
  | CorruptRecord
  | StructError
  | RuntimeError
  | CorruptLog
  | OffsetOutOfRange
  | OSError
  | ExceptionGroup "py_error list"
  | UnknownTopic
  | PartitionNotLocal
  | KeyError

text \<open>What \<open>except ValueError\<close> catches: the class itself and its subclasses.\<close>

fun is_value_error :: "py_error \<Rightarrow> bool" where
  "is_value_error ValueError = True"
| "is_value_error CorruptRecord = True"
| "is_value_error CorruptLog = True"
| "is_value_error OffsetOutOfRange = True"
| "is_value_error _ = False"

type_synonym 'a result = "py_error + 'a"

text \<open>Sequencing: the first exception ends the computation.\<close>

fun bind_result :: "'a result \<Rightarrow> ('a \<Rightarrow> 'b result) \<Rightarrow> 'b result" where
  "bind_result (Inl e) f = Inl e"
| "bind_result (Inr a) f = f a"

lemma bind_result_eq_Inr [simp]:
  "bind_result m f = Inr b \<longleftrightarrow> (\<exists>a. m = Inr a \<and> f a = Inr b)"
  by (cases m) auto

lemma bind_result_eq_Inl:
  "bind_result m f = Inl e \<longleftrightarrow> m = Inl e \<or> (\<exists>a. m = Inr a \<and> f a = Inl e)"
  by (cases m) auto

lemma bind_result_cong [fundef_cong]:
  "m = n \<Longrightarrow> (\<And>a. n = Inr a \<Longrightarrow> f a = g a) \<Longrightarrow> bind_result m f = bind_result n g"
  by (cases n) auto

section \<open>Slices\<close>

text \<open>\<open>xs[a:b]\<close> for \<open>0 \<le> a\<close>: out of range ends are clipped, as in Python.\<close>

definition py_slice :: "nat \<Rightarrow> nat \<Rightarrow> 'a list \<Rightarrow> 'a list" where
  "py_slice a b xs = take (b - a) (drop a xs)"

lemma length_slice: "length (py_slice a b xs) = min (b - a) (length xs - a)"
  by (simp add: py_slice_def min.commute)

lemma length_slice_inside [simp]: "b \<le> length xs \<Longrightarrow> length (py_slice a b xs) = b - a"
  by (simp add: py_slice_def)

lemma slice_append_left [simp]: "b \<le> length xs \<Longrightarrow> py_slice a b (xs @ ys) = py_slice a b xs"
  by (simp add: py_slice_def)

lemma slice_append_right [simp]:
  "length xs \<le> a \<Longrightarrow> py_slice a b (xs @ ys) = py_slice (a - length xs) (b - length xs) ys"
  by (simp add: py_slice_def)

lemma slice_whole [simp]: "length xs \<le> b \<Longrightarrow> py_slice 0 b xs = xs"
  by (simp add: py_slice_def)

lemma slice_join: "a \<le> b \<Longrightarrow> b \<le> c \<Longrightarrow> py_slice a b xs @ py_slice b c xs = py_slice a c xs"
proof -
  assume ab: "a \<le> b" and bc: "b \<le> c"
  have "take ((b - a) + (c - b)) (drop a xs)
      = take (b - a) (drop a xs) @ take (c - b) (drop (b - a) (drop a xs))"
    by (rule take_add)
  moreover have "(b - a) + (c - b) = c - a" using ab bc by arith
  ultimately show ?thesis using ab by (simp add: py_slice_def)
qed

section \<open>Association lists\<close>

text \<open>
  A directory or a dictionary is an association list with distinct keys: \<open>map_of\<close> reads it and
  \<open>al_set\<close> stores, replacing in place or adding at the end (the order of a Python \<open>dict\<close>).
\<close>

fun al_set :: "'k \<Rightarrow> 'v \<Rightarrow> ('k \<times> 'v) list \<Rightarrow> ('k \<times> 'v) list" where
  "al_set k v [] = [(k, v)]"
| "al_set k v ((k', v') # xs) = (if k = k' then (k, v) # xs else (k', v') # al_set k v xs)"

definition al_del :: "'k \<Rightarrow> ('k \<times> 'v) list \<Rightarrow> ('k \<times> 'v) list" where
  "al_del k xs = filter (\<lambda>p. fst p \<noteq> k) xs"

lemma map_of_al_set [simp]: "map_of (al_set k v xs) = (map_of xs)(k \<mapsto> v)"
  by (induction k v xs rule: al_set.induct) auto

lemma map_of_al_del [simp]: "map_of (al_del k xs) = (map_of xs)(k := None)"
  by (induction xs) (auto simp: al_del_def)

lemma keys_al_set [simp]: "fst ` set (al_set k v xs) = insert k (fst ` set xs)"
  by (induction k v xs rule: al_set.induct) auto

lemma keys_list_al_set:
  "map fst (al_set k v xs) = (if k \<in> fst ` set xs then map fst xs else map fst xs @ [k])"
  by (induction k v xs rule: al_set.induct) auto

lemma distinct_al_set [simp]: "distinct (map fst xs) \<Longrightarrow> distinct (map fst (al_set k v xs))"
  by (induction k v xs rule: al_set.induct) auto

end
