(* ===== verification/Bytes.thy ===== *)
theory Bytes
  imports Prelude
begin

text \<open>
  What the storage code uses of Python's \<open>struct\<close> module: big-endian two's complement integers of
  fixed width. \<open>be_bytes n x\<close> is the low \<open>n\<close> bytes of \<open>x\<close>, most significant first, and \<open>be_val\<close>
  reads them back as an unsigned number. A format code that is given a number outside its range
  raises \<open>struct.error\<close>, and so does unpacking a buffer of the wrong size.
\<close>

section \<open>Big-endian integers\<close>

fun be_bytes :: "nat \<Rightarrow> int \<Rightarrow> bytes" where
  "be_bytes 0 x = []"
| "be_bytes (Suc n) x = be_bytes n (x div 256) @ [word_of_int x]"

definition be_val :: "bytes \<Rightarrow> int" where
  "be_val bs = foldl (\<lambda>a b. a * 256 + uint b) 0 bs"

lemma length_be_bytes [simp]: "length (be_bytes n x) = n"
  by (induction n arbitrary: x) auto

lemma be_bytes_eq_Nil [simp]: "be_bytes n x = [] \<longleftrightarrow> n = 0"
  by (cases n) auto

lemma be_val_Nil [simp]: "be_val [] = 0"
  by (simp add: be_val_def)

lemma be_val_snoc [simp]: "be_val (bs @ [b]) = be_val bs * 256 + uint b"
  by (simp add: be_val_def)

lemma uint_byte_bounds: "0 \<le> uint (b :: byte)" "uint (b :: byte) < 256"
  using uint_range_size [of b] by (auto simp: word_size)

lemma be_val_bounds: "0 \<le> be_val bs \<and> be_val bs < 256 ^ length bs"
proof (induction bs rule: rev_induct)
  case (snoc b bs)
  have "be_val bs * 256 + uint b < (be_val bs + 1) * 256"
    using uint_byte_bounds(2) [of b] by simp
  also have "\<dots> \<le> 256 ^ length bs * 256"
    using snoc by (intro mult_right_mono) auto
  finally show ?case using snoc uint_byte_bounds(1) [of b] by simp
qed simp

lemmas be_val_nonneg = be_val_bounds [THEN conjunct1]
lemmas be_val_less = be_val_bounds [THEN conjunct2]

lemma be_val_be_bytes [struct_eqs]: "be_val (be_bytes n x) = x mod 256 ^ n"
proof (induction n arbitrary: x)
  case (Suc n)
  have "uint (word_of_int x :: byte) = x mod 256"
    by (simp add: uint_word_of_int)
  with Suc have "be_val (be_bytes (Suc n) x) = (x div 256) mod 256 ^ n * 256 + x mod 256"
    by simp
  also have "\<dots> = x mod (256 * 256 ^ n)"
    by (simp add: zmod_zmult2_eq mult.commute)
  finally show ?case by simp
qed simp

lemma be_bytes_be_val [struct_eqs]: "length bs = n \<Longrightarrow> be_bytes n (be_val bs) = bs"
proof (induction bs arbitrary: n rule: rev_induct)
  case (snoc b bs)
  have "(be_val bs * 256 + uint b) div 256 = be_val bs"
    using uint_byte_bounds [of b] by (simp add: div_add1_eq)
  moreover have "(word_of_int (be_val bs * 256 + uint b) :: byte) = b"
  proof (rule word_uint_eqI)
    show "uint (word_of_int (be_val bs * 256 + uint b) :: byte) = uint b"
      using uint_byte_bounds [of b]
      by (simp only: uint_word_of_int) (simp add: mod_pos_pos_trivial)
  qed
  ultimately show ?case using snoc by auto
qed simp

section \<open>The format codes \<open>q\<close>, \<open>i\<close> and \<open>I\<close>\<close>

definition to_signed :: "nat \<Rightarrow> int \<Rightarrow> int" where
  "to_signed n v = (if v < 2 ^ (n - 1) then v else v - 2 ^ n)"

definition in_i64 :: "int \<Rightarrow> bool" where
  "in_i64 x \<longleftrightarrow> - 9223372036854775808 \<le> x \<and> x < 9223372036854775808"

definition in_i32 :: "int \<Rightarrow> bool" where
  "in_i32 x \<longleftrightarrow> - 2147483648 \<le> x \<and> x < 2147483648"

definition MAX_U32 :: int where
  "MAX_U32 = 4294967295"

definition in_u32 :: "int \<Rightarrow> bool" where
  "in_u32 x \<longleftrightarrow> 0 \<le> x \<and> x \<le> MAX_U32"

definition pack_q :: "int \<Rightarrow> bytes result" where
  "pack_q x = (if in_i64 x then Inr (be_bytes 8 x) else Inl StructError)"

definition pack_i :: "int \<Rightarrow> bytes result" where
  "pack_i x = (if in_i32 x then Inr (be_bytes 4 x) else Inl StructError)"

definition pack_I :: "int \<Rightarrow> bytes result" where
  "pack_I x = (if in_u32 x then Inr (be_bytes 4 x) else Inl StructError)"

definition get_q :: "bytes \<Rightarrow> int" where
  "get_q bs = to_signed 64 (be_val bs)"

definition get_i :: "bytes \<Rightarrow> int" where
  "get_i bs = to_signed 32 (be_val bs)"

definition get_I :: "bytes \<Rightarrow> int" where
  "get_I bs = be_val bs"

lemma mod_signed: "- (m::int) \<le> x \<Longrightarrow> x < m \<Longrightarrow> x mod (2 * m) = (if 0 \<le> x then x else x + 2 * m)"
proof -
  assume lo: "- m \<le> x" and hi: "x < m"
  show ?thesis
  proof (cases "0 \<le> x")
    case True
    with hi show ?thesis by simp
  next
    case False
    with lo hi have "(x + 2 * m) mod (2 * m) = x + 2 * m"
      by (intro mod_pos_pos_trivial) auto
    with False show ?thesis by simp
  qed
qed

lemma get_q_be_bytes [struct_eqs]: "in_i64 x \<Longrightarrow> get_q (be_bytes 8 x) = x"
  using mod_signed [of 9223372036854775808 x]
  by (auto simp: get_q_def in_i64_def to_signed_def struct_eqs)

lemma get_i_be_bytes [struct_eqs]: "in_i32 x \<Longrightarrow> get_i (be_bytes 4 x) = x"
  using mod_signed [of 2147483648 x]
  by (auto simp: get_i_def in_i32_def to_signed_def struct_eqs)

lemma get_I_be_bytes [struct_eqs]: "in_u32 x \<Longrightarrow> get_I (be_bytes 4 x) = x"
  by (auto simp: get_I_def in_u32_def MAX_U32_def struct_eqs)

lemma in_i64_get_q: "length bs = 8 \<Longrightarrow> in_i64 (get_q bs)"
  using be_val_bounds [of bs] by (auto simp: get_q_def in_i64_def to_signed_def)

lemma in_i32_get_i: "length bs = 4 \<Longrightarrow> in_i32 (get_i bs)"
  using be_val_bounds [of bs] by (auto simp: get_i_def in_i32_def to_signed_def)

lemma in_u32_get_I: "length bs = 4 \<Longrightarrow> in_u32 (get_I bs)"
  using be_val_bounds [of bs] by (auto simp: get_I_def in_u32_def MAX_U32_def)

text \<open>Two numbers that agree modulo \<open>256 ^ n\<close> have the same bytes, so unpacking inverts packing.\<close>

lemma be_bytes_mod: "be_bytes n (x mod 256 ^ n) = be_bytes n x"
  using be_bytes_be_val [OF length_be_bytes, of n x] by (simp add: be_val_be_bytes)

lemma be_bytes_get_q [struct_eqs]: "length bs = 8 \<Longrightarrow> be_bytes 8 (get_q bs) = bs"
proof -
  assume len: "length bs = 8"
  have "get_q bs mod 256 ^ 8 = be_val bs mod 256 ^ 8"
    by (simp add: get_q_def to_signed_def)
  then have "be_bytes 8 (get_q bs) = be_bytes 8 (be_val bs)"
    by (metis be_bytes_mod)
  with len show ?thesis by (simp add: struct_eqs)
qed

lemma be_bytes_get_i [struct_eqs]: "length bs = 4 \<Longrightarrow> be_bytes 4 (get_i bs) = bs"
proof -
  assume len: "length bs = 4"
  have "get_i bs mod 256 ^ 4 = be_val bs mod 256 ^ 4"
    by (simp add: get_i_def to_signed_def)
  then have "be_bytes 4 (get_i bs) = be_bytes 4 (be_val bs)"
    by (metis be_bytes_mod)
  with len show ?thesis by (simp add: struct_eqs)
qed

lemma be_bytes_get_I [struct_eqs]: "length bs = 4 \<Longrightarrow> be_bytes 4 (get_I bs) = bs"
  by (simp add: get_I_def struct_eqs)

lemma pack_q_eq_Inr [simp]: "pack_q x = Inr bs \<longleftrightarrow> in_i64 x \<and> bs = be_bytes 8 x"
  by (auto simp: pack_q_def)

lemma pack_i_eq_Inr [simp]: "pack_i x = Inr bs \<longleftrightarrow> in_i32 x \<and> bs = be_bytes 4 x"
  by (auto simp: pack_i_def)

lemma pack_I_eq_Inr [simp]: "pack_I x = Inr bs \<longleftrightarrow> in_u32 x \<and> bs = be_bytes 4 x"
  by (auto simp: pack_I_def)

text \<open>Evaluation on given numbers.\<close>

lemma be_bytes_eval:
  "be_bytes 4 x = map word_of_int [x div 256 div 256 div 256, x div 256 div 256, x div 256, x]"
  "be_bytes 8 x = be_bytes 4 (x div 256 div 256 div 256 div 256) @ be_bytes 4 x"
  by (simp_all add: eval_nat_numeral)

end
