(* ===== verification/Crc32.thy ===== *)
theory Crc32
  imports Bytes
begin

text \<open>
  \<open>zlib.crc32\<close>: the reflected CRC-32 with polynomial \<open>0xEDB88320\<close>, one bit at a time. The second
  argument is the running value, so a checksum over several pieces is computed piece by piece.
\<close>

unbundle bit_operations_syntax

definition crc_shift :: "32 word \<Rightarrow> 32 word" where
  "crc_shift c = (if bit c 0 then drop_bit 1 c XOR 0xEDB88320 else drop_bit 1 c)"

definition crc_byte :: "32 word \<Rightarrow> byte \<Rightarrow> 32 word" where
  "crc_byte c b = (crc_shift ^^ 8) (c XOR ucast b)"

definition crc32 :: "bytes \<Rightarrow> 32 word \<Rightarrow> 32 word" where
  "crc32 bs init = foldl crc_byte (init XOR 0xFFFFFFFF) bs XOR 0xFFFFFFFF"

named_theorems crc_evals \<open>evaluation of checksums of given bytes\<close>

lemma crc_byte_unfold [crc_evals]:
  "crc_byte c b =
     crc_shift (crc_shift (crc_shift (crc_shift
       (crc_shift (crc_shift (crc_shift (crc_shift (c XOR ucast b))))))))"
  by (simp add: crc_byte_def numeral_eq_Suc)

lemmas crc_unfold [crc_evals] = crc32_def crc_shift_def

text \<open>The standard check value: the checksum of the nine ASCII digits 1 to 9.\<close>

lemma crc32_check_value:
  "crc32 [0x31, 0x32, 0x33, 0x34, 0x35, 0x36, 0x37, 0x38, 0x39] 0 = 0xCBF43926"
  by (simp add: crc_evals)

lemma xor_word_cancel [simp]: "a XOR c = b XOR c \<longleftrightarrow> a = (b :: 'a::len word)"
  by (metis xor.assoc xor.right_neutral xor_self_eq)

lemma xor_word_cancel_left [simp]: "c XOR a = c XOR b \<longleftrightarrow> a = (b :: 'a::len word)"
  by (metis xor.commute xor_word_cancel)

lemma crc32_Nil [simp]: "crc32 [] c = c"
  by (simp add: crc32_def xor.assoc)

text \<open>Chaining the running value over pieces is the checksum of the whole.\<close>

lemma crc32_append: "crc32 ys (crc32 xs c) = crc32 (xs @ ys) c"
  by (simp add: crc32_def xor.assoc)

section \<open>One changed byte always changes the checksum\<close>

text \<open>
  The polynomial has its top bit set, so the bit shifted out can be read off the result and a
  shift step loses nothing; hence a byte step is injective in the running value, and, for one
  running value, in the byte.
\<close>

lemma crc_shift_top: "bit (crc_shift c) 31 = bit c 0"
proof -
  have "\<not> bit c 32" using bit_imp_le_length [of c 32] by auto
  then show ?thesis
    by (simp add: crc_shift_def bit_xor_iff bit_drop_bit_eq)
qed

lemma word_eq_by_drop_bit:
  fixes c d :: "'a::len word"
  assumes "bit c 0 = bit d 0" and "drop_bit 1 c = drop_bit 1 d"
  shows "c = d"
proof (rule bit_word_eqI)
  fix n
  show "bit c n = bit d n"
  proof (cases n)
    case 0
    with assms(1) show ?thesis by simp
  next
    case (Suc m)
    have "bit (drop_bit 1 c) m = bit (drop_bit 1 d) m" using assms(2) by simp
    with Suc show ?thesis by (simp add: bit_drop_bit_eq)
  qed
qed

lemma inj_crc_shift: "inj crc_shift"
proof (rule injI)
  fix c d
  assume eq: "crc_shift c = crc_shift d"
  then have low: "bit c 0 = bit d 0" using crc_shift_top by metis
  with eq have "drop_bit 1 c = drop_bit 1 d"
    by (simp add: crc_shift_def del: bit_0 split: if_splits)
  with low show "c = d" by (rule word_eq_by_drop_bit)
qed

lemma ucast_byte_inj:
  assumes "(ucast a :: 32 word) = ucast (b :: byte)"
  shows "a = b"
proof (rule bit_word_eqI)
  fix n assume "n < LENGTH(8)"
  moreover have "bit (ucast a :: 32 word) n = bit (ucast b :: 32 word) n" using assms by simp
  ultimately show "bit a n = bit b n" by (simp add: bit_ucast_iff)
qed

lemma crc_byte_eq: "crc_byte c a = crc_byte d b \<longleftrightarrow> c XOR ucast a = d XOR ucast b"
  unfolding crc_byte_def by (rule inj_eq [OF inj_fn [OF inj_crc_shift]])

lemma foldl_crc_byte_inj: "foldl crc_byte c bs = foldl crc_byte d bs \<longleftrightarrow> c = d"
  by (induction bs arbitrary: c d) (auto simp: crc_byte_eq)

lemma crc32_inj_state: "crc32 bs c = crc32 bs d \<longleftrightarrow> c = d"
  by (simp add: crc32_def foldl_crc_byte_inj)

lemma crc32_single_byte: "crc32 (xs @ a # ys) c = crc32 (xs @ b # ys) c \<longleftrightarrow> a = b"
proof -
  have split: "crc32 (xs @ x # ys) c = crc32 ys (crc32 [x] (crc32 xs c))" for x
    by (simp add: crc32_append)
  have "crc32 [a] d = crc32 [b] d \<longleftrightarrow> a = b" for d
    by (auto simp: crc32_def crc_byte_eq dest: ucast_byte_inj)
  then show ?thesis unfolding split by (simp add: crc32_inj_state)
qed

end
