(* ===== verification/Framing.thy ===== *)
theory Framing
  imports Prelude "HOL-Library.Sublist"
begin

text \<open>
  The contract between a record format and a file that is a sequence of records: \<open>frame\<close> writes one
  record, \<open>read\<close> takes one off the front of a byte stream. The scanning code (recovery, reading)
  relies on these laws alone: what was framed is read back with the rest of the stream untouched, a
  strict prefix of a frame (a torn write) reads as end of stream, and whatever is read was framed.
\<close>

definition frames_of :: "('r \<Rightarrow> 'b list) \<Rightarrow> 'r list \<Rightarrow> 'b list" where
  "frames_of frame rs = concat (map frame rs)"

definition torn_of :: "('r \<Rightarrow> bool) \<Rightarrow> ('r \<Rightarrow> 'b list) \<Rightarrow> 'b list \<Rightarrow> bool" where
  "torn_of valid frame p \<longleftrightarrow> p = [] \<or> (\<exists>r. valid r \<and> strict_prefix p (frame r))"

lemma frames_of_simps [simp]:
  "frames_of frame [] = []"
  "frames_of frame (r # rs) = frame r @ frames_of frame rs"
  "frames_of frame (rs @ ss) = frames_of frame rs @ frames_of frame ss"
  by (simp_all add: frames_of_def)

lemma torn_of_Nil [simp]: "torn_of valid frame []"
  by (simp add: torn_of_def)

locale framing =
  fixes valid :: "'r \<Rightarrow> bool"
    and frame :: "'r \<Rightarrow> 'b list"
    and read :: "'b list \<Rightarrow> 'e + ('r \<times> 'b list) option"
  assumes frame_not_Nil: "valid r \<Longrightarrow> frame r \<noteq> []"
    and read_Nil: "read [] = Inr None"
    and read_frame: "valid r \<Longrightarrow> read (frame r @ rest) = Inr (Some (r, rest))"
    and read_torn: "valid r \<Longrightarrow> strict_prefix p (frame r) \<Longrightarrow> read p = Inr None"
    and read_sound: "read bs = Inr (Some (r, rest)) \<Longrightarrow> valid r \<and> bs = frame r @ rest"
begin

abbreviation frames :: "'r list \<Rightarrow> 'b list" where
  "frames \<equiv> frames_of frame"

abbreviation torn :: "'b list \<Rightarrow> bool" where
  "torn \<equiv> torn_of valid frame"

lemma read_torn': "torn p \<Longrightarrow> read p = Inr None"
  by (auto simp: torn_of_def read_Nil read_torn)

lemma frame_prefix_free:
  assumes "valid r" "valid s" "frame r @ x = frame s @ y"
  shows "r = s \<and> x = y"
proof -
  have "Inr (Some (r, x)) = read (frame r @ x)" using assms(1) by (simp add: read_frame)
  also have "\<dots> = Inr (Some (s, y))" unfolding assms(3) using assms(2) by (rule read_frame)
  finally show ?thesis by simp
qed

text \<open>A stream is records and a torn tail in at most one way.\<close>

lemma frames_unique:
  assumes "\<forall>r \<in> set rs. valid r" "\<forall>r \<in> set ss. valid r" "torn p" "torn q"
    and "frames rs @ p = frames ss @ q"
  shows "rs = ss \<and> p = q"
  using assms
proof (induction rs arbitrary: ss)
  case Nil
  show ?case
  proof (cases ss)
    case (Cons s ss')
    with Nil have "p = frame s @ (frames ss' @ q)" "valid s" by auto
    then have "read p = Inr (Some (s, frames ss' @ q))" by (simp add: read_frame)
    with Nil(3) show ?thesis by (simp add: read_torn')
  qed (use Nil in simp)
next
  case (Cons r rs)
  show ?case
  proof (cases ss)
    case Nil
    with Cons.prems have "q = frame r @ (frames rs @ p)" "valid r" by auto
    then have "read q = Inr (Some (r, frames rs @ p))" by (simp add: read_frame)
    with Cons.prems(4) show ?thesis by (simp add: read_torn')
  next
    case (Cons s ss')
    with Cons.prems have "frame r @ (frames rs @ p) = frame s @ (frames ss' @ q)"
      and "valid r" "valid s" by auto
    then have "r = s" "frames rs @ p = frames ss' @ q"
      using frame_prefix_free by blast+
    with Cons Cons.prems Cons.IH [of ss'] show ?thesis by auto
  qed
qed

text \<open>
  Cutting a stream of records anywhere leaves its first records and a torn tail: the state a crash
  leaves behind.
\<close>

lemma prefix_of_frames:
  assumes "\<forall>r \<in> set rs. valid r" "prefix p (frames rs)"
  shows "\<exists>n t. n \<le> length rs \<and> torn t \<and> p = frames (take n rs) @ t"
  using assms
proof (induction rs arbitrary: p)
  case Nil
  then show ?case by (auto intro: exI [of _ 0])
next
  case (Cons r rs)
  consider "strict_prefix p (frame r)" | q where "p = frame r @ q" "prefix q (frames rs)"
    using Cons.prems(2) unfolding frames_of_simps prefix_append strict_prefix_def
    by (metis append_Nil2 Nil_prefix)
  then show ?case
  proof cases
    case 1
    with Cons.prems(1) have "torn p" by (auto simp: torn_of_def)
    then show ?thesis by (auto intro: exI [of _ 0])
  next
    case 2
    with Cons.IH [of q] Cons.prems(1) obtain n t
      where "n \<le> length rs" "torn t" "q = frames (take n rs) @ t" by auto
    with 2 show ?thesis by (intro exI [of _ "Suc n"] exI [of _ t]) simp
  qed
qed

text \<open>If the cut keeps at least the first \<open>k\<close> records, they survive.\<close>

lemma prefix_of_frames_keeps:
  assumes "\<forall>r \<in> set rs. valid r" "prefix p (frames rs)" "length (frames (take k rs)) \<le> length p"
    "k \<le> length rs"
  shows "\<exists>n t. k \<le> n \<and> n \<le> length rs \<and> torn t \<and> p = frames (take n rs) @ t"
proof -
  let ?a = "take k rs" and ?b = "drop k rs"
  have rs: "frames rs = frames ?a @ frames ?b"
    by (metis append_take_drop_id frames_of_simps(3))
  have "prefix (frames ?a) p"
    using prefix_length_prefix [of "frames ?a" "frames rs" p] assms(2,3) rs by simp
  then obtain q where p: "p = frames ?a @ q" by (auto elim: prefixE)
  with assms(2) rs have q: "prefix q (frames ?b)" by simp
  have "\<forall>r \<in> set ?b. valid r" using assms(1) in_set_dropD by fast
  from prefix_of_frames [OF this q] obtain m t
    where "m \<le> length ?b" "torn t" "q = frames (take m ?b) @ t" by blast
  with p assms(4) show ?thesis
    by (intro exI [of _ "k + m"] exI [of _ t]) (auto simp: take_add)
qed

end

end
