(* ===== verification/Log_Record.thy ===== *)
theory Log_Record
  imports Bytes Crc32 Framing
begin

text \<open>
  \<open>storage/record.py\<close>: one stored record and its framing. \<open>encode\<close>, \<open>rec_size\<close>, \<open>decode\<close> and
  \<open>read_one\<close> are the methods of \<open>Record\<close>, check by check and in the order of the code; the lemmas
  show that they are inverse to each other, how torn and damaged bytes are told apart, and that the
  format meets the contract \<open>framing\<close>.
\<close>

section \<open>The record and its methods\<close>

record log_record =
  rec_offset :: offset
  rec_timestamp :: int
  rec_key :: "bytes option"
  rec_value :: "bytes option"

definition PREFIX_SIZE :: nat where "PREFIX_SIZE = 12"
definition HEADER_SIZE :: nat where "HEADER_SIZE = 32"
definition CRC_BODY_SIZE :: nat where "CRC_BODY_SIZE = 16"
definition NULL :: int where "NULL = - 1"
definition MAX_SIZE :: nat where "MAX_SIZE = 1048576"

lemmas record_consts [layout_eqs] =
  PREFIX_SIZE_def HEADER_SIZE_def CRC_BODY_SIZE_def NULL_def MAX_SIZE_def

definition field_bytes :: "bytes option \<Rightarrow> bytes" where
  "field_bytes f = (case f of Some b \<Rightarrow> b | None \<Rightarrow> [])"

definition field_len :: "bytes option \<Rightarrow> int" where
  "field_len f = (case f of Some b \<Rightarrow> int (length b) | None \<Rightarrow> NULL)"

definition encode :: "log_record \<Rightarrow> bytes result" where
  "encode r =
     (let key_bytes = field_bytes (rec_key r);
          value_bytes = field_bytes (rec_value r)
      in bind_result (pack_q (rec_timestamp r)) (\<lambda>ts.
         bind_result (pack_i (field_len (rec_key r))) (\<lambda>kl.
         bind_result (pack_i (field_len (rec_value r))) (\<lambda>vl.
           let crc_body = ts @ kl @ vl;
               crc = crc32 value_bytes (crc32 key_bytes (crc32 crc_body 0));
               crc_pack = be_bytes 4 (uint crc);
               size = 4 + CRC_BODY_SIZE + length key_bytes + length value_bytes
           in if MAX_SIZE < size then Inl ValueError
              else bind_result (pack_q (rec_offset r)) (\<lambda>off.
                   bind_result (pack_I (int size)) (\<lambda>sz.
                     Inr (off @ sz @ crc_pack @ crc_body @ key_bytes @ value_bytes)))))))"

definition rec_size :: "log_record \<Rightarrow> nat" where
  "rec_size r = HEADER_SIZE
     + (case rec_key r of Some k \<Rightarrow> length k | None \<Rightarrow> 0)
     + (case rec_value r of Some v \<Rightarrow> length v | None \<Rightarrow> 0)"

definition decode :: "bytes \<Rightarrow> position \<Rightarrow> log_record result" where
  "decode buf pos =
     (if length buf < pos + PREFIX_SIZE then Inl StructError else
      let offset = get_q (py_slice pos (pos + 8) buf);
          size = get_I (py_slice (pos + 8) (pos + PREFIX_SIZE) buf)
      in
      if int MAX_SIZE < size then Inl CorruptRecord
      else if int (length buf) < int pos + int PREFIX_SIZE + size then Inl CorruptRecord
      else if length buf < pos + PREFIX_SIZE + 4 then Inl StructError
      else
      let crc_expected = get_I (py_slice (pos + PREFIX_SIZE) (pos + PREFIX_SIZE + 4) buf);
          body_start = pos + PREFIX_SIZE + 4;
          crc_body = py_slice body_start (body_start + CRC_BODY_SIZE) buf
      in
      if length crc_body \<noteq> CRC_BODY_SIZE then Inl StructError
      else
      let timestamp = get_q (py_slice 0 8 crc_body);
          klen = get_i (py_slice 8 12 crc_body);
          vlen = get_i (py_slice 12 16 crc_body)
      in
      if klen < NULL \<or> vlen < NULL then Inl CorruptRecord
      else
      let key_len = max klen 0;
          value_len = max vlen 0;
          expected = 4 + int CRC_BODY_SIZE + key_len + value_len
      in
      if expected \<noteq> size then Inl CorruptRecord
      else
      let key_start = pos + HEADER_SIZE;
          key_bytes = py_slice key_start (key_start + nat key_len) buf;
          value_bytes = py_slice (key_start + nat key_len)
                          (key_start + nat key_len + nat value_len) buf;
          crc_actual = crc32 value_bytes (crc32 key_bytes (crc32 crc_body 0))
      in
      if uint crc_actual \<noteq> crc_expected then Inl CorruptRecord
      else Inr \<lparr>rec_offset = offset, rec_timestamp = timestamp,
                rec_key = (if klen \<noteq> NULL then Some key_bytes else None),
                rec_value = (if vlen \<noteq> NULL then Some value_bytes else None)\<rparr>)"

text \<open>
  A file open for reading is the bytes from the current position on; \<open>read_one\<close> returns the record
  and what is left, \<open>None\<close> at a clean or torn end.
\<close>

definition read_one :: "bytes \<Rightarrow> (log_record \<times> bytes) option result" where
  "read_one f =
     (let prefix = take PREFIX_SIZE f;
          f1 = drop PREFIX_SIZE f
      in
      if length prefix < PREFIX_SIZE then Inr None
      else
      let size = get_I (py_slice 8 12 prefix)
      in
      if int MAX_SIZE < size then Inl CorruptRecord
      else
      let rest = take (nat size) f1;
          f2 = drop (nat size) f1
      in
      if int (length rest) < size then Inr None
      else bind_result (decode (prefix @ rest) 0) (\<lambda>r. Inr (Some (r, f2))))"

section \<open>The layout of an encoded record\<close>

text \<open>
  \<open>encodable\<close> is what \<open>encode\<close> accepts and \<open>rec_frame\<close> the bytes it then produces: the prefix
  (offset and size), the checksum, and the part the checksum covers.
\<close>

definition payload_size :: "log_record \<Rightarrow> nat" where
  "payload_size r = 20 + length (field_bytes (rec_key r)) + length (field_bytes (rec_value r))"

definition encodable :: "log_record \<Rightarrow> bool" where
  "encodable r \<longleftrightarrow> in_i64 (rec_offset r) \<and> in_i64 (rec_timestamp r) \<and> payload_size r \<le> MAX_SIZE"

definition crc_fixed :: "log_record \<Rightarrow> bytes" where
  "crc_fixed r = be_bytes 8 (rec_timestamp r) @ be_bytes 4 (field_len (rec_key r))
     @ be_bytes 4 (field_len (rec_value r))"

definition crc_region :: "log_record \<Rightarrow> bytes" where
  "crc_region r = crc_fixed r @ field_bytes (rec_key r) @ field_bytes (rec_value r)"

definition rec_frame :: "log_record \<Rightarrow> bytes" where
  "rec_frame r = be_bytes 8 (rec_offset r) @ be_bytes 4 (int (payload_size r))
     @ be_bytes 4 (uint (crc32 (crc_region r) 0)) @ crc_region r"

lemma length_field_bytes: "length (field_bytes f) = (case f of Some b \<Rightarrow> length b | None \<Rightarrow> 0)"
  by (simp add: field_bytes_def split: option.splits)

lemma field_len_max: "max (field_len f) 0 = int (length (field_bytes f))"
  by (simp add: field_len_def field_bytes_def NULL_def split: option.splits)

lemma field_len_lower: "NULL \<le> field_len f"
  by (simp add: field_len_def NULL_def split: option.splits)

lemma field_len_NULL [simp]: "field_len f = NULL \<longleftrightarrow> f = None"
  by (simp add: field_len_def NULL_def split: option.splits)

lemma field_by_len: "(if field_len f \<noteq> NULL then Some (field_bytes f) else None) = f"
  by (simp add: field_bytes_def split: option.splits)

lemma length_crc_fixed [simp]: "length (crc_fixed r) = CRC_BODY_SIZE"
  by (simp add: crc_fixed_def layout_eqs)

lemma rec_size_payload [layout_eqs]: "rec_size r = PREFIX_SIZE + payload_size r"
  by (simp add: rec_size_def payload_size_def length_field_bytes layout_eqs)

lemma length_crc_region: "length (crc_region r) = payload_size r - 4"
  by (simp add: crc_region_def payload_size_def layout_eqs)

lemma length_rec_frame [simp]: "length (rec_frame r) = rec_size r"
  by (simp add: rec_frame_def length_crc_region rec_size_payload layout_eqs)
     (simp add: payload_size_def)

lemma rec_size_ge: "HEADER_SIZE \<le> rec_size r"
  by (simp add: rec_size_def)

lemma encodable_i32:
  assumes "encodable r"
  shows "in_i32 (field_len (rec_key r))" "in_i32 (field_len (rec_value r))"
    "in_u32 (int (payload_size r))"
  using assms
  by (auto simp: encodable_def payload_size_def in_i32_def in_u32_def MAX_U32_def MAX_SIZE_def
      field_len_def NULL_def field_bytes_def split: option.splits)

lemma in_u32_uint [simp]: "in_u32 (uint (w :: 32 word))"
  using uint_range_size [of w] by (auto simp: in_u32_def MAX_U32_def word_size)

text \<open>\<open>encode\<close> produces the layout, or raises.\<close>

lemma crc32_pieces:
  "crc32 (field_bytes (rec_value r)) (crc32 (field_bytes (rec_key r)) (crc32 (crc_fixed r) 0))
     = crc32 (crc_region r) 0"
  by (simp add: crc32_append crc_region_def)

lemma encode_encodable: "encodable r \<Longrightarrow> encode r = Inr (rec_frame r)"
  using encodable_i32 [of r] crc32_pieces [of r, unfolded crc_fixed_def]
  by (auto simp: encode_def Let_def encodable_def pack_q_def pack_i_def pack_I_def
      rec_frame_def crc_region_def crc_fixed_def payload_size_def layout_eqs)

lemma encode_eq_Inr: "encode r = Inr bs \<longleftrightarrow> encodable r \<and> bs = rec_frame r"
proof
  assume "encode r = Inr bs"
  then have "encodable r"
    by (auto simp: encode_def Let_def encodable_def payload_size_def layout_eqs split: if_splits)
  with \<open>encode r = Inr bs\<close> show "encodable r \<and> bs = rec_frame r"
    by (simp add: encode_encodable)
qed (simp add: encode_encodable)

text \<open>What \<open>encode\<close> raises.\<close>

lemma encode_refusal: "encode r = Inl e \<Longrightarrow> e \<in> {ValueError, StructError} \<and> \<not> encodable r"
  by (auto simp: encode_encodable) (auto simp: encode_def Let_def pack_q_def pack_i_def pack_I_def split: if_split_asm)

section \<open>Decoding what was encoded\<close>


text \<open>The equation of \<open>decode\<close> with its local names as variables.\<close>

lemma decode_unfold:
  assumes "sz = get_I (py_slice (pos + 8) (pos + 12) buf)"
    and "crc_body = py_slice (pos + 16) (pos + 32) buf"
    and "klen = get_i (py_slice 8 12 crc_body)"
    and "vlen = get_i (py_slice 12 16 crc_body)"
    and "key_end = pos + 32 + nat (max klen 0)"
    and "key_bytes = py_slice (pos + 32) key_end buf"
    and "value_bytes = py_slice key_end (key_end + nat (max vlen 0)) buf"
  shows "decode buf pos =
     (if length buf < pos + 12 then Inl StructError
      else if 1048576 < sz then Inl CorruptRecord
      else if int (length buf) < int pos + 12 + sz then Inl CorruptRecord
      else if length buf < pos + 16 then Inl StructError
      else if length crc_body \<noteq> 16 then Inl StructError
      else if klen < -1 \<or> vlen < -1 then Inl CorruptRecord
      else if 20 + max klen 0 + max vlen 0 \<noteq> sz then Inl CorruptRecord
      else if uint (crc32 value_bytes (crc32 key_bytes (crc32 crc_body 0)))
          \<noteq> get_I (py_slice (pos + 12) (pos + 16) buf) then Inl CorruptRecord
      else Inr \<lparr>rec_offset = get_q (py_slice pos (pos + 8) buf),
                rec_timestamp = get_q (py_slice 0 8 crc_body),
                rec_key = (if klen \<noteq> -1 then Some key_bytes else None),
                rec_value = (if vlen \<noteq> -1 then Some value_bytes else None)\<rparr>)"
proof -
  have n: "pos + 12 + 4 = pos + 16" "pos + 16 + 16 = pos + 32" "(4::int) + int 16 = 20"
    "int 1048576 = 1048576" "int 12 = 12"
    by simp_all
  show ?thesis unfolding decode_def Let_def record_consts n assms ..
qed

lemma decode_append_left: "decode (xs @ buf) (length xs + pos) = decode buf pos"
proof -
  have s: "py_slice (length xs + pos + a) (length xs + pos + b) (xs @ buf)
      = py_slice (pos + a) (pos + b) buf" for a b
    by (simp add: add.assoc)
  have s0: "py_slice (length xs + pos) (length xs + pos + b) (xs @ buf) = py_slice pos (pos + b) buf" for b
    using s [of 0 b] by simp
  have k: "py_slice (length xs + pos + a) (length xs + pos + a + n) (xs @ buf)
      = py_slice (pos + a) (pos + a + n) buf"
    "py_slice (length xs + pos + a + n) (length xs + pos + a + n + m) (xs @ buf)
      = py_slice (pos + a + n) (pos + a + n + m) buf" for a n m
    using s [of a "a + n"] s [of "a + n" "a + n + m"] by (simp_all add: add.assoc)
  have c: "(length (xs @ buf) < length xs + pos + a) = (length buf < pos + a)" for a by simp
  have c': "(int (length (xs @ buf)) < int (length xs + pos) + 12 + z) = (int (length buf) < int pos + 12 + z)"
    for z unfolding length_append of_nat_add by linarith
  show ?thesis
    unfolding decode_unfold [OF refl refl refl refl refl refl refl] s s0 k c c' ..
qed

lemma decode_drop: "pos \<le> length buf \<Longrightarrow> decode buf pos = decode (drop pos buf) 0"
  using decode_append_left [of "take pos buf" "drop pos buf" 0] by simp

lemma decode_frame_0:
  assumes enc: "encodable r"
  shows "decode (rec_frame r @ ys) 0 = Inr r"
proof -
  let ?buf = "rec_frame r @ ys" and ?k = "field_bytes (rec_key r)" and ?v = "field_bytes (rec_value r)"
  note enc32 = encodable_i32 [OF enc]
  have whole: "?buf = be_bytes 8 (rec_offset r) @ be_bytes 4 (int (payload_size r))
      @ be_bytes 4 (uint (crc32 (crc_region r) 0)) @ crc_fixed r @ ?k @ ?v @ ys"
    by (simp add: rec_frame_def crc_region_def)
  have len: "length ?buf = 12 + payload_size r + length ys"
    by (simp add: layout_eqs)
  have f: "py_slice 0 8 (crc_fixed r) = be_bytes 8 (rec_timestamp r)"
    "get_i (py_slice 8 12 (crc_fixed r)) = field_len (rec_key r)"
    "get_i (py_slice 12 16 (crc_fixed r)) = field_len (rec_value r)"
    using enc32 by (simp_all add: crc_fixed_def struct_eqs)
  have n: "nat (max (field_len f) 0) = length (field_bytes f)" for f
    by (simp add: field_len_max)
  have s: "get_I (py_slice (0 + 8) (0 + 12) ?buf) = int (payload_size r)"
    "py_slice (0 + 16) (0 + 32) ?buf = crc_fixed r"
    "py_slice (0 + 32) (0 + 32 + nat (max (field_len (rec_key r)) 0)) ?buf = ?k"
    "py_slice (0 + 32 + nat (max (field_len (rec_key r)) 0))
       (0 + 32 + nat (max (field_len (rec_key r)) 0) + nat (max (field_len (rec_value r)) 0)) ?buf = ?v"
    "get_I (py_slice (0 + 12) (0 + 16) ?buf) = uint (crc32 (crc_region r) 0)"
    "get_q (py_slice 0 (0 + 8) ?buf) = rec_offset r"
    using enc enc32 by (simp_all add: whole n layout_eqs struct_eqs encodable_def)
  show ?thesis
    using enc field_len_lower [of "rec_key r"] field_len_lower [of "rec_value r"]
      field_by_len [of "rec_key r"] field_by_len [of "rec_value r"]
    unfolding decode_unfold [OF refl refl refl refl refl refl refl] s f len crc32_pieces
    by (simp add: field_len_max layout_eqs encodable_def payload_size_def struct_eqs)
qed
lemma decode_frame: "encodable r \<Longrightarrow> decode (xs @ rec_frame r @ ys) (length xs) = Inr r"
  using decode_append_left [of xs "rec_frame r @ ys" 0] by (simp add: decode_frame_0)

text \<open>Whatever \<open>decode\<close> accepts is the frame of the record it returns.\<close>

lemma decode_sound_0:
  assumes dec: "decode buf 0 = Inr r"
  shows "encodable r \<and> rec_size r \<le> length buf \<and> take (rec_size r) buf = rec_frame r"
proof -
  define body where "body = py_slice 16 32 buf"
  define kl where "kl = get_i (py_slice 8 12 body)"
  define vl where "vl = get_i (py_slice 12 16 body)"
  define n where "n = nat (max kl 0)"
  define m where "m = nat (max vl 0)"
  define kb where "kb = py_slice 32 (32 + n) buf"
  define vb where "vb = py_slice (32 + n) (32 + n + m) buf"
  define sz where "sz = get_I (py_slice 8 12 buf)"
  have D: "decode buf 0 =
     (if length buf < 0 + 12 then Inl StructError
      else if 1048576 < sz then Inl CorruptRecord
      else if int (length buf) < int 0 + 12 + sz then Inl CorruptRecord
      else if length buf < 0 + 16 then Inl StructError
      else if length body \<noteq> 16 then Inl StructError
      else if kl < -1 \<or> vl < -1 then Inl CorruptRecord
      else if 20 + max kl 0 + max vl 0 \<noteq> sz then Inl CorruptRecord
      else if uint (crc32 vb (crc32 kb (crc32 body 0)))
          \<noteq> get_I (py_slice (0 + 12) (0 + 16) buf) then Inl CorruptRecord
      else Inr \<lparr>rec_offset = get_q (py_slice 0 (0 + 8) buf),
                rec_timestamp = get_q (py_slice 0 8 body),
                rec_key = (if kl \<noteq> -1 then Some kb else None),
                rec_value = (if vl \<noteq> -1 then Some vb else None)\<rparr>)"
    by (rule decode_unfold) (simp_all add: body_def kl_def vl_def n_def m_def kb_def vb_def sz_def)
  from dec have c: "12 \<le> length buf" "sz \<le> 1048576" "12 + sz \<le> int (length buf)"
    "length body = 16" "-1 \<le> kl" "-1 \<le> vl" "20 + max kl 0 + max vl 0 = sz"
    "uint (crc32 vb (crc32 kb (crc32 body 0))) = get_I (py_slice 12 16 buf)"
    and r: "r = \<lparr>rec_offset = get_q (py_slice 0 8 buf), rec_timestamp = get_q (py_slice 0 8 body),
      rec_key = (if kl \<noteq> -1 then Some kb else None), rec_value = (if vl \<noteq> -1 then Some vb else None)\<rparr>"
    unfolding D by (simp_all split: if_splits)
  have nm: "int n = max kl 0" "int m = max vl 0" by (simp_all add: n_def m_def)
  with c have sz: "sz = int (20 + n + m)" and fits: "32 + n + m \<le> length buf" by linarith+
  have lk: "length kb = n" "length vb = m" using fits by (simp_all add: kb_def vb_def)
  have times: "rec_offset r = get_q (py_slice 0 8 buf)" "rec_timestamp r = get_q (py_slice 0 8 body)"
    by (simp_all add: r)
  have flds: "field_len (rec_key r) = kl" "field_bytes (rec_key r) = kb"
    "field_len (rec_value r) = vl" "field_bytes (rec_value r) = vb"
    using lk nm c(5,6) by (auto simp: r field_len_def field_bytes_def NULL_def n_def m_def)
  have ps: "payload_size r = 20 + n + m" by (simp add: payload_size_def flds lk)
  have enc: "encodable r"
    using c(2) sz fits by (simp add: encodable_def ps MAX_SIZE_def times in_i64_get_q c(4))
  have body: "crc_fixed r = body"
    using slice_join [of 8 12 16 body] slice_join [of 0 8 16 body] c(4)
    by (simp add: crc_fixed_def flds times) (simp add: kl_def vl_def struct_eqs)
  have reg: "crc_region r = py_slice 16 (32 + n + m) buf"
    using slice_join [of 16 32 "32 + n + m" buf] slice_join [of 32 "32 + n" "32 + n + m" buf]
    by (simp add: crc_region_def body flds) (simp add: body_def kb_def vb_def)
  have crc: "uint (crc32 (crc_region r) 0) = get_I (py_slice 12 16 buf)"
    using c(8) crc32_pieces [of r] by (simp add: flds body)
  have pre: "be_bytes 8 (rec_offset r) = py_slice 0 8 buf"
    "be_bytes 4 (int (payload_size r)) = py_slice 8 12 buf"
    "be_bytes 4 (uint (crc32 (crc_region r) 0)) = py_slice 12 16 buf"
    using fits by (simp_all only: times crc ps sz [symmetric])
       (simp_all add: sz_def struct_eqs)
  have "rec_frame r = py_slice 0 (32 + n + m) buf"
    unfolding rec_frame_def pre unfolding reg
    using slice_join [of 0 8 "32 + n + m" buf] slice_join [of 8 12 "32 + n + m" buf]
      slice_join [of 12 16 "32 + n + m" buf] by simp
  with enc fits show ?thesis
    by (simp add: rec_size_payload PREFIX_SIZE_def ps py_slice_def add.assoc)
qed

lemma decode_short: "length buf < pos + 12 \<Longrightarrow> decode buf pos = Inl StructError"
  by (simp add: decode_def PREFIX_SIZE_def)

lemma decode_sound:
  assumes dec: "decode buf pos = Inr r"
  shows "encodable r \<and> pos + rec_size r \<le> length buf \<and> py_slice pos (pos + rec_size r) buf = rec_frame r"
proof -
  have "\<not> length buf < pos + 12" using decode_short [of buf pos] dec by auto
  then have pos: "pos \<le> length buf" by simp
  have "decode (drop pos buf) 0 = Inr r" using decode_drop [OF pos] dec by simp
  from decode_sound_0 [OF this] have enc: "encodable r" and len: "rec_size r \<le> length (drop pos buf)"
    and frame: "take (rec_size r) (drop pos buf) = rec_frame r" by blast+
  have "pos + rec_size r \<le> length buf" using len pos unfolding length_drop by arith
  moreover have "py_slice pos (pos + rec_size r) buf = rec_frame r"
    unfolding py_slice_def using frame by simp
  ultimately show ?thesis using enc by blast
qed

section \<open>Reading one record from a stream\<close>

lemma decode_result_class:
  assumes "pos + 32 \<le> length buf"
  shows "decode buf pos = Inl e \<Longrightarrow> e = CorruptRecord"
  using assms unfolding decode_unfold [OF refl refl refl refl refl refl refl]
  by (simp split: if_split_asm)

lemma decode_errors: "decode buf pos = Inl e \<Longrightarrow> e = CorruptRecord \<or> e = StructError"
  unfolding decode_unfold [OF refl refl refl refl refl refl refl]
  by (simp split: if_split_asm)

lemma read_one_error:
  "read_one f = Inl e \<Longrightarrow> e = CorruptRecord \<or> e = StructError"
  using decode_errors
  by (auto simp: read_one_def Let_def bind_result_eq_Inl split: if_split_asm)

lemma read_one_Nil: "read_one [] = Inr None"
  by (simp add: read_one_def PREFIX_SIZE_def)

lemma read_one_frame: "encodable r \<Longrightarrow> read_one (rec_frame r @ rest) = Inr (Some (r, rest))"
proof -
  assume enc: "encodable r"
  note u = encodable_i32 [OF enc]
  define fixed where "fixed = be_bytes 8 (rec_offset r) @ be_bytes 4 (int (payload_size r))"
  define tail where "tail = be_bytes 4 (uint (crc32 (crc_region r) 0)) @ crc_region r"
  have frame: "rec_frame r = fixed @ tail" by (simp add: rec_frame_def fixed_def tail_def)
  have lf: "length fixed = 12" by (simp add: fixed_def)
  have lt: "length tail = payload_size r"
    using length_rec_frame [of r] lf by (simp add: frame rec_size_payload PREFIX_SIZE_def)
  have sz: "get_I (py_slice 8 12 fixed) = int (payload_size r)"
    using u by (simp add: fixed_def struct_eqs)
  have dec: "decode (fixed @ tail) 0 = Inr r"
    using decode_frame_0 [OF enc, of "[]"] by (simp add: frame)
  show ?thesis
    using enc dec sz lf lt by (simp add: frame read_one_def PREFIX_SIZE_def encodable_def)
qed

lemma read_one_torn: "encodable r \<Longrightarrow> strict_prefix p (rec_frame r) \<Longrightarrow> read_one p = Inr None"
proof -
  assume enc: "encodable r" and sp: "strict_prefix p (rec_frame r)"
  note u = encodable_i32 [OF enc]
  from sp have len: "length p < rec_size r"
    using prefix_length_less by fastforce
  from sp have p: "p = take (length p) (rec_frame r)"
    by (auto simp: strict_prefix_def prefix_def)
  show ?thesis
  proof (cases "length p < 12")
    case True
    then show ?thesis by (simp add: read_one_def PREFIX_SIZE_def)
  next
    case False
    then have "take 12 p = take 12 (rec_frame r)" by (subst p) simp
    then have "take 12 p = be_bytes 8 (rec_offset r) @ be_bytes 4 (int (payload_size r))"
      by (simp add: rec_frame_def)
    with False enc u len show ?thesis
      by (simp add: read_one_def PREFIX_SIZE_def struct_eqs encodable_def rec_size_payload Let_def)
  qed
qed

lemma read_one_sound:
  assumes "read_one bs = Inr (Some (r, rest))"
  shows "encodable r \<and> bs = rec_frame r @ rest"
proof -
  define n where "n = nat (get_I (py_slice 8 12 (take 12 bs)))"
  let ?buf = "take 12 bs @ take n (drop 12 bs)"
  from assms have dec: "decode ?buf 0 = Inr r" and rest: "rest = drop n (drop 12 bs)"
    by (auto simp: read_one_def PREFIX_SIZE_def n_def Let_def split: if_split_asm)
  from decode_sound_0 [OF dec] have enc: "encodable r" and pre: "take (rec_size r) ?buf = rec_frame r"
    by auto
  have buf: "?buf = take (12 + n) bs" by (simp add: take_add)
  have "n = payload_size r"
  proof -
    have "take 12 bs = take 12 (rec_frame r)"
      using arg_cong [OF pre, of "take 12"] by (simp add: buf rec_size_payload PREFIX_SIZE_def)
    then show ?thesis using encodable_i32 [OF enc] by (simp add: n_def rec_frame_def struct_eqs)
  qed
  then have "12 + n = rec_size r" by (simp add: rec_size_payload PREFIX_SIZE_def)
  with pre buf rest enc show ?thesis
    by (metis append_take_drop_id drop_drop add.commute take_take min.idem)
qed

interpretation rec_fmt: framing encodable rec_frame read_one
proof
  fix r :: log_record and p bs rest :: bytes
  show "encodable r \<Longrightarrow> rec_frame r \<noteq> []"
    using rec_size_ge [of r] length_rec_frame [of r] by (auto simp: HEADER_SIZE_def simp del: length_rec_frame)
qed (simp_all add: read_one_Nil read_one_frame read_one_torn read_one_sound)

section \<open>What the format promises\<close>

text \<open>
  Property C32. \<open>encode\<close> and \<open>decode\<close> are inverse, first direction: whatever \<open>encode\<close> emits has the
  announced size and is decoded to the same record wherever it stands in a buffer, absent and
  empty fields kept apart, and \<open>read_one\<close> takes exactly these bytes off a stream.
\<close>

theorem encode_then_decode:
  assumes "encode r = Inr bs"
  shows "length bs = rec_size r \<and> decode (xs @ bs @ ys) (length xs) = Inr r
    \<and> read_one (bs @ ys) = Inr (Some (r, ys))"
  using assms by (simp add: encode_eq_Inr decode_frame read_one_frame)

text \<open>
  Property C33. The other direction: a record \<open>decode\<close> accepts at a position is one \<open>encode\<close>
  emits, and its encoding is exactly the bytes that were read. No two byte strings decode to the
  same record.
\<close>

theorem decode_then_encode:
  assumes "decode buf pos = Inr r"
  shows "encode r = Inr (py_slice pos (pos + rec_size r) buf) \<and> pos + rec_size r \<le> length buf"
  using decode_sound [OF assms] by (simp add: encode_eq_Inr)

text \<open>
  A torn write is the end of the stream, not an error: a strict prefix of an encoded
  record, the empty one included, reads as \<open>None\<close>.
\<close>

theorem torn_record_reads_None:
  assumes "encode r = Inr bs" and "n < length bs"
  shows "read_one (take n bs) = Inr None"
proof -
  have "strict_prefix (take n bs) bs"
    using assms(2) by (metis take_is_prefix strict_prefix_def length_take min.strict_order_iff
        min.commute nat_neq_iff)
  with assms(1) show ?thesis by (auto simp: encode_eq_Inr intro: read_one_torn)
qed

lemma frame_update:
  assumes "12 \<le> i"
  shows "(rec_frame r)[i := b] = take 12 (rec_frame r) @ (drop 12 (rec_frame r))[i - 12 := b]"
proof -
  have "length (take 12 (rec_frame r)) = 12"
    using rec_size_ge [of r] by (simp add: HEADER_SIZE_def)
  then show ?thesis
    using assms list_update_append [of "take 12 (rec_frame r)" "drop 12 (rec_frame r)" i b] by simp
qed

lemma same_prefix_same_payload:
  assumes "encodable r" "encodable s" "take 12 (rec_frame r) = take 12 (rec_frame s)"
  shows "payload_size r = payload_size s"
proof -
  have "be_bytes 4 (int (payload_size r)) = be_bytes 4 (int (payload_size s))"
    using assms(3) by (simp add: rec_frame_def)
  then have "get_I (be_bytes 4 (int (payload_size r))) = get_I (be_bytes 4 (int (payload_size s)))"
    by simp
  then show ?thesis using encodable_i32 [OF assms(1)] encodable_i32 [OF assms(2)]
    by (simp add: struct_eqs)
qed

lemma frames_differ_twice:
  assumes r: "encodable r" and s: "encodable s" and i: "12 \<le> i" "i < rec_size r"
    and upd: "(rec_frame r)[i := b] = rec_frame s"
  shows "b = rec_frame r ! i"
proof (rule ccontr)
  assume ne: "b \<noteq> rec_frame r ! i"
  let ?f = "rec_frame r" and ?g = "rec_frame s"
  have parts: "take 4 (drop 12 (rec_frame x)) = be_bytes 4 (uint (crc32 (crc_region x) 0))"
    "drop 16 (rec_frame x) = crc_region x" for x
    by (simp_all add: rec_frame_def)
  have gi: "?g ! i = b" using i by (simp add: upd [symmetric])
  show False
  proof (cases "i < 16")
    case True
    have "drop 16 ?g = drop 16 ?f" using True by (simp add: upd [symmetric] drop_update_cancel)
    then have "crc_region s = crc_region r" by (simp add: parts)
    then have "take 4 (drop 12 ?g) = take 4 (drop 12 ?f)" by (simp add: parts)
    then have "take 4 (drop 12 ?g) ! (i - 12) = take 4 (drop 12 ?f) ! (i - 12)" by simp
    moreover have "length ?g = length ?f" by (simp only: upd [symmetric] length_list_update)
    ultimately have "?g ! i = ?f ! i" using i True by simp
    with gi ne show False by simp
  next
    case False
    then have j: "i - 16 < length (crc_region r)" and i16: "16 \<le> i"
      using i by (simp_all add: length_crc_region rec_size_payload PREFIX_SIZE_def)
    have reg: "crc_region s = (crc_region r)[i - 16 := b]"
      using i16 parts(2) [of s] parts(2) [of r] by (simp add: upd [symmetric] drop_update_swap)
    have "take 4 (drop 12 ?g) = take 4 (drop 12 ?f)"
      using i16 by (simp add: upd [symmetric] drop_update_swap)
    then have "be_bytes 4 (uint (crc32 (crc_region s) 0)) = be_bytes 4 (uint (crc32 (crc_region r) 0))"
      by (simp add: parts)
    then have "get_I (be_bytes 4 (uint (crc32 (crc_region s) 0)))
        = get_I (be_bytes 4 (uint (crc32 (crc_region r) 0)))" by simp
    then have "crc32 (crc_region s) 0 = crc32 (crc_region r) 0"
      by (simp add: struct_eqs word_uint_eq_iff)
    then have "crc32 (take (i - 16) (crc_region r) @ b # drop (Suc (i - 16)) (crc_region r)) 0
      = crc32 (take (i - 16) (crc_region r) @ crc_region r ! (i - 16) # drop (Suc (i - 16)) (crc_region r)) 0"
      using j by (simp add: reg upd_conv_take_nth_drop id_take_nth_drop [symmetric])
    then have "b = crc_region r ! (i - 16)" by (simp add: crc32_single_byte)
    also have "\<dots> = ?f ! i" using i i16 by (simp add: parts(2) [symmetric])
    finally show False using ne by simp
  qed
qed

text \<open>
  Property C37. Damage to any single byte of the checksum or of what it covers (timestamp, lengths,
  key, value) is found: the damaged bytes decode to \<open>CorruptRecord\<close>, never to a record.
\<close>

theorem single_byte_damage_detected:
  assumes "encode r = Inr bs" and "12 \<le> i" and "i < length bs" and "b \<noteq> bs ! i"
  shows "decode (bs[i := b]) 0 = Inl CorruptRecord"
proof -
  from assms(1) have enc: "encodable r" and bs: "bs = rec_frame r"
    by (simp_all add: encode_eq_Inr)
  let ?d = "bs[i := b]"
  show ?thesis
  proof (cases "decode ?d 0")
    case (Inl e)
    moreover have "0 + 32 \<le> length ?d" using rec_size_ge [of r] by (simp add: bs HEADER_SIZE_def)
    ultimately show ?thesis using decode_result_class [of 0 ?d e] by simp
  next
    case (Inr s)
    from decode_sound_0 [OF Inr] have s: "encodable s" "take (rec_size s) ?d = rec_frame s"
      by blast+
    have "take 12 (rec_frame s) = take 12 (rec_frame r)"
      using rec_size_ge [of s] assms(2)
      by (simp add: s(2) [symmetric] bs HEADER_SIZE_def take_update_cancel)
    then have "rec_size s = rec_size r"
      using same_prefix_same_payload [OF enc s(1)] by (simp add: rec_size_payload)
    with s(2) have "?d = rec_frame s" by (simp add: bs)
    with frames_differ_twice [OF enc s(1) assms(2)] assms(3,4) show ?thesis by (simp add: bs)
  qed
qed

text \<open>
  \<open>encode\<close> refuses exactly what \<open>read_one\<close> would refuse: a record of more than
  \<open>MAX_SIZE\<close> bytes raises \<open>ValueError\<close>, an offset or timestamp outside 64 bits \<open>struct.error\<close>, and
  everything else is encoded.
\<close>

theorem encode_outcomes:
  assumes "in_i32 (field_len (rec_key r))" "in_i32 (field_len (rec_value r))"
  shows "encode r =
    (if \<not> in_i64 (rec_timestamp r) then Inl StructError
     else if MAX_SIZE < payload_size r then Inl ValueError
     else if \<not> in_i64 (rec_offset r) then Inl StructError
     else Inr (rec_frame r))"
proof (cases "encodable r")
  case True
  then show ?thesis by (auto simp: encode_encodable encodable_def)
next
  case False
  with assms show ?thesis
    by (auto simp: encode_def Let_def pack_q_def pack_i_def encodable_def payload_size_def
        CRC_BODY_SIZE_def)
qed

text \<open>
  Property C40. A size field below 20 (the checksum and the fixed fields) is not reported as
  \<open>CorruptRecord\<close>: \<open>read_one\<close> hands \<open>decode\<close> a buffer that ends inside the fixed fields, and unpacking
  it raises \<open>struct.error\<close>. Twelve zero bytes are the smallest case.
\<close>

theorem short_size_raises_struct_error:
  assumes "in_i64 off" and "n < 20" and "n \<le> length rest"
  shows "read_one (be_bytes 8 off @ be_bytes 4 (int n) @ rest) = Inl StructError"
proof -
  let ?p = "be_bytes 8 off @ be_bytes 4 (int n)"
  have u: "in_u32 (int n)" using assms(2) by (simp add: in_u32_def MAX_U32_def)
  have "decode (?p @ take n rest) 0 = Inl StructError"
  proof -
    have "get_I (py_slice (0 + 8) (0 + 12) (?p @ take n rest)) = int n"
      using u by (simp add: struct_eqs)
    moreover have "length (py_slice (0 + 16) (0 + 32) (?p @ take n rest)) \<noteq> 16"
      using assms(2,3) by (simp add: length_slice)
    ultimately show ?thesis using assms(2,3)
      unfolding decode_unfold [OF refl refl refl refl refl refl refl] by simp
  qed
  then show ?thesis using assms u
    by (simp add: read_one_def PREFIX_SIZE_def MAX_SIZE_def struct_eqs)
qed

section \<open>A concrete record\<close>

definition sample_record :: log_record where
  "sample_record = \<lparr>rec_offset = 7, rec_timestamp = 1000, rec_key = Some [97], rec_value = Some []\<rparr>"

definition sample_bytes :: bytes where
  "sample_bytes = [0, 0, 0, 0, 0, 0, 0, 7, 0, 0, 0, 21, 133, 209, 88, 82, 0, 0, 0, 0, 0, 0, 3, 232, 0, 0, 0, 1, 0, 0, 0, 0, 97]"

lemma sample_region: "crc_region sample_record = [0, 0, 0, 0, 0, 0, 3, 232, 0, 0, 0, 1, 0, 0, 0, 0, 97]"
  by (simp add: sample_record_def crc_region_def crc_fixed_def field_bytes_def field_len_def be_bytes_eval)

lemma sample_crc: "crc32 [0, 0, 0, 0, 0, 0, 3, 232, 0, 0, 0, 1, 0, 0, 0, 0, 97] 0 = 2245089362"
  by (simp add: crc_evals)

lemma encodable_sample: "encodable sample_record" "payload_size sample_record = 21"
  by (simp_all add: sample_record_def encodable_def payload_size_def field_bytes_def in_i64_def MAX_SIZE_def)

lemma encode_sample: "encode sample_record = Inr sample_bytes"
  by (simp add: encode_encodable encodable_sample rec_frame_def sample_region sample_crc be_bytes_eval)
     (simp add: sample_record_def sample_bytes_def be_bytes_eval)

lemma length_sample [simp]: "length sample_bytes = 33" by (simp add: sample_bytes_def)

lemma sample_frame: "rec_frame sample_record = sample_bytes" "encodable sample_record"
  using encode_sample by (simp_all add: encode_eq_Inr)

theorem encode_then_decode_witness:
  "decode ([1, 2] @ sample_bytes @ [3]) 2 = Inr sample_record"
  using encode_then_decode [OF encode_sample, of "[1, 2]" "[3]"] by (simp add: numeral_2_eq_2)

theorem decode_then_encode_witness:
  "encode sample_record = Inr (py_slice 0 33 sample_bytes) \<and> rec_size sample_record = 33"
proof -
  have size: "rec_size sample_record = 33"
    by (simp add: sample_record_def rec_size_def layout_eqs)
  have "decode sample_bytes 0 = Inr sample_record"
    using decode_frame [of sample_record "[]" "[]"] by (simp add: sample_frame)
  from decode_then_encode [OF this] size show ?thesis by simp
qed

theorem torn_record_reads_None_witness:
  "read_one (take 30 sample_bytes) = Inr None"
  by (rule torn_record_reads_None [OF encode_sample]) simp

theorem single_byte_damage_detected_witness:
  "decode (sample_bytes[32 := 98]) 0 = Inl CorruptRecord"
  by (rule single_byte_damage_detected [OF encode_sample]) (simp_all add: sample_bytes_def)

theorem encode_outcomes_witness:
  "encode (sample_record\<lparr>rec_timestamp := 2 ^ 63\<rparr>) = Inl StructError"
proof -
  let ?r = "sample_record\<lparr>rec_timestamp := 2 ^ 63\<rparr>"
  have "in_i32 (field_len (rec_key ?r))" "in_i32 (field_len (rec_value ?r))"
    by (simp_all add: sample_record_def field_len_def in_i32_def)
  from encode_outcomes [OF this] show ?thesis by (simp add: in_i64_def)
qed

theorem short_size_raises_struct_error_witness:
  "read_one (replicate 12 0) = Inl StructError"
proof -
  have "replicate 12 0 = be_bytes 8 0 @ be_bytes 4 (int 0) @ []"
    by (simp add: eval_nat_numeral)
  moreover have "in_i64 0" by (simp add: in_i64_def)
  ultimately show ?thesis using short_size_raises_struct_error [of 0 0 "[]"] by simp
qed

end
