(* ===== verification/Py_Text.thy ===== *)
theory Py_Text
  imports Prelude
begin

text \<open>
  What the code uses of Python's text: numbers as decimal text (\<open>f"{n}"\<close>, the file name format
  \<open>{n:020d}\<close>, \<open>int(text)\<close>, \<open>str.isdigit\<close>) and UTF-8. A \<open>string\<close> is a list of code points below 256.
\<close>

section \<open>Decimal text\<close>

definition digit_char :: "nat \<Rightarrow> char" where
  "digit_char d = char_of (48 + d)"

fun nat_text :: "nat \<Rightarrow> string" where
  "nat_text n = (if n < 10 then [digit_char n] else nat_text (n div 10) @ [digit_char (n mod 10)])"

declare nat_text.simps [simp del]

definition int_text :: "int \<Rightarrow> string" where
  "int_text n = (if n < 0 then CHR ''-'' # nat_text (nat (- n)) else nat_text (nat n))"

definition zero_pad :: "nat \<Rightarrow> string \<Rightarrow> string" where
  "zero_pad w s = replicate (w - length s) (CHR ''0'') @ s"

text \<open>\<open>f'{n:020d}'\<close>: at least twenty characters, the sign counted, zeros after the sign.\<close>

definition fmt020 :: "int \<Rightarrow> string" where
  "fmt020 n = (if n < 0 then CHR ''-'' # zero_pad 19 (nat_text (nat (- n)))
               else zero_pad 20 (nat_text (nat n)))"

definition is_ascii_digit :: "char \<Rightarrow> bool" where
  "is_ascii_digit c \<longleftrightarrow> 48 \<le> (of_char c :: nat) \<and> (of_char c :: nat) \<le> 57"

definition digit_value :: "char \<Rightarrow> nat" where
  "digit_value c = of_char c - 48"

text \<open>White space as \<open>int\<close> strips it, for code points below 256.\<close>

definition is_space :: "char \<Rightarrow> bool" where
  "is_space c \<longleftrightarrow> (let n = of_char c :: nat in
     (9 \<le> n \<and> n \<le> 13) \<or> (28 \<le> n \<and> n \<le> 32) \<or> n = 133 \<or> n = 160)"

definition strip :: "string \<Rightarrow> string" where
  "strip s = rev (dropWhile is_space (rev (dropWhile is_space s)))"

text \<open>Digits with single underscores between them; the flag says whether a digit came just before.\<close>

fun digits_value :: "nat \<Rightarrow> bool \<Rightarrow> string \<Rightarrow> nat option" where
  "digits_value acc after [] = (if after then Some acc else None)"
| "digits_value acc after (c # cs) =
     (if is_ascii_digit c then digits_value (acc * 10 + digit_value c) True cs
      else if c = CHR ''_'' \<and> after then digits_value acc False cs
      else None)"

text \<open>\<open>int(text)\<close>; \<open>None\<close> is \<open>ValueError\<close>.\<close>

definition py_int :: "string \<Rightarrow> int option" where
  "py_int s = (case strip s of
      [] \<Rightarrow> None
    | c # cs \<Rightarrow>
        if c = CHR ''-'' then map_option (\<lambda>n. - int n) (digits_value 0 False cs)
        else if c = CHR ''+'' then map_option int (digits_value 0 False cs)
        else map_option int (digits_value 0 False (c # cs)))"

text \<open>
  \<open>str.isdigit\<close>: every character a digit and at least one. Besides the ASCII digits, the
  superscripts one, two and three (code points 185, 178 and 179) count, which \<open>int\<close> refuses.
\<close>

definition py_isdigit :: "string \<Rightarrow> bool" where
  "py_isdigit s \<longleftrightarrow> s \<noteq> [] \<and>
     (\<forall>c \<in> set s. is_ascii_digit c \<or> (of_char c :: nat) \<in> {178, 179, 185})"

section \<open>Printing and parsing\<close>

lemma of_char_digit [simp]: "d < 10 \<Longrightarrow> (of_char (digit_char d) :: nat) = 48 + d"
  by (simp add: digit_char_def)

lemma digit_char_simps [simp]:
  "d < 10 \<Longrightarrow> is_ascii_digit (digit_char d)"
  "d < 10 \<Longrightarrow> digit_value (digit_char d) = d"
  by (simp_all add: is_ascii_digit_def digit_value_def)

lemma nat_text_digits: "\<forall>c \<in> set (nat_text n). is_ascii_digit c"
  by (induction n rule: nat_text.induct) (subst nat_text.simps, auto)

lemma nat_text_not_Nil [simp]: "nat_text n \<noteq> []"
  by (subst nat_text.simps) simp

lemma digits_value_append:
  "\<forall>c \<in> set xs. is_ascii_digit c \<Longrightarrow> xs \<noteq> [] \<Longrightarrow>
   digits_value acc b (xs @ ys) = digits_value (foldl (\<lambda>a c. a * 10 + digit_value c) acc xs) True ys"
proof (induction xs arbitrary: acc b)
  case (Cons c xs)
  then show ?case by (cases "xs = []") simp_all
qed simp

lemma foldl_nat_text: "foldl (\<lambda>a c. a * 10 + digit_value c) 0 (nat_text n) = n"
proof (induction n rule: nat_text.induct)
  case (1 n)
  show ?case
  proof (cases "n < 10")
    case True
    then show ?thesis by (subst nat_text.simps) simp
  next
    case False
    with 1 show ?thesis by (subst nat_text.simps) simp
  qed
qed

lemma foldl_zeros: "foldl (\<lambda>a c. a * 10 + digit_value c) 0 (replicate k (CHR ''0'')) = 0"
  by (induction k) (auto simp: digit_value_def)

lemma zero_pad_digits: "\<forall>c \<in> set (zero_pad w (nat_text n)). is_ascii_digit c"
  using nat_text_digits [of n] by (auto simp: zero_pad_def is_ascii_digit_def)

lemma zero_pad_not_Nil [simp]: "zero_pad w (nat_text n) \<noteq> []"
  by (simp add: zero_pad_def)

lemma digits_value_zero_pad: "digits_value 0 b (zero_pad w (nat_text n)) = Some n"
proof -
  have "digits_value 0 b (zero_pad w (nat_text n) @ [])
      = Some (foldl (\<lambda>a c. a * 10 + digit_value c) 0 (zero_pad w (nat_text n)))"
    by (subst digits_value_append) (auto simp: zero_pad_digits)
  then show ?thesis by (simp add: zero_pad_def foldl_zeros foldl_nat_text)
qed

lemma digit_not_special:
  "is_ascii_digit c \<Longrightarrow> \<not> is_space c \<and> c \<noteq> CHR ''-'' \<and> c \<noteq> CHR ''+'' \<and> c \<noteq> CHR ''_''"
  by (auto simp: is_ascii_digit_def is_space_def Let_def)

lemma strip_id:
  assumes "s \<noteq> []" "\<not> is_space (hd s)" "\<not> is_space (last s)"
  shows "strip s = s"
proof -
  have "dropWhile is_space s = s" using assms by (cases s) auto
  moreover have "dropWhile is_space (rev s) = rev s"
    using assms by (cases s rule: rev_cases) auto
  ultimately show ?thesis by (simp add: strip_def)
qed

lemma py_int_nat_text: "py_int (zero_pad w (nat_text n)) = Some (int n)"
proof -
  let ?s = "zero_pad w (nat_text n)"
  have dig: "is_ascii_digit (hd ?s)" "is_ascii_digit (last ?s)"
    using zero_pad_digits [of w n] by auto
  then have "strip ?s = ?s" by (intro strip_id) (auto dest: digit_not_special)
  moreover obtain c cs where "?s = c # cs" by (cases ?s) auto
  moreover have "c \<noteq> CHR ''-''" "c \<noteq> CHR ''+''"
    using dig(1) \<open>?s = c # cs\<close> digit_not_special by auto
  ultimately show ?thesis using digits_value_zero_pad [of False w n] by (simp add: py_int_def)
qed

lemma py_int_negative: "py_int (CHR ''-'' # zero_pad w (nat_text n)) = Some (- int n)"
proof -
  let ?s = "zero_pad w (nat_text n)"
  have "is_ascii_digit (last ?s)" using zero_pad_digits [of w n] by auto
  then have "strip (CHR ''-'' # ?s) = CHR ''-'' # ?s"
    by (intro strip_id) (auto dest: digit_not_special simp: is_space_def)
  then show ?thesis by (simp add: py_int_def digits_value_zero_pad)
qed

text \<open>A formatted base offset is parsed back, so different offsets have different file names.\<close>

lemma py_int_fmt020 [simp]: "py_int (fmt020 n) = Some n"
  by (simp add: fmt020_def py_int_nat_text py_int_negative)

lemma fmt020_inj [simp]: "fmt020 m = fmt020 n \<longleftrightarrow> m = n"
  by (metis py_int_fmt020 option.inject)

lemma zero_pad_0 [simp]: "zero_pad 0 s = s"
  by (simp add: zero_pad_def)

lemma py_int_int_text [simp]: "py_int (int_text n) = Some n"
  using py_int_nat_text [of 0] py_int_negative [of 0] by (auto simp: int_text_def)

lemma int_text_inj [simp]: "int_text m = int_text n \<longleftrightarrow> m = n"
  by (metis py_int_int_text option.inject)

lemma py_isdigit_int_text: "0 \<le> n \<Longrightarrow> py_isdigit (int_text n)"
  using nat_text_digits by (auto simp: int_text_def py_isdigit_def)

section \<open>UTF-8\<close>

definition utf8_char :: "char \<Rightarrow> bytes" where
  "utf8_char c = (let n = of_char c :: nat in
     if n < 128 then [of_nat n] else [of_nat (192 + n div 64), of_nat (128 + n mod 64)])"

definition utf8 :: "string \<Rightarrow> bytes" where
  "utf8 s = concat (map utf8_char s)"

end
