(* ===== verification/Files.thy ===== *)
theory Files
  imports Py_Text
begin

text \<open>
  The part of a file system that one partition directory is: named files, each with its contents,
  the length that is known to be on the platter (moved by \<open>fsync\<close>), and whether the device fails
  when asked to sync it. A power cut keeps at least the synced prefix and at most what was written.
\<close>

record pfile =
  fl_data :: bytes
  fl_synced :: nat
  fl_broken :: bool

type_synonym dir = "(string \<times> pfile) list"

definition empty_file :: pfile where
  "empty_file = \<lparr>fl_data = [], fl_synced = 0, fl_broken = False\<rparr>"

definition file_exists :: "string \<Rightarrow> dir \<Rightarrow> bool" where
  "file_exists p d \<longleftrightarrow> map_of d p \<noteq> None"

definition touch :: "string \<Rightarrow> dir \<Rightarrow> dir" where
  "touch p d = (case map_of d p of None \<Rightarrow> al_set p empty_file d | Some _ \<Rightarrow> d)"

definition update_file :: "string \<Rightarrow> (pfile \<Rightarrow> pfile) \<Rightarrow> dir \<Rightarrow> dir" where
  "update_file p g d = (case map_of d p of None \<Rightarrow> d | Some f \<Rightarrow> al_set p (g f) d)"

definition write_end :: "string \<Rightarrow> bytes \<Rightarrow> dir \<Rightarrow> dir" where
  "write_end p bs d = update_file p (\<lambda>f. f\<lparr>fl_data := fl_data f @ bs\<rparr>) d"

definition os_truncate :: "string \<Rightarrow> nat \<Rightarrow> dir \<Rightarrow> dir" where
  "os_truncate p n d = update_file p
     (\<lambda>f. f\<lparr>fl_data := take n (fl_data f), fl_synced := min n (fl_synced f)\<rparr>) d"

text \<open>The contents of a file; \<open>[]\<close> for a file that is not there, which every reader checks first.\<close>

definition file_data :: "string \<Rightarrow> dir \<Rightarrow> bytes" where
  "file_data p d = (case map_of d p of None \<Rightarrow> [] | Some f \<Rightarrow> fl_data f)"

definition fsync :: "string \<Rightarrow> dir \<Rightarrow> unit result \<times> dir" where
  "fsync p d = (case map_of d p of
      None \<Rightarrow> (Inl OSError, d)
    | Some f \<Rightarrow> if fl_broken f then (Inl OSError, d)
                else (Inr (), al_set p (f\<lparr>fl_synced := length (fl_data f)\<rparr>) d))"

text \<open>What a power cut may leave of a file, and of a directory of files.\<close>

definition survives :: "pfile \<Rightarrow> pfile \<Rightarrow> bool" where
  "survives f g \<longleftrightarrow> (\<exists>n. fl_synced f \<le> n \<and> n \<le> length (fl_data f) \<and>
     g = f\<lparr>fl_data := take n (fl_data f), fl_synced := n\<rparr>)"

definition power_cut :: "dir \<Rightarrow> dir \<Rightarrow> bool" where
  "power_cut d d' \<longleftrightarrow> map fst d' = map fst d \<and> list_all2 survives (map snd d) (map snd d')"

section \<open>Reading back\<close>

lemma file_existsE: "file_exists p d \<Longrightarrow> (\<And>f. map_of d p = Some f \<Longrightarrow> thesis) \<Longrightarrow> thesis"
  by (auto simp: file_exists_def)

lemma map_of_touch: "map_of (touch p d) = (case map_of d p of None \<Rightarrow> (map_of d)(p \<mapsto> empty_file) | Some _ \<Rightarrow> map_of d)"
  by (simp add: touch_def split: option.splits)

lemma map_of_update_file: "map_of (update_file p g d) = (map_of d)(p := map_option g (map_of d p))"
  by (auto simp: update_file_def split: option.splits)

lemma file_data_touch [simp]: "file_data q (touch p d) = file_data q d"
  by (simp add: file_data_def map_of_touch empty_file_def split: option.splits)

lemma file_data_write_end [simp]:
  "file_data q (write_end p bs d) =
     (if q = p \<and> file_exists p d then file_data p d @ bs else file_data q d)"
  by (auto simp: file_exists_def file_data_def write_end_def map_of_update_file split: option.splits)

lemma file_data_os_truncate [simp]:
  "file_data q (os_truncate p n d) = (if q = p then take n (file_data p d) else file_data q d)"
  by (auto simp: file_data_def os_truncate_def map_of_update_file split: option.splits)

lemma file_data_fsync [simp]: "file_data q (snd (fsync p d)) = file_data q d"
  by (auto simp: file_data_def fsync_def split: option.splits)

text \<open>An operation on one file leaves every other file as it was.\<close>

lemma dir_ops_other [simp]:
  "q \<noteq> p \<Longrightarrow> map_of (touch p d) q = map_of d q"
  "q \<noteq> p \<Longrightarrow> map_of (write_end p bs d) q = map_of d q"
  "q \<noteq> p \<Longrightarrow> map_of (os_truncate p n d) q = map_of d q"
  "q \<noteq> p \<Longrightarrow> map_of (snd (fsync p d)) q = map_of d q"
  by (auto simp: map_of_touch write_end_def os_truncate_def map_of_update_file fsync_def
      split: option.splits)

text \<open>
  No device fails: every \<open>fsync\<close> of a file that exists succeeds. And no more of a file is on the
  platter than was written to it.
\<close>

definition healthy :: "dir \<Rightarrow> bool" where
  "healthy d \<longleftrightarrow> (\<forall>(q, f) \<in> set d. \<not> fl_broken f \<and> fl_synced f \<le> length (fl_data f))"

lemma healthyD: "healthy d \<Longrightarrow> map_of d q = Some f \<Longrightarrow> \<not> fl_broken f \<and> fl_synced f \<le> length (fl_data f)"
  by (auto simp: healthy_def dest: map_of_SomeD)

lemma healthy_al_set:
  "healthy d \<Longrightarrow> \<not> fl_broken f \<Longrightarrow> fl_synced f \<le> length (fl_data f) \<Longrightarrow> healthy (al_set q f d)"
  by (induction d) (auto simp: healthy_def split: if_split_asm)

text \<open>A power cut is always possible: it may take all that was not synced.\<close>

lemma power_cut_exists:
  "healthy d \<Longrightarrow> power_cut d (map (\<lambda>(q, f). (q, f\<lparr>fl_data := take (fl_synced f) (fl_data f)\<rparr>)) d)"
  by (auto simp: healthy_def power_cut_def list_all2_map1 list_all2_map2 list_all2_same survives_def case_prod_beta
      intro!: exI [of _ "fl_synced _"])

text \<open>
  \<open>only_touches ps d d'\<close>: every file but those of \<open>ps\<close> is as it was, and none is gone, and names
  stay distinct and devices as healthy as they were.
\<close>

definition only_touches :: "string set \<Rightarrow> dir \<Rightarrow> dir \<Rightarrow> bool" where
  "only_touches ps d d' \<longleftrightarrow> (\<forall>q. q \<notin> ps \<longrightarrow> map_of d' q = map_of d q)
     \<and> (\<forall>q. file_exists q d \<longrightarrow> file_exists q d')
     \<and> (distinct (map fst d) \<longrightarrow> distinct (map fst d')) \<and> (healthy d \<longrightarrow> healthy d')"

lemma only_touches_refl [simp]: "only_touches ps d d"
  by (simp add: only_touches_def)

lemma only_touches_trans [trans]:
  "only_touches ps d d' \<Longrightarrow> only_touches ps d' d'' \<Longrightarrow> only_touches ps d d''"
  unfolding only_touches_def by metis

lemma only_touches_mono: "only_touches ps d d' \<Longrightarrow> ps \<subseteq> qs \<Longrightarrow> only_touches qs d d'"
  unfolding only_touches_def by blast

lemma only_touches_exists: "only_touches ps d d' \<Longrightarrow> file_exists q d \<Longrightarrow> file_exists q d'"
  unfolding only_touches_def by blast

lemma dir_ops_keep:
  "file_exists q d \<Longrightarrow> file_exists q (touch p d)"
  "file_exists q d \<Longrightarrow> file_exists q (write_end p bs d)"
  "file_exists q d \<Longrightarrow> file_exists q (os_truncate p n d)"
  "file_exists q d \<Longrightarrow> file_exists q (snd (fsync p d))"
  by (auto simp: file_exists_def map_of_touch write_end_def os_truncate_def map_of_update_file fsync_def
      split: option.splits)

lemma touch_exists [simp]: "file_exists p (touch p d)"
  by (auto simp: file_exists_def map_of_touch split: option.splits)

lemma dir_ops_distinct:
  assumes "distinct (map fst d)"
  shows "distinct (map fst (touch p d))" "distinct (map fst (write_end p bs d))"
    "distinct (map fst (os_truncate p n d))" "distinct (map fst (snd (fsync p d)))"
  using assms by (auto simp: touch_def write_end_def os_truncate_def update_file_def fsync_def
      split: option.splits)

lemma dir_ops_healthy:
  assumes "healthy d"
  shows "healthy (touch p d)" "healthy (write_end p bs d)" "healthy (os_truncate p n d)"
    "healthy (snd (fsync p d))"
  using assms by (auto simp: touch_def write_end_def os_truncate_def update_file_def fsync_def empty_file_def
      intro!: healthy_al_set split: option.splits dest: healthyD)

lemma fsync_healthy:
  "healthy d \<Longrightarrow> file_exists p d \<Longrightarrow> \<exists>d'. fsync p d = (Inr (), d')"
  by (auto simp: file_exists_def fsync_def split: option.splits dest: healthyD)

lemma only_touches_ops:
  assumes "p \<in> ps"
  shows "only_touches ps d (touch p d)" "only_touches ps d (write_end p bs d)"
    "only_touches ps d (os_truncate p n d)" "only_touches ps d (snd (fsync p d))"
  using assms dir_ops_keep [of _ d p] dir_ops_distinct [of d p] dir_ops_healthy [of d p]
  unfolding only_touches_def by (metis dir_ops_other)+

lemma file_data_other: "only_touches ps d d' \<Longrightarrow> q \<notin> ps \<Longrightarrow> file_data q d' = file_data q d"
  by (simp add: only_touches_def file_data_def)

section \<open>Durability\<close>

text \<open>How much of a file a power cut cannot take.\<close>

definition synced_len :: "string \<Rightarrow> dir \<Rightarrow> nat" where
  "synced_len p d = (case map_of d p of None \<Rightarrow> 0 | Some f \<Rightarrow> fl_synced f)"

lemma synced_len_ops [simp]:
  "synced_len q (write_end p bs d) = synced_len q d"
  "synced_len q (touch p d) = synced_len q d"
  by (auto simp: synced_len_def write_end_def touch_def update_file_def empty_file_def split: option.splits)

lemma fsync_synced:
  assumes "fsync p d = (Inr u, d')"
  shows "synced_len p d' = length (file_data p d')" "q \<noteq> p \<Longrightarrow> synced_len q d' = synced_len q d"
  using assms by (auto simp: fsync_def synced_len_def file_data_def split: option.splits if_split_asm)

lemma fsync_synced_other: "q \<noteq> p \<Longrightarrow> synced_len q (snd (fsync p d)) = synced_len q d"
  by (auto simp: fsync_def synced_len_def split: option.splits)

lemma synced_len_other: "only_touches ps d d' \<Longrightarrow> q \<notin> ps \<Longrightarrow> synced_len q d' = synced_len q d"
  by (simp add: only_touches_def synced_len_def)

lemma power_cut_lookup:
  assumes "power_cut d d'"
  shows "(map_of d p = None \<and> map_of d' p = None)
    \<or> (\<exists>f g. map_of d p = Some f \<and> map_of d' p = Some g \<and> survives f g)"
proof -
  have "length d = length d'" using assms by (metis power_cut_def length_map)
  then show ?thesis using assms unfolding power_cut_def
    by (induction d d' rule: list_induct2) auto
qed

text \<open>What is left of a file is a prefix of it that keeps what was synced.\<close>

lemma power_cut_prefix:
  assumes "power_cut d d'"
  obtains n where "file_data p d' = take n (file_data p d)" "file_exists p d' = file_exists p d"
    "min (synced_len p d) (length (file_data p d)) \<le> length (file_data p d')"
  using power_cut_lookup [OF assms, of p]
  by (auto simp: survives_def file_data_def file_exists_def synced_len_def intro: that [of 0])

lemma power_cut_file_names: "power_cut d d' \<Longrightarrow> map fst d' = map fst d"
  by (simp add: power_cut_def)

end
