(* ===== verification/Bisect.thy ===== *)
theory Bisect
  imports Prelude
begin

text \<open>
  \<open>bisect.bisect_right\<close> as the library's loop does it: halve \<open>[lo, hi)\<close> until it is empty. On a
  sorted list it counts the elements that are not above the key, which is what the index, the chain
  of segments and the ring use it for.
\<close>

function bisect_loop :: "'a::linorder list \<Rightarrow> 'a \<Rightarrow> nat \<Rightarrow> nat \<Rightarrow> nat" where
  "bisect_loop a x lo hi =
     (if lo < hi
      then let mid = (lo + hi) div 2
           in if x < a ! mid then bisect_loop a x lo mid else bisect_loop a x (Suc mid) hi
      else lo)"
  by pat_completeness auto
termination
  by (relation "measure (\<lambda>(a, x, lo, hi). hi - lo)") auto

declare bisect_loop.simps [simp del]

definition bisect_right :: "'a::linorder list \<Rightarrow> 'a \<Rightarrow> nat" where
  "bisect_right a x = bisect_loop a x 0 (length a)"

lemma bisect_loop_bounds: "lo \<le> hi \<Longrightarrow> lo \<le> bisect_loop a x lo hi \<and> bisect_loop a x lo hi \<le> hi"
proof (induction a x lo hi rule: bisect_loop.induct)
  case (1 a x lo hi)
  show ?case
  proof (cases "lo < hi")
    case True
    let ?m = "(lo + hi) div 2"
    have m: "lo \<le> ?m" "?m < hi" using True by auto
    show ?thesis
    proof (cases "x < a ! ?m")
      case c: True
      from "1.IH"(1) [OF True refl c] m True c show ?thesis
        by (auto simp: bisect_loop.simps [of a x lo hi] Let_def)
    next
      case c: False
      from "1.IH"(2) [OF True refl c] m True c show ?thesis
        by (auto simp: bisect_loop.simps [of a x lo hi] Let_def)
    qed
  next
    case False
    then have "bisect_loop a x lo hi = lo" by (simp add: bisect_loop.simps [of a x lo hi])
    with False "1.prems" show ?thesis by simp
  qed
qed

text \<open>Below the result everything is at most the key, from it on everything is above.\<close>

lemma bisect_loop_split:
  assumes "sorted a" "hi \<le> length a" "lo \<le> hi"
    and "\<forall>i < lo. a ! i \<le> x" "\<forall>i. hi \<le> i \<longrightarrow> i < length a \<longrightarrow> x < a ! i"
  shows "(\<forall>i < bisect_loop a x lo hi. a ! i \<le> x)
    \<and> (\<forall>i. bisect_loop a x lo hi \<le> i \<longrightarrow> i < length a \<longrightarrow> x < a ! i)"
  using assms
proof (induction a x lo hi rule: bisect_loop.induct)
  case (1 a x lo hi)
  show ?case
  proof (cases "lo < hi")
    case True
    let ?m = "(lo + hi) div 2"
    have m: "lo \<le> ?m" "?m < hi" "?m < length a" using True "1.prems"(2) by auto
    show ?thesis
    proof (cases "x < a ! ?m")
      case c: True
      have "\<forall>i. ?m \<le> i \<longrightarrow> i < length a \<longrightarrow> x < a ! i"
        using c sorted_nth_mono [OF "1.prems"(1)] by (meson less_le_trans)
      with "1.IH"(1) [OF True refl c] "1.prems" m True c show ?thesis
        by (auto simp: bisect_loop.simps [of a x lo hi] Let_def)
    next
      case c: False
      have "\<forall>i < Suc ?m. a ! i \<le> x"
        using c m sorted_nth_mono [OF "1.prems"(1)]
        by (metis less_Suc_eq_le linorder_not_less order_trans)
      with "1.IH"(2) [OF True refl c] "1.prems" m True c show ?thesis
        by (auto simp: bisect_loop.simps [of a x lo hi] Let_def)
    qed
  next
    case False
    then have "bisect_loop a x lo hi = lo" by (simp add: bisect_loop.simps [of a x lo hi])
    with False "1.prems" show ?thesis by simp
  qed
qed

lemma bisect_right_le: "bisect_right a x \<le> length a"
  using bisect_loop_bounds [of 0 "length a" a x] by (simp add: bisect_right_def)

lemma bisect_right_below: "sorted a \<Longrightarrow> i < bisect_right a x \<Longrightarrow> a ! i \<le> x"
  using bisect_loop_split [of a "length a" 0 x] by (simp add: bisect_right_def)

lemma bisect_right_above: "sorted a \<Longrightarrow> bisect_right a x \<le> i \<Longrightarrow> i < length a \<Longrightarrow> x < a ! i"
  using bisect_loop_split [of a "length a" 0 x] by (simp add: bisect_right_def)

text \<open>The reference: the number of elements at most the key; they are the first ones.\<close>

lemma bisect_right_unique:
  assumes "sorted a" "n \<le> length a" "\<forall>i < n. a ! i \<le> x" "\<forall>i. n \<le> i \<longrightarrow> i < length a \<longrightarrow> x < a ! i"
  shows "bisect_right a x = n"
proof (rule ccontr)
  assume "bisect_right a x \<noteq> n"
  then consider "bisect_right a x < n" | "n < bisect_right a x" by arith
  then show False
  proof cases
    case 1
    with assms bisect_right_above [OF assms(1), of x "bisect_right a x"] show False
      by (metis less_le_trans linorder_not_less order_refl)
  next
    case 2
    with assms bisect_right_below [OF assms(1), of n x] bisect_right_le [of a x] show False
      by (metis less_le_trans linorder_not_less order_refl)
  qed
qed

lemma bisect_right_filter:
  assumes "sorted a"
  shows "bisect_right a x = length (filter (\<lambda>y. y \<le> x) a)"
proof -
  let ?n = "bisect_right a x"
  have "filter (\<lambda>y. y \<le> x) a = filter (\<lambda>y. y \<le> x) (take ?n a) @ filter (\<lambda>y. y \<le> x) (drop ?n a)"
    by (metis append_take_drop_id filter_append)
  moreover have "filter (\<lambda>y. y \<le> x) (take ?n a) = take ?n a"
    using bisect_right_below [OF assms] by (intro filter_True) (auto simp: in_set_conv_nth)
  moreover have "filter (\<lambda>y. y \<le> x) (drop ?n a) = []"
  proof (intro filter_False ballI)
    fix y assume "y \<in> set (drop ?n a)"
    then obtain j where "j < length (drop ?n a)" "y = drop ?n a ! j"
      by (auto simp: in_set_conv_nth)
    then have "x < y" using bisect_right_above [OF assms, of x "?n + j"] by simp
    then show "\<not> y \<le> x" by simp
  qed
  ultimately show ?thesis using bisect_right_le [of a x] by simp
qed

end
