(* ===== verification/Log_Index.thy ===== *)
theory Log_Index
  imports Bytes Files Bisect
begin

text \<open>
  \<open>storage/index.py\<close>: the sparse map from logical offsets to byte positions, an array of pairs of
  u32 in a file. Entries are kept in memory as well; \<open>ix_buffer\<close> is what was written to the file
  object and not flushed. The lemmas show that \<open>maybe_append\<close> keeps exactly the entries the sparsity
  rule asks for, that \<open>lookup\<close> is the floor search, and that the file reads back.
\<close>

section \<open>State and operations\<close>

definition ENTRY_SIZE :: nat where "ENTRY_SIZE = 8"

record index =
  ix_path :: string
  ix_base :: offset
  ix_interval :: int
  ix_entries :: "(int \<times> position) list"
  ix_buffer :: bytes
  ix_closed :: bool

definition pack_entry :: "int \<times> position \<Rightarrow> bytes" where
  "pack_entry e = be_bytes 4 (fst e) @ be_bytes 4 (int (snd e))"

definition pack_entries :: "(int \<times> position) list \<Rightarrow> bytes" where
  "pack_entries es = concat (map pack_entry es)"

text \<open>\<open>struct.iter_unpack\<close> on a buffer whose length is a multiple of the entry size.\<close>

function unpack_entries :: "bytes \<Rightarrow> (int \<times> position) list" where
  "unpack_entries bs =
     (if length bs < ENTRY_SIZE then []
      else (get_I (py_slice 0 4 bs), nat (get_I (py_slice 4 8 bs)))
        # unpack_entries (drop ENTRY_SIZE bs))"
  by pat_completeness auto
termination
  by (relation "measure length") (auto simp: ENTRY_SIZE_def)

declare unpack_entries.simps [simp del]

definition index_init :: "string \<Rightarrow> offset \<Rightarrow> int \<Rightarrow> dir \<Rightarrow> index \<times> dir" where
  "index_init path base interval d =
     (let d1 = touch path d;
          index_bytes = file_data path d1;
          excess = length index_bytes mod ENTRY_SIZE;
          last_full = length index_bytes - excess;
          d2 = (if excess \<noteq> 0 then os_truncate path last_full d1 else d1);
          index_bytes2 = (if excess \<noteq> 0 then take last_full index_bytes else index_bytes)
      in (\<lparr>ix_path = path, ix_base = base, ix_interval = interval,
           ix_entries = unpack_entries index_bytes2, ix_buffer = [], ix_closed = False\<rparr>, d2))"

definition last_position :: "index \<Rightarrow> position" where
  "last_position ix = (if ix_entries ix \<noteq> [] then snd (last (ix_entries ix)) else 0)"

definition maybe_append :: "index \<Rightarrow> offset \<Rightarrow> position \<Rightarrow> unit result \<times> index" where
  "maybe_append ix offset pos =
     (if int pos - int (last_position ix) < ix_interval ix then (Inr (), ix)
      else
      let relative = offset - ix_base ix
      in
      if \<not> (0 \<le> relative \<and> relative \<le> MAX_U32) then (Inl ValueError, ix)
      else if \<not> (0 \<le> int pos \<and> int pos \<le> MAX_U32) then (Inl ValueError, ix)
      else if ix_entries ix \<noteq> [] \<and> relative \<le> fst (last (ix_entries ix)) then (Inl ValueError, ix)
      else (Inr (), ix\<lparr>ix_buffer := ix_buffer ix @ pack_entry (relative, pos),
                       ix_entries := ix_entries ix @ [(relative, pos)]\<rparr>))"

definition lookup :: "index \<Rightarrow> offset \<Rightarrow> offset \<times> position" where
  "lookup ix offset =
     (let relative = offset - ix_base ix;
          i = int (bisect_right (map fst (ix_entries ix)) relative) - 1
      in
      if i < 0 then (ix_base ix, 0)
      else let (rel_off, pos) = ix_entries ix ! nat i
           in (ix_base ix + rel_off, pos))"

definition index_flush :: "index \<Rightarrow> dir \<Rightarrow> index \<times> dir" where
  "index_flush ix d = (ix\<lparr>ix_buffer := []\<rparr>, write_end (ix_path ix) (ix_buffer ix) d)"

definition index_clear :: "index \<Rightarrow> dir \<Rightarrow> index \<times> dir" where
  "index_clear ix d =
     (let (ix1, d1) = index_flush (ix\<lparr>ix_entries := []\<rparr>) d
      in (ix1, os_truncate (ix_path ix1) 0 d1))"

definition last_entry :: "index \<Rightarrow> (offset \<times> position) option" where
  "last_entry ix =
     (if ix_entries ix = [] then None
      else let (rel_off, pos) = last (ix_entries ix) in Some (ix_base ix + rel_off, pos))"

definition index_sync :: "index \<Rightarrow> dir \<Rightarrow> unit result \<times> index \<times> dir" where
  "index_sync ix d =
     (if ix_closed ix then (Inl ValueError, ix, d)
      else let (ix1, d1) = index_flush ix d;
               (res, d2) = fsync (ix_path ix1) d1
           in (res, ix1, d2))"

definition index_close :: "index \<Rightarrow> dir \<Rightarrow> unit result \<times> index \<times> dir" where
  "index_close ix d =
     (if ix_closed ix then (Inr (), ix, d)
      else case index_sync ix d of
          (Inl e, ix1, d1) \<Rightarrow> (Inl e, ix1, d1)
        | (Inr u, ix1, d1) \<Rightarrow> (Inr (), ix1\<lparr>ix_closed := True\<rparr>, d1))"

definition index_len :: "index \<Rightarrow> nat" where
  "index_len ix = length (ix_entries ix)"

section \<open>The sparsity rule\<close>

text \<open>
  The reference: of a list of record starts, the first that is at least \<open>iv\<close> bytes after the last
  one kept (the start of the file to begin with) is kept.
\<close>

fun sparse_from :: "int \<Rightarrow> position \<Rightarrow> (int \<times> position) list \<Rightarrow> (int \<times> position) list" where
  "sparse_from iv lst [] = []"
| "sparse_from iv lst ((r, p) # xs) =
     (if int p - int lst < iv then sparse_from iv lst xs else (r, p) # sparse_from iv p xs)"

abbreviation sparse :: "int \<Rightarrow> (int \<times> position) list \<Rightarrow> (int \<times> position) list" where
  "sparse iv \<equiv> sparse_from iv 0"

lemma sparse_from_snoc:
  "sparse_from iv lst (xs @ [(r, p)]) =
     sparse_from iv lst xs @
     (if int p - int (if sparse_from iv lst xs = [] then lst else snd (last (sparse_from iv lst xs))) < iv
      then [] else [(r, p)])"
  by (induction iv lst xs rule: sparse_from.induct) auto

lemma sparse_from_subseq: "set (sparse_from iv lst xs) \<subseteq> set xs"
  by (induction iv lst xs rule: sparse_from.induct) auto

lemma sorted_sparse_from: "sorted (map fst xs) \<Longrightarrow> sorted (map fst (sparse_from iv lst xs))"
proof (induction iv lst xs rule: sparse_from.induct)
  case (2 iv lst r p xs)
  then show ?case using sparse_from_subseq [of iv p xs] by (auto simp: subset_iff)
qed simp

lemma distinct_sparse_from: "distinct (map fst xs) \<Longrightarrow> distinct (map fst (sparse_from iv lst xs))"
proof (induction iv lst xs rule: sparse_from.induct)
  case (2 iv lst r p xs)
  then show ?case using sparse_from_subseq [of iv p xs] by (auto simp: subset_iff)
qed simp

text \<open>Two neighbouring entries, and the first and the start of the file, are an interval apart.\<close>

lemma sparse_from_gap:
  "i < length (sparse_from iv lst xs) \<Longrightarrow>
   iv \<le> int (snd (sparse_from iv lst xs ! i))
     - int (if i = 0 then lst else snd (sparse_from iv lst xs ! (i - 1)))"
proof (induction iv lst xs arbitrary: i rule: sparse_from.induct)
  case (2 iv lst r p xs)
  show ?case
  proof (cases "int p - int lst < iv")
    case True
    with "2.prems" "2.IH"(1) [OF True, of i] show ?thesis by (auto split: if_split_asm)
  next
    case False
    show ?thesis
    proof (cases i)
      case 0
      with False show ?thesis by simp
    next
      case (Suc j)
      with False "2.prems" "2.IH"(2) [OF False, of j] show ?thesis by (cases j) simp_all
    qed
  qed
qed simp

text \<open>
  \<open>indexes ix xs\<close>: the index holds what the rule keeps of the record starts \<open>xs\<close> (relative offsets
  and positions), and its file with what is still in the buffer is the packed entries.
\<close>

definition indexes :: "index \<Rightarrow> (int \<times> position) list \<Rightarrow> bool" where
  "indexes ix xs \<longleftrightarrow> ix_entries ix = sparse (ix_interval ix) xs"

definition index_file_ok :: "index \<Rightarrow> dir \<Rightarrow> bool" where
  "index_file_ok ix d \<longleftrightarrow> file_exists (ix_path ix) d
     \<and> file_data (ix_path ix) d @ ix_buffer ix = pack_entries (ix_entries ix)"

definition starts_ok :: "(int \<times> position) list \<Rightarrow> bool" where
  "starts_ok xs \<longleftrightarrow> sorted_wrt (\<lambda>a b. fst a < fst b) xs
     \<and> (\<forall>(r, p) \<in> set xs. 0 \<le> r \<and> r \<le> MAX_U32 \<and> int p \<le> MAX_U32)"

lemma starts_ok_Nil [simp]: "starts_ok []"
  by (simp add: starts_ok_def)

lemma starts_ok_snocD: "starts_ok (xs @ [x]) \<Longrightarrow> starts_ok xs"
  by (auto simp: starts_ok_def sorted_wrt_append)

lemma starts_ok_sorted: "starts_ok xs \<Longrightarrow> sorted (map fst xs)"
  by (auto simp: starts_ok_def sorted_map elim: sorted_wrt_mono_rel [rotated])

text \<open>Fed with the starts of sequential records, \<open>maybe_append\<close> never raises and keeps the rule.\<close>

lemma maybe_append_indexes:
  assumes ix: "indexes ix xs" and ok: "starts_ok (xs @ [(offset - ix_base ix, pos)])"
  shows "\<exists>es. maybe_append ix offset pos =
      (Inr (), ix\<lparr>ix_buffer := ix_buffer ix @ pack_entries es, ix_entries := ix_entries ix @ es\<rparr>)
    \<and> ix_entries ix @ es = sparse (ix_interval ix) (xs @ [(offset - ix_base ix, pos)])"
proof (cases "int pos - int (last_position ix) < ix_interval ix")
  case True
  then have "maybe_append ix offset pos = (Inr (), ix\<lparr>ix_buffer := ix_buffer ix @ pack_entries [],
      ix_entries := ix_entries ix @ []\<rparr>)"
    by (simp add: maybe_append_def pack_entries_def)
  moreover have "ix_entries ix @ [] = sparse (ix_interval ix) (xs @ [(offset - ix_base ix, pos)])"
    using True ix by (auto simp: indexes_def sparse_from_snoc last_position_def)
  ultimately show ?thesis by blast
next
  case False
  let ?r = "offset - ix_base ix"
  have range: "0 \<le> ?r" "?r \<le> MAX_U32" "int pos \<le> MAX_U32"
    and less: "\<forall>x \<in> set xs. fst x < ?r"
    using ok by (auto simp: starts_ok_def sorted_wrt_append)
  have "fst (last (ix_entries ix)) < ?r" if "ix_entries ix \<noteq> []"
    using less last_in_set [OF that] sparse_from_subseq [of "ix_interval ix" 0 xs] ix
    by (auto simp: indexes_def)
  with False range have "maybe_append ix offset pos = (Inr (), ix\<lparr>ix_buffer := ix_buffer ix
      @ pack_entries [(?r, pos)], ix_entries := ix_entries ix @ [(?r, pos)]\<rparr>)"
    by (auto simp: maybe_append_def pack_entries_def Let_def)
  moreover have "ix_entries ix @ [(?r, pos)] = sparse (ix_interval ix) (xs @ [(?r, pos)])"
    using False ix by (auto simp: indexes_def sparse_from_snoc last_position_def)
  ultimately show ?thesis by blast
qed

lemma pack_entries_append [simp]: "pack_entries (xs @ ys) = pack_entries xs @ pack_entries ys"
  by (simp add: pack_entries_def)

lemma maybe_append_frame:
  "ix_path (snd (maybe_append ix off pos)) = ix_path ix"
  "ix_base (snd (maybe_append ix off pos)) = ix_base ix"
  "ix_interval (snd (maybe_append ix off pos)) = ix_interval ix"
  "ix_closed (snd (maybe_append ix off pos)) = ix_closed ix"
  by (simp_all add: maybe_append_def Let_def)

section \<open>Lookup\<close>

lemma lookup_floor:
  assumes "sorted (map fst (ix_entries ix))"
  shows "(\<exists>r p. (r, p) \<in> set (ix_entries ix) \<and> lookup ix off = (ix_base ix + r, p)
            \<and> ix_base ix + r \<le> off \<and> (\<forall>(r', p') \<in> set (ix_entries ix). ix_base ix + r' \<le> off \<longrightarrow> r' \<le> r))
    \<or> (lookup ix off = (ix_base ix, 0) \<and> (\<forall>(r', p') \<in> set (ix_entries ix). off < ix_base ix + r'))"
proof -
  let ?a = "map fst (ix_entries ix)" and ?x = "off - ix_base ix"
  let ?n = "bisect_right ?a ?x"
  show ?thesis
  proof (cases ?n)
    case 0
    have "off < ix_base ix + fst e" if "e \<in> set (ix_entries ix)" for e
    proof -
      from that obtain i where "i < length (ix_entries ix)" "ix_entries ix ! i = e"
        by (auto simp: in_set_conv_nth)
      with 0 bisect_right_above [OF assms, of ?x i] show ?thesis by simp
    qed
    moreover have "lookup ix off = (ix_base ix, 0)" using 0 by (simp add: lookup_def)
    ultimately show ?thesis by (intro disjI2) auto
  next
    case (Suc k)
    then have k: "k < length (ix_entries ix)" using bisect_right_le [of ?a ?x] by simp
    obtain r p where e: "ix_entries ix ! k = (r, p)" by (cases "ix_entries ix ! k")
    have "r \<le> ?x" using bisect_right_below [OF assms, of k ?x] Suc k e by simp
    moreover have "lookup ix off = (ix_base ix + r, p)" using Suc e by (simp add: lookup_def)
    moreover have "r' \<le> r" if in_es: "(r', p') \<in> set (ix_entries ix)" and le: "ix_base ix + r' \<le> off" for r' p'
    proof -
      from in_es obtain j where j: "j < length (ix_entries ix)" "ix_entries ix ! j = (r', p')"
        by (auto simp: in_set_conv_nth)
      have "j < Suc k" using bisect_right_above [OF assms, of ?x j] j le Suc by force
      then show ?thesis using sorted_nth_mono [OF assms, of j k] j k e by simp
    qed
    ultimately show ?thesis using nth_mem [OF k] e by fastforce
  qed
qed

section \<open>The file reads back\<close>

lemma length_pack_entry [simp]: "length (pack_entry e) = ENTRY_SIZE"
  by (simp add: pack_entry_def ENTRY_SIZE_def)

lemma length_pack_entries [simp]: "length (pack_entries es) = ENTRY_SIZE * length es"
  by (induction es) (auto simp: pack_entries_def)

lemma unpack_pack_entries:
  assumes "\<forall>(r, p) \<in> set es. in_u32 r \<and> in_u32 (int p)" "length rest < ENTRY_SIZE"
  shows "unpack_entries (pack_entries es @ rest) = es"
  using assms(1)
proof (induction es)
  case Nil
  show ?case using assms(2) by (subst unpack_entries.simps) (simp add: pack_entries_def)
next
  case (Cons e es)
  obtain r p where e: "e = (r, p)" by (cases e)
  have split: "pack_entries (e # es) @ rest
      = be_bytes 4 r @ be_bytes 4 (int p) @ (pack_entries es @ rest)"
    by (simp add: pack_entries_def pack_entry_def e)
  show ?case unfolding split using Cons
    by (subst unpack_entries.simps) (simp add: ENTRY_SIZE_def struct_eqs e)
qed

text \<open>
  Opening an index file that holds packed entries and a torn last one gives back the entries and
  cuts the file to them.
\<close>

lemma index_init_reads_back:
  assumes "\<forall>(r, p) \<in> set es. in_u32 r \<and> in_u32 (int p)" "length rest < ENTRY_SIZE"
    and "file_data path d = pack_entries es @ rest"
  shows "ix_entries (fst (index_init path base iv d)) = es"
    and "file_data path (snd (index_init path base iv d)) = pack_entries es"
proof -
  have m: "length (pack_entries es @ rest) mod ENTRY_SIZE = length rest"
    using assms(2) by simp
  have "unpack_entries (pack_entries es) = es"
    using unpack_pack_entries [OF assms(1), of "[]"] by (simp add: ENTRY_SIZE_def)
  then show "ix_entries (fst (index_init path base iv d)) = es"
    using m assms(3) by (auto simp: index_init_def Let_def)
  show "file_data path (snd (index_init path base iv d)) = pack_entries es"
    using m assms(3) by (auto simp: index_init_def Let_def)
qed

lemma index_init_fields:
  "ix_path (fst (index_init path base iv d)) = path"
  "ix_base (fst (index_init path base iv d)) = base"
  "ix_interval (fst (index_init path base iv d)) = iv"
  "ix_buffer (fst (index_init path base iv d)) = []"
  "ix_closed (fst (index_init path base iv d)) = False"
  by (simp_all add: index_init_def Let_def)

end
