(* ===== verification/Log_Segment.thy ===== *)
theory Log_Segment
  imports Log_Record Log_Index
begin

text \<open>
  \<open>storage/segment.py\<close>: one log file with its index, named by the base offset. \<open>seg_open\<close> is the
  constructor (recovery included), \<open>seg_append\<close>, \<open>seg_sync\<close>, \<open>seg_close\<close>, \<open>seg_read_from\<close> and
  \<open>has_room_for\<close> the methods. The directory is passed and returned: it is where the bytes are.
\<close>

section \<open>State and operations\<close>

record segment =
  sg_base :: offset
  sg_max :: int
  sg_index :: index
  sg_next :: offset
  sg_pos :: position
  sg_closed :: bool

definition log_name :: "offset \<Rightarrow> string" where
  "log_name base = fmt020 base @ ''.log''"

definition index_name :: "offset \<Rightarrow> string" where
  "index_name base = fmt020 base @ ''.index''"

definition INTERVAL_BYTES :: int where
  "INTERVAL_BYTES = 4096"

lemma read_one_shorter: "read_one f = Inr (Some (r, f')) \<Longrightarrow> length f' < length f"
  using read_one_sound [of f r f'] rec_size_ge [of r] by (auto simp: HEADER_SIZE_def)

text \<open>
  The loop of \<open>_recover\<close>: \<open>fsize\<close> is the length of the file, so \<open>f.tell()\<close> is \<open>fsize - length f\<close> when
  \<open>f\<close> is what is left to read.
\<close>

function recover_scan ::
  "index \<Rightarrow> offset \<Rightarrow> position \<Rightarrow> nat \<Rightarrow> bytes \<Rightarrow> (offset \<times> position) result \<times> index" where
  "recover_scan ix next_offset pos fsize f =
     (case read_one f of
        Inl e \<Rightarrow> (Inl e, ix)
      | Inr None \<Rightarrow> (Inr (next_offset, pos), ix)
      | Inr (Some (r, f')) \<Rightarrow>
          if rec_offset r \<noteq> next_offset then (Inl CorruptRecord, ix)
          else (case maybe_append ix (rec_offset r) pos of
              (Inl e, ix') \<Rightarrow> (Inl e, ix')
            | (Inr u, ix') \<Rightarrow> recover_scan ix' (rec_offset r + 1) (fsize - length f') fsize f'))"
  by pat_completeness auto
termination
  by (relation "measure (\<lambda>(ix, n, p, s, f). length f)") (auto dest: read_one_shorter)

declare recover_scan.simps [simp del]

definition recover :: "offset \<Rightarrow> index \<Rightarrow> dir \<Rightarrow> (offset \<times> position) result \<times> index \<times> dir" where
  "recover base ix d =
     (let d1 = touch (log_name base) d;
          (ix1, d2) = index_clear ix d1;
          data = file_data (log_name base) d2
      in case recover_scan ix1 base 0 (length data) data of
          (Inl e, ix2) \<Rightarrow> (Inl e, ix2, d2)
        | (Inr (next_offset, pos), ix2) \<Rightarrow>
            (Inr (next_offset, pos), ix2,
             if pos < length data then os_truncate (log_name base) pos d2 else d2))"

definition seg_open :: "offset \<Rightarrow> int \<Rightarrow> dir \<Rightarrow> segment result \<times> dir" where
  "seg_open base max_bytes d =
     (if \<not> (0 < max_bytes \<and> max_bytes \<le> MAX_U32 + 1) then (Inl ValueError, d)
      else
      let (ix, d1) = index_init (index_name base) base INTERVAL_BYTES d
      in case recover base ix d1 of
          (Inl e, ix1, d2) \<Rightarrow> (Inl e, d2)
        | (Inr (next_offset, pos), ix1, d2) \<Rightarrow>
            (Inr \<lparr>sg_base = base, sg_max = max_bytes, sg_index = ix1, sg_next = next_offset,
                  sg_pos = pos, sg_closed = False\<rparr>, d2))"

definition seg_append :: "segment \<Rightarrow> log_record \<Rightarrow> dir \<Rightarrow> position result \<times> segment \<times> dir" where
  "seg_append s r d =
     (if rec_offset r \<noteq> sg_next s then (Inl ValueError, s, d)
      else
      let pos = sg_pos s;
          expected_end = pos + rec_size r
      in case encode r of
          Inl e \<Rightarrow> (Inl e, s, d)
        | Inr bs \<Rightarrow>
            if sg_closed s then (Inl ValueError, s, d)
            else
            let d1 = write_end (log_name (sg_base s)) bs d;
                end_pos = length (file_data (log_name (sg_base s)) d1)
            in
            if end_pos \<noteq> expected_end then (Inl RuntimeError, s, d1)
            else
            let s1 = s\<lparr>sg_next := sg_next s + 1, sg_pos := end_pos\<rparr>
            in (case maybe_append (sg_index s1) (rec_offset r) pos of
                (Inl e, ix) \<Rightarrow> (Inl e, s1\<lparr>sg_index := ix\<rparr>, d1)
              | (Inr u, ix) \<Rightarrow> (Inr pos, s1\<lparr>sg_index := ix\<rparr>, d1)))"

definition seg_sync :: "segment \<Rightarrow> dir \<Rightarrow> unit result \<times> segment \<times> dir" where
  "seg_sync s d =
     (if sg_closed s then (Inl ValueError, s, d)
      else case fsync (log_name (sg_base s)) d of
          (Inl e, d1) \<Rightarrow> (Inl e, s, d1)
        | (Inr u, d1) \<Rightarrow>
            (case index_sync (sg_index s) d1 of
               (res, ix, d2) \<Rightarrow> (res, s\<lparr>sg_index := ix\<rparr>, d2)))"

definition seg_close :: "segment \<Rightarrow> dir \<Rightarrow> unit result \<times> segment \<times> dir" where
  "seg_close s d =
     (if sg_closed s then (Inr (), s, d)
      else case seg_sync s d of
          (Inl e, s1, d1) \<Rightarrow> (Inl e, s1, d1)
        | (Inr u, s1, d1) \<Rightarrow>
            let s2 = s1\<lparr>sg_closed := True\<rparr>
            in case index_close (sg_index s2) d1 of
                (res, ix, d2) \<Rightarrow> (res, s2\<lparr>sg_index := ix\<rparr>, d2))"

text \<open>
  Reading yields records until the stream ends or an exception ends it: the records yielded before
  and the exception, if any. The argument is the value of \<open>rec\<close> with what is left of the file.
\<close>

type_synonym reading = "log_record list \<times> py_error option"

function read_loop :: "offset \<Rightarrow> (log_record \<times> bytes) option \<Rightarrow> reading" where
  "read_loop off None = ([], None)"
| "read_loop off (Some (r, f)) =
     (let (rs, err) = (case read_one f of Inl e \<Rightarrow> ([], Some e) | Inr cur \<Rightarrow> read_loop off cur)
      in (if off \<le> rec_offset r then r # rs else rs, err))"
  by pat_completeness auto
termination
proof (relation "measure (\<lambda>(off, cur). case cur of None \<Rightarrow> 0 | Some (r, f) \<Rightarrow> Suc (length f))")
  fix off :: offset and r f cur
  assume "read_one f = Inr cur"
  then show "((off, cur), off, Some (r, f))
      \<in> measure (\<lambda>(off, cur). case cur of None \<Rightarrow> 0 | Some (r, f) \<Rightarrow> Suc (length f))"
    by (auto split: option.splits dest: read_one_shorter)
qed simp

definition seg_iter_from :: "segment \<Rightarrow> offset \<Rightarrow> dir \<Rightarrow> reading" where
  "seg_iter_from s off d =
     (let (hint_offset, pos) = lookup (sg_index s) off
      in case map_of d (log_name (sg_base s)) of
        None \<Rightarrow> ([], Some OSError)
      | Some file \<Rightarrow>
          let data = fl_data file;
              first = (case read_one (drop pos data) of
                         Inl e \<Rightarrow> if e = CorruptRecord then Inr None else Inl e
                       | Inr cur \<Rightarrow> Inr cur)
          in (case first of
              Inl e \<Rightarrow> ([], Some e)
            | Inr cur \<Rightarrow>
                let second = (case cur of
                         Some (r, f) \<Rightarrow> if rec_offset r \<noteq> hint_offset then read_one data else Inr cur
                       | None \<Rightarrow> read_one data)
                in (case second of
                   Inl e \<Rightarrow> ([], Some e)
                 | Inr cur' \<Rightarrow> read_loop off cur')))"

definition seg_read_from :: "segment \<Rightarrow> offset \<Rightarrow> dir \<Rightarrow> reading result" where
  "seg_read_from s off d =
     (if off < sg_base s then Inl ValueError else Inr (seg_iter_from s off d))"

definition has_room_for :: "segment \<Rightarrow> log_record \<Rightarrow> bool" where
  "has_room_for s r =
     (if sg_pos s = 0 then True else int (sg_pos s) + int (rec_size r) \<le> sg_max s)"

section \<open>File names\<close>

lemma log_name_inj [simp]: "log_name a = log_name b \<longleftrightarrow> a = b"
  by (simp add: log_name_def)

lemma index_name_inj [simp]: "index_name a = index_name b \<longleftrightarrow> a = b"
  by (simp add: index_name_def)

lemma log_name_not_index [simp]: "log_name a \<noteq> index_name b" "index_name b \<noteq> log_name a"
proof -
  have "last (log_name a) \<noteq> last (index_name b)"
    by (simp add: log_name_def index_name_def)
  then show "log_name a \<noteq> index_name b" "index_name b \<noteq> log_name a" by auto
qed

section \<open>Records of a segment\<close>

abbreviation rec_bytes :: "log_record list \<Rightarrow> bytes" where
  "rec_bytes \<equiv> frames_of rec_frame"

abbreviation torn_tail :: "bytes \<Rightarrow> bool" where
  "torn_tail \<equiv> torn_of encodable rec_frame"

fun sequential :: "offset \<Rightarrow> log_record list \<Rightarrow> bool" where
  "sequential n [] = True"
| "sequential n (r # rs) = (rec_offset r = n \<and> encodable r \<and> sequential (n + 1) rs)"

definition starts :: "log_record list \<Rightarrow> (int \<times> position) list" where
  "starts rs = map (\<lambda>i. (int i, length (rec_bytes (take i rs)))) [0..<length rs]"

lemma sequential_append [simp]:
  "sequential n (rs @ ss) \<longleftrightarrow> sequential n rs \<and> sequential (n + int (length rs)) ss"
  by (induction rs arbitrary: n) (auto simp: algebra_simps)

lemma sequential_encodable: "sequential n rs \<Longrightarrow> r \<in> set rs \<Longrightarrow> encodable r"
  by (induction rs arbitrary: n) auto

lemma sequential_take: "sequential n rs \<Longrightarrow> sequential n (take k rs)"
  by (metis append_take_drop_id sequential_append)

lemma sequential_drop: "sequential n rs \<Longrightarrow> k \<le> length rs \<Longrightarrow> sequential (n + int k) (drop k rs)"
  by (metis append_take_drop_id sequential_append length_take min.absorb2)

lemma sequential_nth: "sequential n rs \<Longrightarrow> i < length rs \<Longrightarrow> rec_offset (rs ! i) = n + int i"
  by (induction rs arbitrary: n i) (auto simp: nth_Cons split: nat.splits)

lemma sequential_bounds: "sequential n rs \<Longrightarrow> r \<in> set rs \<Longrightarrow> n \<le> rec_offset r \<and> rec_offset r < n + int (length rs)"
  by (auto simp: in_set_conv_nth sequential_nth)

lemma sequential_filter:
  assumes "sequential n rs" "n \<le> off"
  shows "filter (\<lambda>r. off \<le> rec_offset r) rs = drop (nat (off - n)) rs"
  using assms
proof (induction rs arbitrary: n)
  case (Cons r rs)
  show ?case
  proof (cases "off = n")
    case True
    have "\<forall>x \<in> set rs. off \<le> rec_offset x"
      using Cons.prems sequential_bounds [of "n + 1" rs] True by fastforce
    with True Cons.prems show ?thesis by simp
  next
    case False
    with Cons.prems have "nat (off - n) = Suc (nat (off - (n + 1)))" by simp
    with Cons False show ?thesis by simp
  qed
qed simp

lemma starts_Nil [simp]: "starts [] = []"
  by (simp add: starts_def)

lemma starts_snoc: "starts (rs @ [r]) = starts rs @ [(int (length rs), length (rec_bytes rs))]"
  by (simp add: starts_def)

lemma starts_ok_prefix: "starts_ok (starts (rs @ ss)) \<Longrightarrow> starts_ok (starts rs)"
proof (induction ss rule: rev_induct)
  case (snoc x ss)
  then have "starts_ok (starts ((rs @ ss) @ [x]))" by simp
  then have "starts_ok (starts (rs @ ss))" unfolding starts_snoc by (rule starts_ok_snocD)
  then show ?case by (rule snoc.IH)
qed simp

lemma length_rec_bytes_ge: "32 * length rs \<le> length (rec_bytes rs)"
proof (induction rs)
  case (Cons r rs)
  then show ?case using rec_size_ge [of r] by (simp add: HEADER_SIZE_def)
qed simp

lemma length_rec_bytes_take:
  "i < length rs \<Longrightarrow> length (rec_bytes (take i rs)) + 32 \<le> length (rec_bytes rs)"
proof -
  assume i: "i < length rs"
  have "rec_bytes rs = rec_bytes (take i rs) @ rec_bytes (drop i rs)"
    by (metis append_take_drop_id frames_of_simps(3))
  moreover have "32 \<le> length (rec_bytes (drop i rs))"
    using length_rec_bytes_ge [of "drop i rs"] i by simp
  ultimately show ?thesis by simp
qed

text \<open>Record starts of a file of at most 4 GiB fit the index.\<close>

lemma starts_ok_small:
  assumes "\<forall>i < length rs. int (length (rec_bytes (take i rs))) \<le> MAX_U32"
  shows "starts_ok (starts rs)"
proof -
  have "int i \<le> MAX_U32" if "i < length rs" for i
    using assms that length_rec_bytes_ge [of "take i rs"] by fastforce
  with assms show ?thesis
    by (auto simp: starts_ok_def starts_def sorted_wrt_map intro: sorted_wrt_mono_rel [OF _ sorted_wrt_upt])
qed

section \<open>Recovery\<close>

text \<open>
  \<open>built ix d xs\<close>: an open index over the record starts \<open>xs\<close>, its file in step with it.
\<close>

definition built :: "index \<Rightarrow> dir \<Rightarrow> (int \<times> position) list \<Rightarrow> bool" where
  "built ix d xs \<longleftrightarrow> indexes ix xs \<and> index_file_ok ix d \<and> starts_ok xs"

lemma maybe_append_built:
  assumes "built ix d xs" "starts_ok (xs @ [(off - ix_base ix, pos)])"
  obtains ix' where "maybe_append ix off pos = (Inr (), ix')"
    "built ix' d (xs @ [(off - ix_base ix, pos)])" "ix_path ix' = ix_path ix"
    "ix_base ix' = ix_base ix" "ix_interval ix' = ix_interval ix" "ix_closed ix' = ix_closed ix"
proof -
  from assms maybe_append_indexes [of ix xs off pos] obtain es where
    m: "maybe_append ix off pos =
      (Inr (), ix\<lparr>ix_buffer := ix_buffer ix @ pack_entries es, ix_entries := ix_entries ix @ es\<rparr>)"
    and e: "ix_entries ix @ es = sparse (ix_interval ix) (xs @ [(off - ix_base ix, pos)])"
    by (auto simp: built_def)
  show ?thesis
  proof (rule that [OF m])
    show "built (ix\<lparr>ix_buffer := ix_buffer ix @ pack_entries es, ix_entries := ix_entries ix @ es\<rparr>) d
        (xs @ [(off - ix_base ix, pos)])"
    proof -
      have "index_file_ok ix d" using assms(1) by (simp add: built_def)
      then have "index_file_ok (ix\<lparr>ix_buffer := ix_buffer ix @ pack_entries es,
          ix_entries := ix_entries ix @ es\<rparr>) d"
        unfolding index_file_ok_def by (simp flip: append_assoc)
      with e assms(2) show ?thesis unfolding built_def indexes_def by simp
    qed
  qed simp_all
qed

text \<open>The scan consumes sequential records, and then does what it does on the rest.\<close>

lemma recover_scan_skip:
  assumes "built ix d (starts pre)" "sequential (ix_base ix) (pre @ rs)" "starts_ok (starts (pre @ rs))"
    "fsize = length (rec_bytes pre) + length (rec_bytes rs @ t)"
  shows "\<exists>ix'. recover_scan ix (ix_base ix + int (length pre)) (length (rec_bytes pre)) fsize (rec_bytes rs @ t)
      = recover_scan ix' (ix_base ix + int (length (pre @ rs))) (length (rec_bytes (pre @ rs))) fsize t
    \<and> built ix' d (starts (pre @ rs)) \<and> ix_path ix' = ix_path ix \<and> ix_base ix' = ix_base ix
    \<and> ix_interval ix' = ix_interval ix \<and> ix_closed ix' = ix_closed ix"
  using assms
proof (induction rs arbitrary: ix pre)
  case Nil
  then show ?case by auto
next
  case (Cons r rs)
  let ?off = "ix_base ix + int (length pre)"
  have r: "rec_offset r = ?off" "encodable r" using Cons.prems(2) by simp_all
  then have rd: "read_one (rec_bytes (r # rs) @ t) = Inr (Some (r, rec_bytes rs @ t))"
    by (simp add: read_one_frame)
  have split: "starts (pre @ r # rs) = starts ((pre @ [r]) @ rs)" by simp
  have st: "starts_ok (starts (pre @ [r]))"
    using Cons.prems(3) unfolding split by (rule starts_ok_prefix)
  then have "starts_ok (starts pre @ [(rec_offset r - ix_base ix, length (rec_bytes pre))])"
    by (simp add: r starts_snoc)
  from maybe_append_built [OF Cons.prems(1) this] obtain ix1 where
    m: "maybe_append ix (rec_offset r) (length (rec_bytes pre)) = (Inr (), ix1)"
    and b: "built ix1 d (starts pre @ [(rec_offset r - ix_base ix, length (rec_bytes pre))])"
    and same: "ix_path ix1 = ix_path ix" "ix_base ix1 = ix_base ix"
      "ix_interval ix1 = ix_interval ix" "ix_closed ix1 = ix_closed ix"
    by blast
  have b': "built ix1 d (starts (pre @ [r]))" using b r by (simp add: starts_snoc)
  have IH: "\<exists>ix'. recover_scan ix1 (ix_base ix1 + int (length (pre @ [r]))) (length (rec_bytes (pre @ [r])))
        fsize (rec_bytes rs @ t)
      = recover_scan ix' (ix_base ix1 + int (length ((pre @ [r]) @ rs)))
          (length (rec_bytes ((pre @ [r]) @ rs))) fsize t
    \<and> built ix' d (starts ((pre @ [r]) @ rs)) \<and> ix_path ix' = ix_path ix1 \<and> ix_base ix' = ix_base ix1
    \<and> ix_interval ix' = ix_interval ix1 \<and> ix_closed ix' = ix_closed ix1"
    by (rule Cons.IH [OF b']) (use Cons.prems same r in \<open>simp_all add: algebra_simps\<close>)
  have tell: "fsize - (length t + length (rec_bytes rs)) = rec_size r + length (rec_bytes pre)"
    using Cons.prems(4) by simp
  have off: "rec_offset r + 1 = ix_base ix1 + int (length (pre @ [r]))" by (simp add: r same)
  show ?case
    using IH unfolding recover_scan.simps [of ix] rd
    by (simp add: r m [unfolded r(1)] same tell algebra_simps)
qed

definition seg_ok :: "segment \<Rightarrow> log_record list \<Rightarrow> dir \<Rightarrow> bool" where
  "seg_ok s rs d \<longleftrightarrow>
     0 < sg_max s \<and> sg_max s \<le> MAX_U32 + 1
   \<and> sequential (sg_base s) rs
   \<and> sg_next s = sg_base s + int (length rs) \<and> sg_pos s = length (rec_bytes rs)
   \<and> file_exists (log_name (sg_base s)) d \<and> file_data (log_name (sg_base s)) d = rec_bytes rs
   \<and> built (sg_index s) d (starts rs)
   \<and> ix_path (sg_index s) = index_name (sg_base s) \<and> ix_base (sg_index s) = sg_base s
   \<and> ix_interval (sg_index s) = INTERVAL_BYTES \<and> (ix_closed (sg_index s) \<longrightarrow> sg_closed s)"

definition seg_files :: "offset \<Rightarrow> string set" where
  "seg_files base = {log_name base, index_name base}"

lemma seg_files_names [simp]:
  "log_name base \<in> seg_files base" "index_name base \<in> seg_files base"
  by (simp_all add: seg_files_def)

text \<open>What the scan starts from: an empty open index and the log file as it was.\<close>

lemma recover_start:
  assumes "index_init (index_name base) base iv d = (ix, d1)"
    and "index_clear ix (touch (log_name base) d1) = (ix1, d2)"
  shows "built ix1 d2 (starts []) \<and> ix_path ix1 = index_name base \<and> ix_base ix1 = base
    \<and> ix_interval ix1 = iv \<and> \<not> ix_closed ix1
    \<and> file_data (log_name base) d2 = file_data (log_name base) d
    \<and> file_exists (log_name base) d2 \<and> only_touches (seg_files base) d d2"
proof -
  have ix: "ix_path ix = index_name base" "ix_base ix = base" "ix_interval ix = iv"
    "ix_buffer ix = []" "ix_closed ix = False"
    using index_init_fields [of "index_name base" base iv d] assms(1) by simp_all
  have d1: "only_touches (seg_files base) d d1"
    using assms(1)
    by (auto simp: index_init_def Let_def split: if_split_asm
        intro: only_touches_ops only_touches_trans [OF only_touches_ops(1) only_touches_ops(3)])
  have log1: "file_data (log_name base) d1 = file_data (log_name base) d"
    using assms(1) by (auto simp: index_init_def Let_def)
  have ex1: "file_exists (index_name base) d1"
    using assms(1) dir_ops_keep(3) [OF touch_exists]
    by (auto simp: index_init_def Let_def split: if_split_asm)
  have ix1: "ix1 = ix\<lparr>ix_entries := [], ix_buffer := []\<rparr>"
    and d2: "d2 = os_truncate (index_name base) 0 (write_end (index_name base) [] (touch (log_name base) d1))"
    using assms(2) by (simp_all add: index_clear_def index_flush_def ix)
  have dom2: "file_exists (log_name base) d2" "file_exists (index_name base) d2"
    unfolding d2 by (intro dir_ops_keep touch_exists ex1)+
  have "only_touches (seg_files base) d1 d2"
    unfolding d2
    by (rule only_touches_trans [OF only_touches_trans [OF only_touches_ops(1) only_touches_ops(2)]
          only_touches_ops(3)]) simp_all
  with d1 have "only_touches (seg_files base) d d2" by (rule only_touches_trans)
  with dom2 ix log1 show ?thesis
    by (simp add: built_def indexes_def index_file_ok_def ix1 d2 pack_entries_def)
qed

text \<open>Opening a file of sequential records followed by anything: what decides is the rest.\<close>

lemma seg_open_records:
  assumes max: "0 < max_bytes" "max_bytes \<le> MAX_U32 + 1"
    and content: "file_data (log_name base) d = rec_bytes rs @ t"
    and seq: "sequential base rs" and small: "starts_ok (starts rs)"
  obtains ix d2 where
    "seg_open base max_bytes d =
      (case recover_scan ix (base + int (length rs)) (length (rec_bytes rs)) (length (rec_bytes rs @ t)) t of
         (Inl e, ix') \<Rightarrow> (Inl e, d2)
       | (Inr (n, p), ix') \<Rightarrow>
           (Inr \<lparr>sg_base = base, sg_max = max_bytes, sg_index = ix', sg_next = n, sg_pos = p, sg_closed = False\<rparr>,
            if p < length (rec_bytes rs @ t) then os_truncate (log_name base) p d2 else d2))"
    "built ix d2 (starts rs)" "ix_path ix = index_name base" "ix_base ix = base"
    "ix_interval ix = INTERVAL_BYTES" "\<not> ix_closed ix"
    "file_data (log_name base) d2 = rec_bytes rs @ t" "file_exists (log_name base) d2"
    "only_touches (seg_files base) d d2"
proof -
  obtain ix0 d1 where i: "index_init (index_name base) base INTERVAL_BYTES d = (ix0, d1)"
    by (meson surj_pair)
  obtain ix1 d2 where c: "index_clear ix0 (touch (log_name base) d1) = (ix1, d2)"
    by (meson surj_pair)
  note st = recover_start [OF i c]
  from st have base1: "ix_base ix1 = base" by blast
  from recover_scan_skip [of ix1 d2 "[]" rs "length (rec_bytes rs @ t)" t] st seq small
  obtain ix' where scan: "recover_scan ix1 base 0 (length (rec_bytes rs @ t)) (rec_bytes rs @ t)
      = recover_scan ix' (base + int (length rs)) (length (rec_bytes rs)) (length (rec_bytes rs @ t)) t"
    and ix': "built ix' d2 (starts rs)" "ix_path ix' = ix_path ix1" "ix_base ix' = ix_base ix1"
      "ix_interval ix' = ix_interval ix1" "ix_closed ix' = ix_closed ix1"
    unfolding base1 by auto
  show ?thesis
  proof (rule that)
    show "seg_open base max_bytes d =
      (case recover_scan ix' (base + int (length rs)) (length (rec_bytes rs)) (length (rec_bytes rs @ t)) t of
         (Inl e, ix') \<Rightarrow> (Inl e, d2)
       | (Inr (n, p), ix') \<Rightarrow>
           (Inr \<lparr>sg_base = base, sg_max = max_bytes, sg_index = ix', sg_next = n, sg_pos = p, sg_closed = False\<rparr>,
            if p < length (rec_bytes rs @ t) then os_truncate (log_name base) p d2 else d2))"
      using max st content unfolding seg_open_def recover_def
      by (simp add: i c scan [simplified] Let_def split: prod.splits sum.splits)
  qed (use st ix' content in auto)
qed

lemma seg_open_ok:
  assumes max: "0 < max_bytes" "max_bytes \<le> MAX_U32 + 1"
    and content: "file_data (log_name base) d = rec_bytes rs @ t" "read_one t = Inr None"
    and seq: "sequential base rs" and small: "starts_ok (starts rs)"
  obtains s d' where "seg_open base max_bytes d = (Inr s, d')" "seg_ok s rs d'"
    "sg_base s = base" "sg_max s = max_bytes" "\<not> sg_closed s" "only_touches (seg_files base) d d'"
proof -
  obtain ix d2 where o: "seg_open base max_bytes d =
      (case recover_scan ix (base + int (length rs)) (length (rec_bytes rs)) (length (rec_bytes rs @ t)) t of
         (Inl e, ix') \<Rightarrow> (Inl e, d2)
       | (Inr (n, p), ix') \<Rightarrow>
           (Inr \<lparr>sg_base = base, sg_max = max_bytes, sg_index = ix', sg_next = n, sg_pos = p, sg_closed = False\<rparr>,
            if p < length (rec_bytes rs @ t) then os_truncate (log_name base) p d2 else d2))"
    and ix: "built ix d2 (starts rs)" "ix_path ix = index_name base" "ix_base ix = base"
    "ix_interval ix = INTERVAL_BYTES" "\<not> ix_closed ix"
    and d2: "file_data (log_name base) d2 = rec_bytes rs @ t" "file_exists (log_name base) d2"
    "only_touches (seg_files base) d d2"
    by (rule seg_open_records [OF max content(1) seq small]) blast
  have scan: "recover_scan ix (base + int (length rs)) (length (rec_bytes rs)) (length (rec_bytes rs @ t)) t
      = (Inr (base + int (length rs), length (rec_bytes rs)), ix)"
    by (simp add: recover_scan.simps content(2))
  define d3 where "d3 = (if length (rec_bytes rs) < length (rec_bytes rs @ t)
      then os_truncate (log_name base) (length (rec_bytes rs)) d2 else d2)"
  have d3: "file_data (log_name base) d3 = rec_bytes rs" "file_exists (log_name base) d3"
    "file_exists (index_name base) d3 = file_exists (index_name base) d2"
    "file_data (index_name base) d3 = file_data (index_name base) d2"
    "only_touches (seg_files base) d2 d3"
    using d2 by (auto simp: d3_def dir_ops_keep file_exists_def intro: only_touches_ops)
       (auto simp: os_truncate_def map_of_update_file)
  show ?thesis
  proof (rule that)
    show "seg_open base max_bytes d = (Inr \<lparr>sg_base = base, sg_max = max_bytes, sg_index = ix,
        sg_next = base + int (length rs), sg_pos = length (rec_bytes rs), sg_closed = False\<rparr>, d3)"
      unfolding o scan d3_def by simp
    show "only_touches (seg_files base) d d3" using d2(3) d3(5) by (rule only_touches_trans)
  qed (use ix d3 max seq in \<open>auto simp: seg_ok_def built_def index_file_ok_def\<close>)
qed

text \<open>The refusals: damage after good records, and a record with the wrong offset.\<close>

lemma seg_open_refuses:
  assumes max: "0 < max_bytes" "max_bytes \<le> MAX_U32 + 1"
    and content: "file_data (log_name base) d = rec_bytes rs @ t"
    and seq: "sequential base rs" and small: "starts_ok (starts rs)"
    and bad: "read_one t = Inl e \<or> (\<exists>r t'. read_one t = Inr (Some (r, t'))
        \<and> rec_offset r \<noteq> base + int (length rs) \<and> e = CorruptRecord)"
  obtains d' where "seg_open base max_bytes d = (Inl e, d')"
    "file_data (log_name base) d' = file_data (log_name base) d" "only_touches (seg_files base) d d'"
proof -
  obtain ix d2 where o: "seg_open base max_bytes d =
      (case recover_scan ix (base + int (length rs)) (length (rec_bytes rs)) (length (rec_bytes rs @ t)) t of
         (Inl e, ix') \<Rightarrow> (Inl e, d2)
       | (Inr (n, p), ix') \<Rightarrow>
           (Inr \<lparr>sg_base = base, sg_max = max_bytes, sg_index = ix', sg_next = n, sg_pos = p, sg_closed = False\<rparr>,
            if p < length (rec_bytes rs @ t) then os_truncate (log_name base) p d2 else d2))"
    and d2: "file_data (log_name base) d2 = rec_bytes rs @ t" "only_touches (seg_files base) d d2"
    by (rule seg_open_records [OF max content seq small]) blast
  have "recover_scan ix (base + int (length rs)) (length (rec_bytes rs)) (length (rec_bytes rs @ t)) t
      = (Inl e, ix)"
    using bad by (auto simp: recover_scan.simps [of ix])
  with o d2 content show ?thesis by (intro that) simp_all
qed

text \<open>Whatever the file held, a scan that succeeds has seen sequential records up to its end.\<close>

lemma recover_scan_sound:
  "recover_scan ix n p fs f = (Inr res, ix') \<Longrightarrow>
   \<exists>rs t. f = rec_bytes rs @ t \<and> sequential n rs \<and> read_one t = Inr None"
proof (induction ix n p fs f arbitrary: rule: recover_scan.induct)
  case (1 ix n p fs f)
  show ?case
  proof (cases "read_one f")
    case (Inl e)
    with "1.prems" show ?thesis by (simp add: recover_scan.simps [of ix])
  next
    case (Inr cur)
    show ?thesis
    proof (cases cur)
      case None
      with Inr show ?thesis by (intro exI [of _ "[]"] exI [of _ f]) simp
    next
      case (Some rf)
      obtain r f' where rf: "rf = (r, f')" by (cases rf)
      have rd: "read_one f = Inr (Some (r, f'))" using Inr Some rf by simp
      from "1.prems" have off: "rec_offset r = n"
        by (simp add: recover_scan.simps [of ix] rd split: if_split_asm)
      obtain ix1 where m: "maybe_append ix (rec_offset r) p = (Inr (), ix1)"
        and rest: "recover_scan ix1 (rec_offset r + 1) (fs - length f') fs f' = (Inr res, ix')"
        using "1.prems" off by (auto simp: recover_scan.simps [of ix] rd split: prod.splits sum.splits)
      from "1.IH" [OF Inr Some rf [symmetric] _ m [symmetric] refl rest] off obtain rs t
        where "f' = rec_bytes rs @ t" "sequential (rec_offset r + 1) rs" "read_one t = Inr None"
        by auto
      moreover have "f = rec_frame r @ f'" "encodable r" using read_one_sound [OF rd] by auto
      ultimately show ?thesis using off by (intro exI [of _ "r # rs"] exI [of _ t]) simp
    qed
  qed
qed

section \<open>Appending\<close>

lemma built_same_file:
  assumes "built ix d xs" "file_data (ix_path ix) d' = file_data (ix_path ix) d"
    "file_exists (ix_path ix) d' = file_exists (ix_path ix) d"
  shows "built ix d' xs"
  using assms by (simp add: built_def index_file_ok_def)

lemma seg_ok_fields:
  assumes "seg_ok s rs d"
  shows "sequential (sg_base s) rs" "sg_next s = sg_base s + int (length rs)"
    "sg_pos s = length (rec_bytes rs)" "file_data (log_name (sg_base s)) d = rec_bytes rs"
    "file_exists (log_name (sg_base s)) d" "built (sg_index s) d (starts rs)"
    "ix_path (sg_index s) = index_name (sg_base s)" "ix_base (sg_index s) = sg_base s"
    "starts_ok (starts rs)"
  using assms by (simp_all add: seg_ok_def built_def)

lemma starts_ok_extend:
  assumes "starts_ok (starts rs)" "int (length rs) \<le> MAX_U32" "int (length (rec_bytes rs)) \<le> MAX_U32"
  shows "starts_ok (starts rs @ [(int (length rs), length (rec_bytes rs))])"
  using assms by (auto simp: starts_ok_def sorted_wrt_append starts_def)

lemma seg_append_ok:
  assumes ok: "seg_ok s rs d" and live: "\<not> sg_closed s"
    and r: "rec_offset r = sg_next s" "encodable r" and room: "has_room_for s r"
  obtains s' d' where "seg_append s r d = (Inr (sg_pos s), s', d')" "seg_ok s' (rs @ [r]) d'"
    "sg_base s' = sg_base s" "sg_max s' = sg_max s" "\<not> sg_closed s'" "only_touches (seg_files (sg_base s)) d d'"
proof -
  let ?log = "log_name (sg_base s)" and ?ix = "sg_index s"
  define d' where "d' = write_end ?log (rec_frame r) d"
  have data: "file_data ?log d' = rec_bytes (rs @ [r])" and ex: "file_exists ?log d'"
    using ok by (simp_all add: d'_def seg_ok_def dir_ops_keep)
  have touch: "only_touches (seg_files (sg_base s)) d d'"
    unfolding d'_def by (rule only_touches_ops) simp
  have same: "file_exists (index_name (sg_base s)) d' = file_exists (index_name (sg_base s)) d"
    by (simp add: d'_def file_exists_def)
  have built: "built ?ix d' (starts rs)"
    using built_same_file [OF seg_ok_fields(6) [OF ok], of d'] same ok
    by (simp add: seg_ok_fields(7) [OF ok]) (simp add: d'_def)
  have pos: "int (length (rec_bytes rs)) \<le> MAX_U32"
    using ok room rec_size_ge [of r]
    by (auto simp: seg_ok_def has_room_for_def MAX_U32_def HEADER_SIZE_def split: if_split_asm)
  have "int (length rs) \<le> MAX_U32" using length_rec_bytes_ge [of rs] pos by linarith
  with pos have st: "starts_ok (starts rs @ [(rec_offset r - ix_base ?ix, length (rec_bytes rs))])"
    using ok r starts_ok_extend [of rs] by (simp add: seg_ok_def built_def)
  from maybe_append_built [OF built st] obtain ix' where
    m: "maybe_append ?ix (rec_offset r) (length (rec_bytes rs)) = (Inr (), ix')"
    and b: "built ix' d' (starts rs @ [(rec_offset r - ix_base ?ix, length (rec_bytes rs))])"
    and ix': "ix_path ix' = ix_path ?ix" "ix_base ix' = ix_base ?ix"
      "ix_interval ix' = ix_interval ?ix" "ix_closed ix' = ix_closed ?ix"
    by blast
  define s' where "s' = s\<lparr>sg_next := sg_next s + 1,
      sg_pos := length (rec_bytes (rs @ [r])), sg_index := ix'\<rparr>"
  have "seg_append s r d = (Inr (sg_pos s), s', d')"
  proof -
    have "length (file_data ?log d') = sg_pos s + rec_size r" using ok data by (simp add: seg_ok_def)
    moreover have "sg_pos s = length (rec_bytes rs)" using ok by (simp add: seg_ok_def)
    ultimately show ?thesis
      using r live m data by (simp add: seg_append_def encode_encodable Let_def s'_def flip: d'_def)
  qed
  moreover have "seg_ok s' (rs @ [r]) d'"
    using ok r data ex b ix' by (simp add: seg_ok_def s'_def starts_snoc)
  moreover have "sg_base s' = sg_base s" "sg_max s' = sg_max s" "\<not> sg_closed s'"
    using live by (simp_all add: s'_def)
  ultimately show ?thesis using touch by (rule that)
qed

lemma seg_append_refused:
  assumes "rec_offset r = sg_next s" "encode r = Inl e"
  shows "seg_append s r d = (Inl e, s, d)"
  using assms by (simp add: seg_append_def)

section \<open>Syncing and closing\<close>

lemma fsync_keeps:
  assumes "fsync p d = (res, d')"
  shows "file_data q d' = file_data q d" "file_exists q d' = file_exists q d"
    "p \<in> ps \<Longrightarrow> only_touches ps d d'"
proof -
  have d': "d' = snd (fsync p d)" using assms by simp
  show "file_data q d' = file_data q d" by (simp add: d')
  show "file_exists q d' = file_exists q d"
    by (auto simp: d' fsync_def file_exists_def split: option.splits)
  show "p \<in> ps \<Longrightarrow> only_touches ps d d'" unfolding d' by (rule only_touches_ops)
qed

lemma index_sync_built:
  assumes "built ix d xs" "index_sync ix d = (res, ix', d')"
  shows "built ix' d' xs \<and> ix_path ix' = ix_path ix \<and> ix_base ix' = ix_base ix
    \<and> ix_interval ix' = ix_interval ix \<and> ix_closed ix' = ix_closed ix
    \<and> only_touches {ix_path ix} d d'"
proof (cases "ix_closed ix")
  case True
  with assms show ?thesis by (simp add: index_sync_def)
next
  case False
  define d1 where "d1 = write_end (ix_path ix) (ix_buffer ix) d"
  obtain d2 where f: "fsync (ix_path ix) d1 = (res, d2)" and ix': "ix' = ix\<lparr>ix_buffer := []\<rparr>"
    and d': "d' = d2"
    using assms(2) False by (auto simp: index_sync_def index_flush_def d1_def split: prod.splits)
  have t: "only_touches {ix_path ix} d d1" unfolding d1_def by (rule only_touches_ops) simp
  have "only_touches {ix_path ix} d d'"
    using t fsync_keeps(3) [OF f, of "{ix_path ix}"] d' by (auto intro: only_touches_trans)
  moreover have "index_file_ok ix' d'"
    using assms(1) fsync_keeps(1,2) [OF f]
    by (simp add: built_def index_file_ok_def ix' d' d1_def dir_ops_keep)
  ultimately show ?thesis using assms(1) by (simp add: built_def indexes_def ix')
qed

lemma seg_ok_index:
  assumes "seg_ok s rs d" "built ix' d' (starts rs)" "ix_path ix' = ix_path (sg_index s)"
    "ix_base ix' = ix_base (sg_index s)" "ix_interval ix' = ix_interval (sg_index s)" "ix_closed ix' \<longrightarrow> c"
    "file_data (log_name (sg_base s)) d' = file_data (log_name (sg_base s)) d"
    "file_exists (log_name (sg_base s)) d' = file_exists (log_name (sg_base s)) d"
  shows "seg_ok (s\<lparr>sg_index := ix', sg_closed := c\<rparr>) rs d'"
  using assms by (simp add: seg_ok_def)

lemma seg_sync_ok:
  assumes ok: "seg_ok s rs d" and sync: "seg_sync s d = (res, s', d')"
  shows "seg_ok s' rs d' \<and> sg_base s' = sg_base s \<and> sg_max s' = sg_max s \<and> sg_closed s' = sg_closed s
    \<and> sg_next s' = sg_next s \<and> sg_pos s' = sg_pos s \<and> only_touches (seg_files (sg_base s)) d d'"
proof (cases "sg_closed s")
  case True
  with assms show ?thesis by (simp add: seg_sync_def)
next
  case live: False
  obtain r1 d1 where f: "fsync (log_name (sg_base s)) d = (r1, d1)" by (meson surj_pair)
  have t1: "only_touches (seg_files (sg_base s)) d d1" by (rule fsync_keeps(3) [OF f]) simp
  have b1: "built (sg_index s) d1 (starts rs)"
    using built_same_file [OF seg_ok_fields(6) [OF ok]] fsync_keeps(1,2) [OF f] by simp
  show ?thesis
  proof (cases r1)
    case (Inl e)
    with f sync live ok b1 t1 fsync_keeps(1,2) [OF f] show ?thesis
      by (simp add: seg_sync_def seg_ok_def)
  next
    case (Inr u)
    obtain r2 ix2 d2 where i: "index_sync (sg_index s) d1 = (r2, ix2, d2)" by (metis prod_cases3)
    note ib = index_sync_built [OF b1 i]
    have path: "ix_path (sg_index s) = index_name (sg_base s)" using ok by (simp add: seg_ok_def)
    from ib have "only_touches {index_name (sg_base s)} d1 d2" by (simp add: path)
    then have t2: "only_touches (seg_files (sg_base s)) d1 d2"
      and log2: "file_data (log_name (sg_base s)) d2 = file_data (log_name (sg_base s)) d"
      "file_exists (log_name (sg_base s)) d2 = file_exists (log_name (sg_base s)) d"
      using fsync_keeps(1,2) [OF f]
      by (auto simp: seg_files_def only_touches_def file_data_def file_exists_def)
    have "s' = s\<lparr>sg_index := ix2\<rparr>" "d' = d2"
      using sync live f i Inr by (simp_all add: seg_sync_def)
    then have s': "s' = s\<lparr>sg_index := ix2, sg_closed := sg_closed s\<rparr>" "d' = d2"
      by (cases s; simp)+
    with seg_ok_index [OF ok _ _ _ _ _ log2, of ix2 "sg_closed s"] ib t1 t2 ok s' show ?thesis
      by (auto simp: seg_ok_def intro: only_touches_trans)
  qed
qed

lemma seg_close_ok:
  assumes ok: "seg_ok s rs d" and close: "seg_close s d = (res, s', d')"
  shows "seg_ok s' rs d' \<and> sg_base s' = sg_base s \<and> sg_max s' = sg_max s
    \<and> sg_next s' = sg_next s \<and> sg_pos s' = sg_pos s
    \<and> (res = Inr () \<longrightarrow> sg_closed s') \<and> (sg_closed s \<longrightarrow> s' = s \<and> d' = d)
    \<and> only_touches (seg_files (sg_base s)) d d'"
proof (cases "sg_closed s")
  case True
  with assms show ?thesis by (simp add: seg_close_def)
next
  case live: False
  obtain r1 s1 d1 where sync: "seg_sync s d = (r1, s1, d1)" by (metis prod_cases3)
  note s1 = seg_sync_ok [OF ok sync]
  show ?thesis
  proof (cases r1)
    case (Inl e)
    with close live sync s1 show ?thesis by (auto simp: seg_close_def)
  next
    case (Inr u)
    let ?ix = "sg_index s1"
    from s1 have ok1: "seg_ok s1 rs d1" by blast
    note b1 = seg_ok_fields(6,7) [OF ok1]
    obtain r2 ix2 d2 where ic: "index_close ?ix d1 = (r2, ix2, d2)" by (metis prod_cases3)
    have "s' = s1\<lparr>sg_closed := True, sg_index := ix2\<rparr>" and s'2: "d' = d2"
      using close live sync Inr ic by (simp_all add: seg_close_def Let_def)
    then have s': "s' = s1\<lparr>sg_index := ix2, sg_closed := True\<rparr>" "d' = d2"
      by simp_all
    obtain r3 ix3 d3 where isy: "index_sync ?ix d1 = (r3, ix3, d3)" by (metis prod_cases3)
    note ib = index_sync_built [OF b1(1) isy]
    have "built ix2 d2 (starts rs) \<and> ix_path ix2 = ix_path ?ix \<and> ix_base ix2 = ix_base ?ix
        \<and> ix_interval ix2 = ix_interval ?ix \<and> only_touches {index_name (sg_base s1)} d1 d2"
      using ic isy ib b1
      by (auto simp: index_close_def built_def indexes_def index_file_ok_def
          split: if_split_asm sum.splits)
    moreover from this have "file_data (log_name (sg_base s1)) d2 = file_data (log_name (sg_base s1)) d1"
      "file_exists (log_name (sg_base s1)) d2 = file_exists (log_name (sg_base s1)) d1"
      "only_touches (seg_files (sg_base s1)) d1 d2"
      by (auto simp: seg_files_def only_touches_def file_data_def file_exists_def)
    ultimately show ?thesis
      using seg_ok_index [OF ok1, of ix2 d2 True] s1 live s' by (auto intro: only_touches_trans)
  qed
qed

section \<open>Reading\<close>

lemma scan_reads_all:
  assumes "\<forall>r \<in> set rs. encodable r" "read_one t = Inr None"
  shows "(case read_one (rec_bytes rs @ t) of Inl e \<Rightarrow> ([], Some e) | Inr cur \<Rightarrow> read_loop off cur)
    = (filter (\<lambda>r. off \<le> rec_offset r) rs, None)"
  using assms(1)
proof (induction rs)
  case (Cons r rs)
  then have "read_one (rec_bytes (r # rs) @ t) = Inr (Some (r, rec_bytes rs @ t))"
    by (simp add: read_one_frame)
  with Cons show ?case by simp
qed (simp add: assms(2))

lemma read_loop_from:
  assumes "\<forall>r \<in> set rs. encodable r" "read_one t = Inr None" "read_one (rec_bytes rs @ t) = Inr cur"
  shows "read_loop off cur = (filter (\<lambda>r. off \<le> rec_offset r) rs, None)"
  using scan_reads_all [OF assms(1,2), of off] assms(3) by simp

text \<open>A hint that is not at a record boundary, or at the wrong record, falls back to the whole file.\<close>

lemma seg_iter_from_fallback:
  assumes fil: "file_exists (log_name (sg_base s)) d" "file_data (log_name (sg_base s)) d = rec_bytes rs @ t"
    and enc: "\<forall>r \<in> set rs. encodable r" "read_one t = Inr None"
    and hint: "lookup (sg_index s) off = (h, pos)"
    and bad: "read_one (drop pos (rec_bytes rs @ t)) = Inl CorruptRecord
      \<or> read_one (drop pos (rec_bytes rs @ t)) = Inr None
      \<or> (\<exists>r f. read_one (drop pos (rec_bytes rs @ t)) = Inr (Some (r, f)) \<and> rec_offset r \<noteq> h)"
  shows "seg_iter_from s off d = (filter (\<lambda>r. off \<le> rec_offset r) rs, None)"
proof -
  obtain fl where m: "map_of d (log_name (sg_base s)) = Some fl" "fl_data fl = rec_bytes rs @ t"
    using fil by (auto simp: file_exists_def file_data_def)
  show ?thesis
    using bad scan_reads_all [OF enc, of off]
    by (auto simp: seg_iter_from_def hint m)
qed

lemma seg_iter_from_boundary:
  assumes fil: "file_exists (log_name (sg_base s)) d" "file_data (log_name (sg_base s)) d = rec_bytes rs @ t"
    and enc: "\<forall>r \<in> set rs. encodable r" "read_one t = Inr None"
    and hint: "lookup (sg_index s) off = (h, length (rec_bytes (take k rs)))"
    and k: "k < length rs" "rec_offset (rs ! k) = h" and before: "\<forall>r \<in> set (take k rs). rec_offset r < off"
  shows "seg_iter_from s off d = (filter (\<lambda>r. off \<le> rec_offset r) rs, None)"
proof -
  obtain fl where m: "map_of d (log_name (sg_base s)) = Some fl" "fl_data fl = rec_bytes rs @ t"
    using fil by (auto simp: file_exists_def file_data_def)
  have "rec_bytes rs = rec_bytes (take k rs) @ rec_bytes (drop k rs)"
    by (metis append_take_drop_id frames_of_simps(3))
  then have dr: "drop (length (rec_bytes (take k rs))) (rec_bytes rs @ t) = rec_bytes (drop k rs) @ t"
    by simp
  have cons: "drop k rs = rs ! k # drop (Suc k) rs" using k(1) by (simp add: Cons_nth_drop_Suc)
  have rd: "read_one (rec_bytes (drop k rs) @ t) = Inr (Some (rs ! k, rec_bytes (drop (Suc k) rs) @ t))"
    unfolding cons using enc(1) k(1) by (simp add: read_one_frame)
  have "\<forall>r \<in> set (drop k rs). encodable r" using enc(1) in_set_dropD by fast
  from read_loop_from [OF this enc(2) rd, of off]
  have "seg_iter_from s off d = (filter (\<lambda>r. off \<le> rec_offset r) (drop k rs), None)"
    unfolding seg_iter_from_def Let_def hint m option.case prod.case dr rd
    by (simp add: k(2) del: read_loop.simps)
  moreover have "filter (\<lambda>r. off \<le> rec_offset r) (take k rs) = []"
    using before by (fastforce simp: filter_empty_conv)
  ultimately show ?thesis
    by (metis append_take_drop_id filter_append append_Nil)
qed

lemma sequential_before:
  assumes "sequential n rs" "r \<in> set (take k rs)" "k < length rs" "rec_offset (rs ! k) \<le> off"
  shows "rec_offset r < off"
proof -
  from assms(2) obtain i where "i < k" "r = rs ! i" by (auto simp: in_set_conv_nth)
  with assms sequential_nth [OF assms(1), of i] sequential_nth [OF assms(1), of k] show ?thesis by simp
qed

text \<open>
  Reading does not trust the index: any index whose entries are in order gives the same records,
  unless the bytes at the hint raise \<open>StructError\<close> or happen to be a record, at a place that is no
  boundary, that carries the promised offset.
\<close>

lemma seg_iter_from_any_index:
  assumes fil: "file_exists (log_name (sg_base s)) d" "file_data (log_name (sg_base s)) d = rec_bytes rs @ t"
    and seq: "sequential (sg_base s) rs" and tail: "read_one t = Inr None"
    and hint: "lookup (sg_index s) off = (h, pos)" "h \<le> off"
    and verdict: "read_one (drop pos (rec_bytes rs @ t)) = Inl CorruptRecord
      \<or> read_one (drop pos (rec_bytes rs @ t)) = Inr None
      \<or> (\<exists>r f. read_one (drop pos (rec_bytes rs @ t)) = Inr (Some (r, f)) \<and> rec_offset r \<noteq> h)
      \<or> (\<exists>k \<le> length rs. pos = length (rec_bytes (take k rs)))"
  shows "seg_iter_from s off d = (filter (\<lambda>r. off \<le> rec_offset r) rs, None)"
proof -
  have enc: "\<forall>r \<in> set rs. encodable r" using sequential_encodable [OF seq] by blast
  note fallback = seg_iter_from_fallback [OF fil enc tail hint(1)]
  show ?thesis
  proof (cases "\<exists>k \<le> length rs. pos = length (rec_bytes (take k rs))")
    case False
    with verdict fallback show ?thesis by blast
  next
    case True
    then obtain k where k: "k \<le> length rs" "pos = length (rec_bytes (take k rs))" by blast
    have "rec_bytes rs = rec_bytes (take k rs) @ rec_bytes (drop k rs)"
      by (metis append_take_drop_id frames_of_simps(3))
    then have dr: "drop pos (rec_bytes rs @ t) = rec_bytes (drop k rs) @ t" using k by simp
    show ?thesis
    proof (cases "k < length rs")
      case False
      with dr tail fallback show ?thesis by simp
    next
      case True
      then have cons: "drop k rs = rs ! k # drop (Suc k) rs" by (simp add: Cons_nth_drop_Suc)
      have rd: "read_one (drop pos (rec_bytes rs @ t)) = Inr (Some (rs ! k, rec_bytes (drop (Suc k) rs) @ t))"
        unfolding dr cons using enc True by (simp add: read_one_frame)
      show ?thesis
      proof (cases "rec_offset (rs ! k) = h")
        case False
        with rd fallback show ?thesis by blast
      next
        case at: True
        have "\<forall>r \<in> set (take k rs). rec_offset r < off"
          using sequential_before [OF seq _ True] at hint(2) by blast
        with seg_iter_from_boundary [OF fil enc tail _ True at] hint(1) k show ?thesis by simp
      qed
    qed
  qed
qed

lemma lookup_le:
  assumes "sorted (map fst (ix_entries ix))" "ix_base ix \<le> off" "lookup ix off = (h, pos)"
  shows "h \<le> off"
  using lookup_floor [OF assms(1), of off] assms(2,3) by auto

lemma lookup_at_start:
  assumes "built ix d (starts rs)" "lookup ix off = (h, pos)"
  shows "\<exists>k \<le> length rs. pos = length (rec_bytes (take k rs))"
proof -
  have es: "ix_entries ix = sparse (ix_interval ix) (starts rs)" and so: "starts_ok (starts rs)"
    using assms(1) by (simp_all add: built_def indexes_def)
  have "sorted (map fst (ix_entries ix))"
    unfolding es by (rule sorted_sparse_from [OF starts_ok_sorted [OF so]])
  from lookup_floor [OF this, of off] assms(2)
  have "(\<exists>r. (r, pos) \<in> set (ix_entries ix)) \<or> pos = 0" by auto
  then show ?thesis
  proof
    assume "\<exists>r. (r, pos) \<in> set (ix_entries ix)"
    then obtain r where "(r, pos) \<in> set (starts rs)"
      using sparse_from_subseq [of "ix_interval ix" 0 "starts rs"] es by auto
    then obtain i where "i < length rs" "pos = length (rec_bytes (take i rs))"
      by (auto simp: starts_def)
    then show ?thesis by (intro exI [of _ i]) simp
  qed (auto intro: exI [of _ 0])
qed

lemma seg_read_ok:
  assumes ok: "seg_ok s rs d" and off: "sg_base s \<le> off"
  shows "seg_read_from s off d = Inr (drop (nat (off - sg_base s)) rs, None)"
proof -
  obtain h pos where h: "lookup (sg_index s) off = (h, pos)" by (meson surj_pair)
  note f = seg_ok_fields [OF ok]
  have es: "ix_entries (sg_index s) = sparse (ix_interval (sg_index s)) (starts rs)"
    using f(6) by (simp add: built_def indexes_def)
  have "sorted (map fst (ix_entries (sg_index s)))"
    unfolding es by (rule sorted_sparse_from [OF starts_ok_sorted [OF f(9)]])
  then have "h \<le> off" using lookup_le h off f(8) by simp
  then have "seg_iter_from s off d = (filter (\<lambda>r. off \<le> rec_offset r) rs, None)"
    using seg_iter_from_any_index [OF f(5) _ f(1) read_one_Nil h] f(4)
      lookup_at_start [OF f(6) h] by simp
  then show ?thesis using off sequential_filter [OF f(1) off] by (simp add: seg_read_from_def)
qed

section \<open>What recovery accepts\<close>

lemma starts_ok_of_file:
  assumes "int (length (rec_bytes rs @ t)) \<le> MAX_U32 + 1"
  shows "starts_ok (starts rs)"
proof (rule starts_ok_small, intro allI impI)
  fix i assume "i < length rs"
  then show "int (length (rec_bytes (take i rs))) \<le> MAX_U32"
    using length_rec_bytes_take [of i rs] assms by simp
qed

lemma seg_open_Inl_keeps:
  assumes "seg_open base max_bytes d = (Inl e, d')"
  shows "file_data (log_name base) d' = file_data (log_name base) d \<and> only_touches (seg_files base) d d'"
proof (cases "0 < max_bytes \<and> max_bytes \<le> MAX_U32 + 1")
  case False
  with assms show ?thesis by (simp add: seg_open_def)
next
  case True
  obtain ix d1 where i: "index_init (index_name base) base INTERVAL_BYTES d = (ix, d1)"
    by (meson surj_pair)
  obtain ix1 d2 where c: "index_clear ix (touch (log_name base) d1) = (ix1, d2)"
    by (meson surj_pair)
  have "d' = d2"
    using assms True
    by (auto simp: seg_open_def recover_def i c Let_def split: prod.splits sum.splits)
  with recover_start [OF i c] show ?thesis by simp
qed

text \<open>
  The shape of a file recovery accepts: sequential records from the base offset, then bytes that
  read as the end of the stream.
\<close>

definition recoverable :: "offset \<Rightarrow> bytes \<Rightarrow> log_record list \<Rightarrow> bool" where
  "recoverable base data rs \<longleftrightarrow>
     (\<exists>t. data = rec_bytes rs @ t \<and> sequential base rs \<and> read_one t = Inr None)"

lemma recoverable_records: "sequential base rs \<Longrightarrow> recoverable base (rec_bytes rs) rs"
  by (auto simp: recoverable_def read_one_Nil intro!: exI [of _ "[]"])

lemma recoverable_torn: "sequential base rs \<Longrightarrow> torn_tail t \<Longrightarrow> recoverable base (rec_bytes rs @ t) rs"
  by (auto simp: recoverable_def intro!: exI [of _ t] rec_fmt.read_torn')

lemma seg_open_recoverable:
  assumes "0 < max_bytes" "max_bytes \<le> MAX_U32 + 1"
    and "int (length (file_data (log_name base) d)) \<le> MAX_U32 + 1"
    and "recoverable base (file_data (log_name base) d) rs"
  obtains s d' where "seg_open base max_bytes d = (Inr s, d')" "seg_ok s rs d'"
    "sg_base s = base" "sg_max s = max_bytes" "\<not> sg_closed s" "only_touches (seg_files base) d d'"
proof -
  from assms(4) obtain t where t: "file_data (log_name base) d = rec_bytes rs @ t"
    "sequential base rs" "read_one t = Inr None" by (auto simp: recoverable_def)
  have "starts_ok (starts rs)" using assms(3) t(1) by (intro starts_ok_of_file) simp
  from seg_open_ok [OF assms(1,2) t(1,3,2) this] show ?thesis using that by blast
qed

lemma seg_open_Inr_recoverable:
  assumes opn: "seg_open base max_bytes d = (Inr s, d')"
  shows "\<exists>rs. recoverable base (file_data (log_name base) d) rs"
proof -
  obtain ix d1 where i: "index_init (index_name base) base INTERVAL_BYTES d = (ix, d1)"
    by (meson surj_pair)
  obtain ix1 d2 where c: "index_clear ix (touch (log_name base) d1) = (ix1, d2)"
    by (meson surj_pair)
  let ?data = "file_data (log_name base) d2"
  obtain res ix2 where "recover_scan ix1 base 0 (length ?data) ?data = (Inr res, ix2)"
    using opn by (auto simp: seg_open_def recover_def i c Let_def split: if_split_asm prod.splits sum.splits)
  from recover_scan_sound [OF this] recover_start [OF i c]
  show ?thesis by (auto simp: recoverable_def)
qed

lemma recoverable_unique:
  assumes "recoverable base data rs" "recoverable base data ss"
  shows "rs = ss"
proof -
  have "rs = ss" if "rec_bytes rs @ t = rec_bytes ss @ u" "sequential n rs" "sequential m ss"
    "read_one t = Inr None" "read_one u = Inr None" for rs ss t u n m
    using that
  proof (induction rs arbitrary: ss n m)
    case Nil
    then show ?case by (cases ss) (auto simp: read_one_frame)
  next
    case (Cons r rs)
    then have rd: "read_one (rec_bytes ss @ u) = Inr (Some (r, rec_bytes rs @ t))"
      by (simp flip: Cons.prems(1)) (simp add: read_one_frame)
    then obtain s ss' where ss: "ss = s # ss'" using Cons.prems(5) by (cases ss) auto
    with Cons.prems rd have "s = r" "rec_bytes rs @ t = rec_bytes ss' @ u"
      by (auto simp: read_one_frame)
    with ss Cons show ?case by auto
  qed
  with assms show ?thesis unfolding recoverable_def by blast
qed

section \<open>Crashes\<close>

lemma index_sync_log_synced:
  "index_sync ix d = (res, ix', d') \<Longrightarrow> q \<noteq> ix_path ix \<Longrightarrow> synced_len q d' = synced_len q d"
  using fsync_synced_other [of q "ix_path ix" "write_end (ix_path ix) (ix_buffer ix) d"]
  by (auto simp: index_sync_def index_flush_def split: if_split_asm prod.splits)

lemma seg_sync_synced:
  assumes ok: "seg_ok s rs d" and sync: "seg_sync s d = (Inr u, s', d')"
  shows "synced_len (log_name (sg_base s)) d' = length (rec_bytes rs)"
proof -
  obtain d1 where f: "fsync (log_name (sg_base s)) d = (Inr (), d1)"
    and i: "index_sync (sg_index s) d1 = (Inr u, sg_index s', d')"
    using sync by (auto simp: seg_sync_def split: if_split_asm prod.splits sum.splits)
  have "synced_len (log_name (sg_base s)) d' = synced_len (log_name (sg_base s)) d1"
    using index_sync_log_synced [OF i] seg_ok_fields(7) [OF ok] by simp
  with fsync_synced(1) [OF f] fsync_keeps(1) [OF f] seg_ok_fields(4) [OF ok] show ?thesis by simp
qed

lemma seg_close_synced:
  assumes ok: "seg_ok s rs d" and live: "\<not> sg_closed s" and close: "seg_close s d = (Inr u, s', d')"
  shows "synced_len (log_name (sg_base s)) d' = length (rec_bytes rs)"
proof -
  obtain s1 d1 ix where sync: "seg_sync s d = (Inr (), s1, d1)"
    and c: "index_close (sg_index s1) d1 = (Inr u, ix, d')"
    using close live by (auto simp: seg_close_def Let_def split: prod.splits sum.splits)
  note s1 = seg_sync_ok [OF ok sync]
  then have "ix_path (sg_index s1) = index_name (sg_base s)" by (simp add: seg_ok_def)
  then have "synced_len (log_name (sg_base s)) d' = synced_len (log_name (sg_base s)) d1"
    using c index_sync_log_synced [of "sg_index s1" d1]
    by (auto simp: index_close_def split: if_split_asm prod.splits sum.splits)
  with seg_sync_synced [OF ok sync] show ?thesis by simp
qed

text \<open>A power cut leaves a recoverable file that keeps the records that were synced.\<close>

lemma seg_power_cut:
  assumes ok: "seg_ok s rs d" and cut: "power_cut d d'"
    and k: "k \<le> length rs" "length (rec_bytes (take k rs)) \<le> synced_len (log_name (sg_base s)) d"
  obtains n where "k \<le> n" "n \<le> length rs" "recoverable (sg_base s) (file_data (log_name (sg_base s)) d') (take n rs)"
    "length (file_data (log_name (sg_base s)) d') \<le> length (rec_bytes rs)"
proof -
  let ?p = "log_name (sg_base s)"
  note f = seg_ok_fields [OF ok]
  obtain j where j: "file_data ?p d' = take j (rec_bytes rs)"
    "min (synced_len ?p d) (length (rec_bytes rs)) \<le> length (file_data ?p d')"
    using power_cut_prefix [OF cut, of ?p] f(4) by metis
  have enc: "\<forall>r \<in> set rs. encodable r" using sequential_encodable [OF f(1)] by blast
  have "length (rec_bytes (take k rs)) \<le> length (rec_bytes rs)"
    using length_rec_bytes_take [of k rs] k(1) by (cases "k < length rs") auto
  with k j have "length (rec_bytes (take k rs)) \<le> length (file_data ?p d')" by simp
  from rec_fmt.prefix_of_frames_keeps [OF enc _ this k(1)] j(1)
  obtain n t where "k \<le> n" "n \<le> length rs" "torn_tail t" "file_data ?p d' = rec_bytes (take n rs) @ t"
    by (auto simp: take_is_prefix)
  moreover from this have "recoverable (sg_base s) (file_data ?p d') (take n rs)"
    using recoverable_torn sequential_take [OF f(1)] by metis
  moreover have "length (file_data ?p d') \<le> length (rec_bytes rs)" using j(1) by simp
  ultimately show ?thesis by (intro that)
qed

section \<open>How far a seek is off\<close>

lemma lookup_last_kept:
  assumes "sorted (map fst (ix_entries ix))"
  shows "lookup ix off =
    (let kept = filter (\<lambda>e. fst e \<le> off - ix_base ix) (ix_entries ix)
     in if kept = [] then (ix_base ix, 0) else (ix_base ix + fst (last kept), snd (last kept)))"
proof -
  let ?es = "ix_entries ix" and ?x = "off - ix_base ix"
  let ?n = "bisect_right (map fst ?es) ?x"
  have n: "?n \<le> length ?es" using bisect_right_le [of "map fst ?es" ?x] by simp
  have "filter (\<lambda>e. fst e \<le> ?x) (take ?n ?es) = take ?n ?es"
    using bisect_right_below [OF assms, of _ ?x] n by (force simp: filter_id_conv in_set_conv_nth)
  moreover have "?x < fst e" if "e \<in> set (drop ?n ?es)" for e
  proof -
    from that obtain i where "i < length ?es - ?n" "e = ?es ! (?n + i)"
      using n by (auto simp: in_set_conv_nth)
    with bisect_right_above [OF assms, of ?x "?n + i"] show ?thesis by simp
  qed
  then have "filter (\<lambda>e. fst e \<le> ?x) (drop ?n ?es) = []" by (fastforce simp: filter_empty_conv)
  ultimately have kept: "filter (\<lambda>e. fst e \<le> ?x) ?es = take ?n ?es"
    by (metis append_take_drop_id append_Nil2 filter_append)
  show ?thesis
  proof (cases ?n)
    case 0
    then show ?thesis by (simp add: lookup_def kept)
  next
    case (Suc k)
    with n have "last (take ?n ?es) = ?es ! k" "take ?n ?es \<noteq> []"
      by (auto simp: take_Suc_conv_app_nth)
    with Suc show ?thesis by (simp add: lookup_def kept split: prod.split)
  qed
qed

lemma sparse_from_seek:
  assumes "sorted_wrt (\<lambda>a b. fst a < fst b) xs" "(r, q) \<in> set xs" "0 < iv"
  shows "int q - int (let kept = filter (\<lambda>e. fst e \<le> r) (sparse_from iv lst xs)
      in if kept = [] then lst else snd (last kept)) < iv"
  using assms(1,2)
proof (induction xs arbitrary: lst)
  case (Cons x xs)
  obtain r0 p0 where x: "x = (r0, p0)" by (cases x)
  have later: "filter (\<lambda>e. fst e \<le> r0) (sparse_from iv l xs) = []" for l
    using Cons.prems(1) sparse_from_subseq [of iv l xs] x by (fastforce simp: filter_empty_conv)
  show ?case
  proof (cases "(r, q) = x")
    case True
    with x later assms(3) show ?thesis by auto
  next
    case False
    with Cons.prems x have "r0 < r" "(r, q) \<in> set xs" by auto
    with Cons.IH [of lst] Cons.IH [of p0] Cons.prems(1) x show ?thesis
      by (auto simp: Let_def split: if_split_asm)
  qed
qed simp

lemma lookup_seek:
  assumes "seg_ok s rs d" "i < length rs" "lookup (sg_index s) (sg_base s + int i) = (h, pos)"
  shows "int (length (rec_bytes (take i rs))) - int pos < INTERVAL_BYTES"
    and "pos \<le> length (rec_bytes (take i rs))"
proof -
  note f = seg_ok_fields [OF assms(1)]
  let ?ix = "sg_index s" and ?q = "length (rec_bytes (take i rs))"
  let ?kept = "filter (\<lambda>e. fst e \<le> int i) (ix_entries ?ix)"
  have es: "ix_entries ?ix = sparse INTERVAL_BYTES (starts rs)"
    using f(6) assms(1) by (simp add: built_def indexes_def seg_ok_def)
  have sorted: "sorted (map fst (ix_entries ?ix))"
    unfolding es by (rule sorted_sparse_from [OF starts_ok_sorted [OF f(9)]])
  have pos: "pos = (if ?kept = [] then 0 else snd (last ?kept))"
    using assms(3) f(8) by (auto simp: lookup_last_kept [OF sorted] Let_def split: if_split_asm)
  have "(int i, ?q) \<in> set (starts rs)" using assms(2) by (auto simp: starts_def)
  from sparse_from_seek [OF _ this, of INTERVAL_BYTES 0] f(9)
  show "int ?q - int pos < INTERVAL_BYTES"
    by (auto simp: starts_ok_def INTERVAL_BYTES_def pos es Let_def split: if_split_asm)
  show "pos \<le> ?q"
  proof (cases "?kept = []")
    case False
    then have "last ?kept \<in> set ?kept" by (rule last_in_set)
    then have "last ?kept \<in> set (starts rs)" "fst (last ?kept) \<le> int i"
      using sparse_from_subseq [of INTERVAL_BYTES 0 "starts rs"] es by auto
    then obtain j where j: "j \<le> i" "pos = length (rec_bytes (take j rs))"
      using pos False by (auto simp: starts_def)
    have "take i rs = take j rs @ drop j (take i rs)"
      using j(1) by (metis append_take_drop_id min.absorb1 take_take)
    then show ?thesis using j(2) by (metis frames_of_simps(3) le_add1 length_append)
  qed (simp add: pos)
qed

section \<open>Properties\<close>

text \<open>Every file is sequential records up to the point where the scan of recovery stops.\<close>

lemma file_decompose:
  "\<exists>rs t. data = rec_bytes rs @ t \<and> sequential n rs
    \<and> (read_one t = Inr None
     \<or> (\<exists>e. read_one t = Inl e)
     \<or> (\<exists>r t'. read_one t = Inr (Some (r, t')) \<and> rec_offset r \<noteq> n + int (length rs)))"
proof (induction "length data" arbitrary: data n rule: less_induct)
  case less
  show ?case
  proof (cases "\<exists>r f. read_one data = Inr (Some (r, f)) \<and> rec_offset r = n")
    case False
    then have "read_one data = Inr None \<or> (\<exists>e. read_one data = Inl e)
      \<or> (\<exists>r t'. read_one data = Inr (Some (r, t')) \<and> rec_offset r \<noteq> n)"
      by (metis not_Some_eq old.prod.exhaust sum.exhaust)
    then show ?thesis by (intro exI [of _ "[]"] exI [of _ data]) simp
  next
    case True
    then obtain r f where rf: "read_one data = Inr (Some (r, f))" "rec_offset r = n" by blast
    from less [OF read_one_shorter [OF rf(1)], of "n + 1"] obtain rs t where
      "f = rec_bytes rs @ t" "sequential (n + 1) rs" and stop: "read_one t = Inr None \<or> (\<exists>e. read_one t = Inl e)
      \<or> (\<exists>r t'. read_one t = Inr (Some (r, t')) \<and> rec_offset r \<noteq> n + 1 + int (length rs))"
      by blast
    moreover from read_one_sound [OF rf(1)] have "data = rec_frame r @ f" "encodable r" by auto
    ultimately show ?thesis using rf(2)
      by (intro exI [of _ "r # rs"] exI [of _ t]) (simp add: algebra_simps)
  qed
qed

text \<open>
  Property C5. Opening a segment: a log file of at most 4 GiB that holds records with sequential
  offsets from the base on and then an end of stream (nothing, or a torn write) is opened with
  exactly these records, its torn tail cut off and its index rebuilt. Any other file (damage, an
  offset gap) is refused with an error and left as it was. No other file is touched.
\<close>

theorem recovery_decides:
  assumes "0 < max_bytes" "max_bytes \<le> MAX_U32 + 1"
    and "int (length (file_data (log_name base) d)) \<le> MAX_U32 + 1"
  shows "(\<forall>rs. recoverable base (file_data (log_name base) d) rs \<longrightarrow>
      (\<exists>s d'. seg_open base max_bytes d = (Inr s, d') \<and> seg_ok s rs d'
        \<and> file_data (log_name base) d' = rec_bytes rs
        \<and> sg_next s = base + int (length rs) \<and> sg_pos s = length (rec_bytes rs)
        \<and> only_touches {log_name base, index_name base} d d'))
    \<and> ((\<nexists>rs. recoverable base (file_data (log_name base) d) rs) \<longrightarrow>
      (\<exists>e d'. seg_open base max_bytes d = (Inl e, d') \<and> e \<in> {CorruptRecord, StructError}
        \<and> file_data (log_name base) d' = file_data (log_name base) d
        \<and> only_touches {log_name base, index_name base} d d'))"
proof (rule conjI; intro allI impI)
  fix rs assume "recoverable base (file_data (log_name base) d) rs"
  from seg_open_recoverable [OF assms this] obtain s d' where
    "seg_open base max_bytes d = (Inr s, d')" "seg_ok s rs d'" "sg_base s = base"
    "only_touches (seg_files base) d d'" by metis
  moreover note seg_ok_fields [OF this(2)]
  ultimately show "\<exists>s d'. seg_open base max_bytes d = (Inr s, d') \<and> seg_ok s rs d'
      \<and> file_data (log_name base) d' = rec_bytes rs
      \<and> sg_next s = base + int (length rs) \<and> sg_pos s = length (rec_bytes rs)
      \<and> only_touches {log_name base, index_name base} d d'"
    unfolding seg_files_def by metis
next
  assume none: "\<nexists>rs. recoverable base (file_data (log_name base) d) rs"
  from file_decompose [of "file_data (log_name base) d" base] obtain rs t where
    t: "file_data (log_name base) d = rec_bytes rs @ t" "sequential base rs" and
    stop: "read_one t = Inr None \<or> (\<exists>e. read_one t = Inl e)
     \<or> (\<exists>r t'. read_one t = Inr (Some (r, t')) \<and> rec_offset r \<noteq> base + int (length rs))"
    by blast
  have "read_one t \<noteq> Inr None" using none t by (auto simp: recoverable_def)
  with stop read_one_error obtain e where e: "e \<in> {CorruptRecord, StructError}"
    "read_one t = Inl e \<or> (\<exists>r t'. read_one t = Inr (Some (r, t'))
      \<and> rec_offset r \<noteq> base + int (length rs) \<and> e = CorruptRecord)" by blast
  have "starts_ok (starts rs)" using assms(3) t(1) by (intro starts_ok_of_file) simp
  from seg_open_refuses [OF assms(1,2) t this e(2)] e(1)
  show "\<exists>e d'. seg_open base max_bytes d = (Inl e, d') \<and> e \<in> {CorruptRecord, StructError}
      \<and> file_data (log_name base) d' = file_data (log_name base) d
      \<and> only_touches {log_name base, index_name base} d d'"
    unfolding seg_files_def by metis
qed

text \<open>
  Recovery forgets nothing and invents nothing: opening the file of a segment in use
  again gives the same records, the same next offset and end of file, and rebuilds the index entry
  for entry, although the old index file is thrown away.
\<close>

theorem reopen_rebuilds_index:
  assumes "seg_ok s rs d" and "int (length (rec_bytes rs)) \<le> MAX_U32 + 1"
  shows "\<exists>s' d'. seg_open (sg_base s) (sg_max s) d = (Inr s', d') \<and> seg_ok s' rs d'
    \<and> ix_entries (sg_index s') = ix_entries (sg_index s)
    \<and> sg_next s' = sg_next s \<and> sg_pos s' = sg_pos s
    \<and> file_data (log_name (sg_base s)) d' = file_data (log_name (sg_base s)) d"
proof -
  note f = seg_ok_fields [OF assms(1)]
  have max: "0 < sg_max s" "sg_max s \<le> MAX_U32 + 1" using assms(1) by (simp_all add: seg_ok_def)
  have rec: "recoverable (sg_base s) (file_data (log_name (sg_base s)) d) rs"
    using f(1,4) recoverable_records by simp
  have "int (length (file_data (log_name (sg_base s)) d)) \<le> MAX_U32 + 1" using assms(2) f(4) by simp
  from seg_open_recoverable [OF max this rec] obtain s' d' where
    o: "seg_open (sg_base s) (sg_max s) d = (Inr s', d')" "seg_ok s' rs d'" "sg_base s' = sg_base s"
    by metis
  have "ix_entries (sg_index s') = ix_entries (sg_index s)"
    using o(2) assms(1) by (simp add: seg_ok_def built_def indexes_def)
  with o seg_ok_fields [OF o(2)] f show ?thesis by auto
qed


text \<open>
  Property C39. The index bounds the seek: in a segment in use, the position looked up for an offset
  of the segment is at most the byte the record starts at and less than \<open>INTERVAL_BYTES\<close> before it, so
  a read skips less than 4096 bytes however large the segment is.
\<close>

theorem seek_within_interval:
  assumes "seg_ok s rs d" and "i < length rs" and "lookup (sg_index s) (sg_base s + int i) = (h, pos)"
  shows "pos \<le> length (rec_bytes (take i rs)) \<and> length (rec_bytes (take i rs)) - pos < 4096"
  using lookup_seek [OF assms] by (simp add: INTERVAL_BYTES_def)

text \<open>
  \<open>max_bytes\<close> as \<open>append\<close> enforces it: a segment that holds at most \<open>max_bytes\<close> bytes or
  only one record stays such a segment when a record it has room for is appended. A segment of
  several records never exceeds \<open>max_bytes\<close>.
\<close>

theorem soft_limit_kept:
  assumes "seg_ok s rs d" and "\<not> sg_closed s" and "rec_offset r = sg_next s" and "encodable r"
    and "has_room_for s r" and "int (sg_pos s) \<le> sg_max s \<or> length rs = 1"
  shows "\<exists>s' d'. seg_append s r d = (Inr (sg_pos s), s', d') \<and> seg_ok s' (rs @ [r]) d'
    \<and> (int (sg_pos s') \<le> sg_max s' \<or> length (rs @ [r]) = 1)"
proof -
  from seg_append_ok [OF assms(1,2,3,4,5)] obtain s' d' where
    a: "seg_append s r d = (Inr (sg_pos s), s', d')" "seg_ok s' (rs @ [r]) d'" "sg_max s' = sg_max s"
    by metis
  have "int (sg_pos s') \<le> sg_max s' \<or> rs = []"
    using seg_ok_fields(3) [OF a(2)] seg_ok_fields(3) [OF assms(1)] a(3) assms(5)
      length_rec_bytes_ge [of rs]
    by (cases rs) (auto simp: has_room_for_def split: if_split_asm)
  with a show ?thesis by auto
qed

section \<open>A concrete segment\<close>

text \<open>
  A directory with one log file: the sample record and three bytes of a record a crash tore off. Its
  index file is missing.
\<close>

definition sample_dir :: dir where
  "sample_dir = [(log_name 7, \<lparr>fl_data = sample_bytes @ [1, 2, 3], fl_synced = 33, fl_broken = False\<rparr>)]"

lemma sample_sequential: "sequential 7 [sample_record]"
  using sample_frame by (simp add: sample_record_def)

lemma sample_recoverable: "recoverable 7 (file_data (log_name 7) sample_dir) [sample_record]"
  using sample_sequential
  by (auto simp: recoverable_def sample_dir_def file_data_def sample_frame read_one_def PREFIX_SIZE_def
      intro!: exI [of _ "[1, 2, 3]"])

lemma sample_small: "int (length (file_data (log_name 7) sample_dir)) \<le> MAX_U32 + 1"
  by (simp add: sample_dir_def file_data_def MAX_U32_def)

theorem recovery_decides_witness:
  "\<exists>s d'. seg_open 7 1024 sample_dir = (Inr s, d') \<and> file_data (log_name 7) d' = sample_bytes
     \<and> sg_next s = 8 \<and> sg_pos s = 33"
proof -
  have "0 < (1024 :: int)" "1024 \<le> MAX_U32 + 1" by (simp_all add: MAX_U32_def)
  from recovery_decides [OF this sample_small] sample_recoverable
  obtain s d' where "seg_open 7 1024 sample_dir = (Inr s, d')" "file_data (log_name 7) d' = rec_bytes [sample_record]"
    "sg_next s = 7 + int (length [sample_record])" "sg_pos s = length (rec_bytes [sample_record])" by blast
  then show ?thesis by (auto simp: sample_frame)
qed

lemma sample_segment:
  obtains s d where "seg_open 7 1024 sample_dir = (Inr s, d)" "seg_ok s [sample_record] d"
    "sg_base s = 7" "sg_max s = 1024" "\<not> sg_closed s"
proof -
  have "0 < (1024 :: int)" "1024 \<le> MAX_U32 + 1" by (simp_all add: MAX_U32_def)
  from seg_open_recoverable [OF this sample_small sample_recoverable] show ?thesis
    using that by metis
qed

theorem reopen_rebuilds_index_witness:
  "\<exists>s d s' d'. seg_open 7 1024 sample_dir = (Inr s, d) \<and> seg_open 7 1024 d = (Inr s', d')
     \<and> ix_entries (sg_index s') = ix_entries (sg_index s)"
proof -
  obtain s d where s: "seg_open 7 1024 sample_dir = (Inr s, d)" "seg_ok s [sample_record] d"
    "sg_base s = 7" "sg_max s = 1024" by (rule sample_segment)
  from reopen_rebuilds_index [OF s(2)] s(1,3,4) show ?thesis
    by (auto simp: sample_frame MAX_U32_def)
qed

text \<open>A segment whose index promises the end of the file, where no record is.\<close>

definition stale_segment :: segment where
  "stale_segment = \<lparr>sg_base = 7, sg_max = 1024, sg_index = \<lparr>ix_path = index_name 7, ix_base = 7,
     ix_interval = 4096, ix_entries = [(0, 33)], ix_buffer = [], ix_closed = False\<rparr>,
     sg_next = 8, sg_pos = 33, sg_closed = False\<rparr>"


theorem seek_within_interval_witness:
  "\<exists>s d h pos. seg_open 7 1024 sample_dir = (Inr s, d) \<and> lookup (sg_index s) 7 = (h, pos) \<and> pos = 0"
proof -
  obtain s d where s: "seg_open 7 1024 sample_dir = (Inr s, d)" "seg_ok s [sample_record] d" "sg_base s = 7"
    by (rule sample_segment)
  obtain h pos where l: "lookup (sg_index s) 7 = (h, pos)" by (meson surj_pair)
  with seek_within_interval [OF s(2), of 0 h pos] s show ?thesis by simp
qed

theorem soft_limit_kept_witness:
  "\<exists>s d s' d'. seg_open 7 1024 sample_dir = (Inr s, d)
     \<and> seg_append s (sample_record\<lparr>rec_offset := 8\<rparr>) d = (Inr 33, s', d') \<and> int (sg_pos s') \<le> 1024"
proof -
  let ?r = "sample_record\<lparr>rec_offset := 8\<rparr>"
  obtain s d where s: "seg_open 7 1024 sample_dir = (Inr s, d)" "seg_ok s [sample_record] d"
    "sg_base s = 7" "sg_max s = 1024" "\<not> sg_closed s" by (rule sample_segment)
  note f = seg_ok_fields [OF s(2)]
  have r: "rec_offset ?r = sg_next s" "encodable ?r" "rec_size ?r = 33"
    using f(2) s(3) sample_frame(2)
    by (simp_all add: encodable_def payload_size_def in_i64_def rec_size_payload PREFIX_SIZE_def
        sample_record_def field_bytes_def)
  have room: "has_room_for s ?r" "sg_pos s = 33"
    using f(3) r(3) s(4) by (simp_all add: has_room_for_def sample_frame)
  obtain s' d' where "seg_append s ?r d = (Inr (sg_pos s), s', d')" "seg_ok s' ([sample_record] @ [?r]) d'"
    using soft_limit_kept [OF s(2,5) r(1,2) room(1)] by auto
  moreover from seg_ok_fields(3) [OF this(2)] r(3) have "sg_pos s' = 66" by (simp add: sample_frame)
  ultimately show ?thesis using s(1) room(2) by auto
qed

end
