(* ===== verification/Record_Log.thy ===== *)
theory Record_Log
  imports Log_Record
begin

text \<open>
  The contract of an append-only log, as the layers above use it: a state that holds a list of
  records from a base offset on, an \<open>append\<close> that either acknowledges the next offset and adds one
  record or fails and adds none, and a \<open>read\<close> that yields the records from an offset on. The lemmas
  follow a whole run of appends, in whatever order the lock admitted them.
\<close>

fun run_appends :: "('s \<Rightarrow> 'm \<Rightarrow> offset result \<times> 's) \<Rightarrow> 's \<Rightarrow> 'm list \<Rightarrow> offset result list \<times> 's" where
  "run_appends app s [] = ([], s)"
| "run_appends app s (m # ms) =
     (let (res, s1) = app s m; (ress, s2) = run_appends app s1 ms in (res # ress, s2))"

text \<open>The acknowledged messages of a run with their offsets.\<close>

fun acked :: "offset result list \<Rightarrow> 'm list \<Rightarrow> (offset \<times> 'm) list" where
  "acked (Inr off # ress) (m # ms) = (off, m) # acked ress ms"
| "acked (Inl e # ress) (m # ms) = acked ress ms"
| "acked _ _ = []"

lemma run_appends_length: "run_appends app s ms = (ress, s') \<Longrightarrow> length ress = length ms"
  by (induction ms arbitrary: s ress) (auto split: prod.splits)

locale record_log =
  fixes holds :: "'s \<Rightarrow> offset \<Rightarrow> log_record list \<Rightarrow> bool"
    and append :: "'s \<Rightarrow> 'm \<Rightarrow> offset result \<times> 's"
    and read :: "'s \<Rightarrow> offset \<Rightarrow> (log_record list \<times> py_error option) result"
    and stamp :: "offset \<Rightarrow> 'm \<Rightarrow> log_record"
  assumes append_acked: "holds s b rs \<Longrightarrow> append s m = (Inr off, s') \<Longrightarrow>
      off = b + int (length rs) \<and> holds s' b (rs @ [stamp off m])"
    and append_failed: "holds s b rs \<Longrightarrow> append s m = (Inl e, s') \<Longrightarrow> holds s' b rs"
    and read_held: "holds s b rs \<Longrightarrow> b \<le> off \<Longrightarrow> read s off = Inr (drop (nat (off - b)) rs, None)"
begin

lemma run_acked:
  assumes "holds s b rs" "run_appends append s ms = (ress, s')"
  shows "holds s' b (rs @ map (\<lambda>(off, m). stamp off m) (acked ress ms))
    \<and> map fst (acked ress ms) = map (\<lambda>i. b + int i) [length rs ..< length rs + length (acked ress ms)]"
  using assms
proof (induction ms arbitrary: s rs ress)
  case (Cons m ms)
  obtain res s1 where one: "append s m = (res, s1)" by (meson surj_pair)
  obtain rest where rest: "run_appends append s1 ms = (rest, s')" "ress = res # rest"
    using Cons.prems(2) one by (auto split: prod.splits)
  show ?case
  proof (cases res)
    case (Inl e)
    with append_failed [OF Cons.prems(1)] one have "holds s1 b rs" by simp
    from Cons.IH [OF this rest(1)] show ?thesis using rest(2) Inl by simp
  next
    case (Inr off)
    with append_acked [OF Cons.prems(1)] one
    have s1: "off = b + int (length rs)" "holds s1 b (rs @ [stamp off m])" by auto
    from Cons.IH [OF s1(2) rest(1)] show ?thesis
      using rest(2) Inr s1(1) by (simp add: upt_conv_Cons del: upt_Suc)
  qed
qed simp

text \<open>What was acknowledged at an offset is what a later read from there yields first.\<close>

lemma read_acked:
  assumes "holds s b rs" "run_appends append s ms = (ress, s')" "(off, m) \<in> set (acked ress ms)"
  shows "\<exists>more. read s' off = Inr (stamp off m # more, None)"
proof -
  let ?ak = "acked ress ms"
  from run_acked [OF assms(1,2)] have run: "holds s' b (rs @ map (\<lambda>(off, m). stamp off m) ?ak)"
    "map fst ?ak = map (\<lambda>i. b + int i) [length rs ..< length rs + length ?ak]" by auto
  from assms(3) obtain i where i: "i < length ?ak" "?ak ! i = (off, m)" by (auto simp: in_set_conv_nth)
  have off: "off = b + int (length rs + i)"
    using arg_cong [OF run(2), of "\<lambda>xs. xs ! i"] i by simp
  then have "drop (nat (off - b)) (rs @ map (\<lambda>(off, m). stamp off m) ?ak)
      = stamp off m # drop (Suc i) (map (\<lambda>(off, m). stamp off m) ?ak)"
    using i by (simp add: nat_int_add drop_map flip: Cons_nth_drop_Suc)
  with read_held [OF run(1), of off] off show ?thesis by simp
qed

text \<open>Reads are stable: what was read once is a prefix of every later read from the same offset.\<close>

lemma read_grows:
  assumes "holds s b rs" "run_appends append s ms = (ress, s')" "b \<le> off" "off \<le> b + int (length rs)"
  shows "\<exists>old new. read s off = Inr (old, None) \<and> read s' off = Inr (old @ new, None)"
proof -
  from run_acked [OF assms(1,2)] have "holds s' b (rs @ map (\<lambda>(off, m). stamp off m) (acked ress ms))" ..
  from read_held [OF this assms(3)] read_held [OF assms(1,3)] assms(4) show ?thesis by simp
qed

end

end
