(* ===== verification/Part_Log.thy ===== *)
theory Part_Log
  imports Log_Segment Record_Log
begin

text \<open>
  \<open>storage/log.py\<close>: one partition, an ordered chain of segments of which only the last is written.
  \<open>log_open\<close> is the constructor; \<open>log_append\<close>, \<open>log_roll\<close>, \<open>log_read_from\<close>, \<open>log_sync\<close> and
  \<open>log_close\<close> are the methods, each one critical section of the lock. The lemmas refine the chain to
  one list of records with consecutive offsets.
\<close>

section \<open>State and operations\<close>

record part_log =
  lg_max :: int
  lg_segments :: "segment list"

text \<open>
  The base offsets of \<open>directory.glob("*.log")\<close>, sorted: the stem of every such name goes through
  \<open>int\<close>, which raises \<open>ValueError\<close> on anything that is no number.
\<close>

definition is_log_name :: "string \<Rightarrow> bool" where
  "is_log_name p \<longleftrightarrow> 4 \<le> length p \<and> drop (length p - 4) p = ''.log''"

definition stem :: "string \<Rightarrow> string" where
  "stem p = take (length p - 4) p"

fun parse_all :: "string list \<Rightarrow> int list result" where
  "parse_all [] = Inr []"
| "parse_all (t # ts) =
     (case py_int t of
        None \<Rightarrow> Inl ValueError
      | Some n \<Rightarrow> bind_result (parse_all ts) (\<lambda>ns. Inr (n # ns)))"

definition log_bases :: "dir \<Rightarrow> offset list result" where
  "log_bases d =
     bind_result (parse_all (map stem (filter is_log_name (map fst d))))
       (\<lambda>ns. let bases = sort ns in Inr (if bases = [] then [0] else bases))"

fun open_segments :: "int \<Rightarrow> offset list \<Rightarrow> dir \<Rightarrow> segment list result \<times> dir" where
  "open_segments mx [] d = (Inr [], d)"
| "open_segments mx (b # bs) d =
     (case seg_open b mx d of
        (Inl e, d1) \<Rightarrow> (Inl e, d1)
      | (Inr s, d1) \<Rightarrow>
          (case open_segments mx bs d1 of
             (Inl e, d2) \<Rightarrow> (Inl e, d2)
           | (Inr ss, d2) \<Rightarrow> (Inr (s # ss), d2)))"

fun chain_ok :: "segment list \<Rightarrow> bool" where
  "chain_ok (prev # cur # ss) = (sg_base cur = sg_next prev \<and> chain_ok (cur # ss))"
| "chain_ok _ = True"

text \<open>\<open>for seg in segments[:-1]: seg.close()\<close>: the first failing close ends the loop.\<close>

fun seal_all :: "segment list \<Rightarrow> dir \<Rightarrow> segment list result \<times> dir" where
  "seal_all (s # s' # ss) d =
     (case seg_close s d of
        (Inl e, s1, d1) \<Rightarrow> (Inl e, d1)
      | (Inr u, s1, d1) \<Rightarrow>
          (case seal_all (s' # ss) d1 of
             (Inl e, d2) \<Rightarrow> (Inl e, d2)
           | (Inr ss', d2) \<Rightarrow> (Inr (s1 # ss'), d2)))"
| "seal_all ss d = (Inr ss, d)"

definition log_open :: "int \<Rightarrow> dir \<Rightarrow> part_log result \<times> dir" where
  "log_open mx d =
     (case log_bases d of
        Inl e \<Rightarrow> (Inl e, d)
      | Inr bases \<Rightarrow>
          (case open_segments mx bases d of
             (Inl e, d1) \<Rightarrow> (Inl e, d1)
           | (Inr segs, d1) \<Rightarrow>
               if \<not> chain_ok segs then (Inl CorruptLog, d1)
               else
                 (case seal_all segs d1 of
                    (Inl e, d2) \<Rightarrow> (Inl e, d2)
                  | (Inr segs', d2) \<Rightarrow> (Inr \<lparr>lg_max = mx, lg_segments = segs'\<rparr>, d2))))"

definition active :: "part_log \<Rightarrow> segment" where
  "active lg = last (lg_segments lg)"

definition set_active :: "segment \<Rightarrow> part_log \<Rightarrow> part_log" where
  "set_active s lg = lg\<lparr>lg_segments := butlast (lg_segments lg) @ [s]\<rparr>"

definition log_next :: "part_log \<Rightarrow> offset" where
  "log_next lg = sg_next (active lg)"

definition log_roll :: "part_log \<Rightarrow> dir \<Rightarrow> unit result \<times> part_log \<times> dir" where
  "log_roll lg d =
     (if sg_pos (active lg) = 0 then (Inr (), lg, d)
      else
        (case seg_close (active lg) d of
           (Inl e, s1, d1) \<Rightarrow> (Inl e, set_active s1 lg, d1)
         | (Inr u, s1, d1) \<Rightarrow>
             let lg1 = set_active s1 lg
             in (case seg_open (log_next lg1) (lg_max lg1) d1 of
                   (Inl e, d2) \<Rightarrow> (Inl e, lg1, d2)
                 | (Inr s2, d2) \<Rightarrow> (Inr (), lg1\<lparr>lg_segments := lg_segments lg1 @ [s2]\<rparr>, d2))))"

text \<open>\<open>now_ns\<close> is what \<open>time.time_ns()\<close> returns, read only when no timestamp is given.\<close>

definition log_append ::
  "part_log \<Rightarrow> bytes option \<Rightarrow> bytes option \<Rightarrow> int option \<Rightarrow> int \<Rightarrow> dir \<Rightarrow> offset result \<times> part_log \<times> dir" where
  "log_append lg key val ts now_ns d =
     (let off = log_next lg;
          timestamp = (case ts of None \<Rightarrow> now_ns div 1000000 | Some t \<Rightarrow> t);
          r = \<lparr>rec_offset = off, rec_timestamp = timestamp, rec_key = key, rec_value = val\<rparr>
      in case (if \<not> has_room_for (active lg) r then log_roll lg d else (Inr (), lg, d)) of
           (Inl e, lg1, d1) \<Rightarrow> (Inl e, lg1, d1)
         | (Inr u, lg1, d1) \<Rightarrow>
             (case seg_append (active lg1) r d1 of
                (Inl e, s, d2) \<Rightarrow> (Inl e, set_active s lg1, d2)
              | (Inr p, s, d2) \<Rightarrow> (Inr off, set_active s lg1, d2)))"

fun iter_segments :: "offset \<Rightarrow> segment list \<Rightarrow> dir \<Rightarrow> reading" where
  "iter_segments off [] d = ([], None)"
| "iter_segments off (s # ss) d =
     (case seg_read_from s (max off (sg_base s)) d of
        Inl e \<Rightarrow> ([], Some e)
      | Inr (rs, Some e) \<Rightarrow> (rs, Some e)
      | Inr (rs, None) \<Rightarrow> (let (rs', err) = iter_segments off ss d in (rs @ rs', err)))"

definition log_iter_from :: "part_log \<Rightarrow> offset \<Rightarrow> dir \<Rightarrow> reading" where
  "log_iter_from lg off d =
     (let segs = lg_segments lg;
          start = bisect_right (map sg_base segs) off - 1
      in iter_segments off (drop start segs) d)"

definition log_read_from :: "part_log \<Rightarrow> offset \<Rightarrow> dir \<Rightarrow> reading result" where
  "log_read_from lg off d =
     (if off < sg_base (hd (lg_segments lg)) then Inl OffsetOutOfRange
      else Inr (log_iter_from lg off d))"

definition log_sync :: "part_log \<Rightarrow> dir \<Rightarrow> unit result \<times> part_log \<times> dir" where
  "log_sync lg d =
     (case seg_sync (active lg) d of (res, s, d1) \<Rightarrow> (res, set_active s lg, d1))"

fun close_segments :: "segment list \<Rightarrow> dir \<Rightarrow> py_error list \<times> segment list \<times> dir" where
  "close_segments [] d = ([], [], d)"
| "close_segments (s # ss) d =
     (case seg_close s d of
        (res, s1, d1) \<Rightarrow>
          (case close_segments ss d1 of
             (errs, ss', d2) \<Rightarrow> ((case res of Inl e \<Rightarrow> e # errs | Inr u \<Rightarrow> errs), s1 # ss', d2)))"

definition log_close :: "part_log \<Rightarrow> dir \<Rightarrow> unit result \<times> part_log \<times> dir" where
  "log_close lg d =
     (case close_segments (lg_segments lg) d of
        (errs, segs, d1) \<Rightarrow>
          (if errs \<noteq> [] then Inl (ExceptionGroup errs) else Inr (), lg\<lparr>lg_segments := segs\<rparr>, d1))"

section \<open>Segments beside each other\<close>

lemma seg_files_disjoint: "a \<noteq> b \<Longrightarrow> seg_files a \<inter> seg_files b = {}"
  by (auto simp: seg_files_def)

lemma seg_ok_other:
  assumes "seg_ok s rs d" "only_touches ps d d'" "seg_files (sg_base s) \<inter> ps = {}"
  shows "seg_ok s rs d'"
proof -
  have "log_name (sg_base s) \<notin> ps" "index_name (sg_base s) \<notin> ps"
    using assms(3) by (auto simp: seg_files_def)
  with assms(2) have "file_data (log_name (sg_base s)) d' = file_data (log_name (sg_base s)) d"
    "file_exists (log_name (sg_base s)) d' = file_exists (log_name (sg_base s)) d"
    "file_data (index_name (sg_base s)) d' = file_data (index_name (sg_base s)) d"
    "file_exists (index_name (sg_base s)) d' = file_exists (index_name (sg_base s)) d"
    by (auto simp: only_touches_def file_data_def file_exists_def)
  with assms(1) show ?thesis
    by (auto simp: seg_ok_def built_def index_file_ok_def)
qed

lemma index_sync_healthy:
  assumes "built ix d xs" "\<not> ix_closed ix" "healthy d"
  shows "\<exists>ix' d'. index_sync ix d = (Inr (), ix', d')"
proof -
  have "file_exists (ix_path ix) (write_end (ix_path ix) (ix_buffer ix) d)"
    using assms(1) by (simp add: built_def index_file_ok_def dir_ops_keep)
  from fsync_healthy [OF dir_ops_healthy(2) [OF assms(3)] this] assms(2) show ?thesis
    by (auto simp: index_sync_def index_flush_def)
qed

lemma seg_sync_healthy:
  assumes ok: "seg_ok s rs d" and "\<not> sg_closed s" "healthy d"
  shows "\<exists>s' d'. seg_sync s d = (Inr (), s', d')"
proof -
  note f = seg_ok_fields [OF ok]
  obtain d1 where d1: "fsync (log_name (sg_base s)) d = (Inr (), d1)"
    using fsync_healthy [OF assms(3) f(5)] by blast
  have "built (sg_index s) d1 (starts rs)"
    using built_same_file [OF f(6)] fsync_keeps(1,2) [OF d1] by simp
  moreover have "\<not> ix_closed (sg_index s)" using ok assms(2) by (auto simp: seg_ok_def)
  moreover have "healthy d1" using dir_ops_healthy(4) [OF assms(3), of "log_name (sg_base s)"] d1 by simp
  ultimately show ?thesis using index_sync_healthy d1 assms(2) by (fastforce simp: seg_sync_def)
qed

lemma seg_close_healthy:
  assumes ok: "seg_ok s rs d" and "healthy d"
  shows "\<exists>s' d'. seg_close s d = (Inr (), s', d')"
proof (cases "sg_closed s")
  case False
  obtain s1 d1 where s1: "seg_sync s d = (Inr (), s1, d1)"
    using seg_sync_healthy [OF ok False assms(2)] by blast
  note ok1 = seg_sync_ok [OF ok s1]
  then have "\<not> ix_closed (sg_index s1)" "built (sg_index s1) d1 (starts rs)" "healthy d1"
    using False assms(2) by (auto simp: seg_ok_def only_touches_def)
  from index_sync_healthy [OF this(2,1,3)] \<open>\<not> ix_closed (sg_index s1)\<close> s1 False show ?thesis
    by (auto simp: seg_close_def index_close_def Let_def)
qed (simp add: seg_close_def)

section \<open>The directory\<close>

lemma is_log_name_log [simp]: "is_log_name (log_name b)"
  by (simp add: is_log_name_def log_name_def)

lemma stem_log_name [simp]: "stem (log_name b) = fmt020 b"
  by (simp add: stem_def log_name_def)

lemma not_log_index [simp]: "\<not> is_log_name (index_name b)"
proof -
  have "last (index_name b) \<noteq> CHR ''g''" by (simp add: index_name_def)
  moreover have "last p = CHR ''g''" if "is_log_name p" for p
  proof -
    have p: "p = take (length p - 4) p @ ''.log''"
      using that by (metis append_take_drop_id is_log_name_def)
    show ?thesis by (subst p) simp
  qed
  ultimately show ?thesis by blast
qed

lemma parse_all_ok: "list_all2 (\<lambda>t n. py_int t = Some n) ts ns \<Longrightarrow> parse_all ts = Inr ns"
  by (induction rule: list_all2_induct) auto

text \<open>\<open>tidy d bs\<close>: the log files of the directory are those of the base offsets \<open>bs\<close>.\<close>

definition tidy :: "dir \<Rightarrow> offset list \<Rightarrow> bool" where
  "tidy d bs \<longleftrightarrow> distinct (map fst d) \<and> sorted_wrt (<) bs
     \<and> (\<forall>q. is_log_name q \<longrightarrow> (file_exists q d \<longleftrightarrow> (\<exists>b \<in> set bs. q = log_name b)))"

lemma file_exists_key: "file_exists q d \<longleftrightarrow> q \<in> fst ` set d"
  by (auto simp: file_exists_def map_of_eq_None_iff)

lemma log_bases_tidy:
  assumes "tidy d bs" "bs \<noteq> []"
  shows "log_bases d = Inr bs"
proof -
  let ?names = "filter is_log_name (map fst d)"
  have names: "set ?names = log_name ` set bs" and dist: "distinct ?names"
    using assms(1) by (auto simp: tidy_def file_exists_key)
  define ns where "ns = map (\<lambda>q. the (py_int (stem q))) ?names"
  have "list_all2 (\<lambda>t n. py_int t = Some n) (map stem ?names) ns"
  proof -
    have "\<forall>q \<in> set ?names. \<exists>b. q = log_name b" using names by blast
    then show ?thesis
      unfolding ns_def list_all2_map1 list_all2_map2 list_all2_same by (metis option.sel py_int_fmt020 stem_log_name)
  qed
  then have parse: "parse_all (map stem ?names) = Inr ns" by (rule parse_all_ok)
  have "set ns = (\<lambda>q. the (py_int (stem q))) ` log_name ` set bs" unfolding ns_def names [symmetric] by auto
  then have set_ns: "set ns = set bs" by (simp add: image_image)
  have "inj_on (\<lambda>q. the (py_int (stem q))) (set ?names)" unfolding names by (auto simp: inj_on_def)
  then have "distinct ns" using dist by (simp add: ns_def distinct_map)
  then have "sort ns = bs"
    using set_ns assms(1) by (intro sorted_distinct_set_unique) (auto simp: tidy_def strict_sorted_iff)
  with assms(2) parse show ?thesis by (simp add: log_bases_def Let_def)
qed

lemma tidy_touch:
  assumes "tidy d bs" "only_touches (seg_files b) d d'" "b \<in> set bs"
  shows "tidy d' bs"
proof -
  have "file_exists q d' = file_exists q d" if "is_log_name q" for q
  proof (cases "q = log_name b")
    case True
    with assms have "file_exists q d" by (auto simp: tidy_def)
    with assms(2) show ?thesis by (auto simp: only_touches_def)
  next
    case False
    with that have "q \<notin> seg_files b" by (auto simp: seg_files_def)
    with assms(2) show ?thesis by (simp add: only_touches_def file_exists_def)
  qed
  with assms(1,2) show ?thesis by (auto simp: tidy_def only_touches_def)
qed

lemma tidy_new:
  assumes "tidy d bs" "only_touches (seg_files b) d d'" "file_exists (log_name b) d'" "\<forall>a \<in> set bs. a < b"
  shows "tidy d' (bs @ [b])"
proof -
  have "file_exists q d' \<longleftrightarrow> (\<exists>a \<in> set (bs @ [b]). q = log_name a)" if "is_log_name q" for q
  proof (cases "q = log_name b")
    case False
    with that have "q \<notin> seg_files b" by (auto simp: seg_files_def)
    with assms(1,2) that False show ?thesis by (auto simp: tidy_def only_touches_def file_exists_def)
  qed (use assms(3) in auto)
  with assms show ?thesis by (auto simp: tidy_def only_touches_def sorted_wrt_append)
qed

section \<open>The invariant\<close>

text \<open>
  A sealed segment is closed, not empty, and on the platter to its last byte. \<open>log_ok lg qs p d\<close>: the
  sealed segments hold the record lists \<open>qs\<close> and the active one holds \<open>p\<close>.
\<close>

definition small :: "log_record list \<Rightarrow> bool" where
  "small p \<longleftrightarrow> int (length (rec_bytes p)) \<le> MAX_U32 + 1"

definition sealed_ok :: "int \<Rightarrow> dir \<Rightarrow> segment \<Rightarrow> log_record list \<Rightarrow> bool" where
  "sealed_ok mx d s p \<longleftrightarrow> seg_ok s p d \<and> sg_max s = mx \<and> small p \<and> sg_closed s \<and> p \<noteq> []
     \<and> synced_len (log_name (sg_base s)) d = length (rec_bytes p)"

definition log_ok :: "part_log \<Rightarrow> log_record list list \<Rightarrow> log_record list \<Rightarrow> dir \<Rightarrow> bool" where
  "log_ok lg qs p d \<longleftrightarrow>
     (\<exists>ss a. lg_segments lg = ss @ [a] \<and> list_all2 (sealed_ok (lg_max lg) d) ss qs
        \<and> seg_ok a p d \<and> sg_max a = lg_max lg \<and> small p
        \<and> chain_ok (ss @ [a]) \<and> tidy d (map sg_base (ss @ [a])))"

lemma chain_ok_append:
  "chain_ok (ss @ s # ts) \<longleftrightarrow> chain_ok (ss @ [s]) \<and> chain_ok (s # ts)"
  by (induction ss rule: chain_ok.induct) auto

lemma chain_ok_snoc: "chain_ok (ss @ [s, t]) \<longleftrightarrow> chain_ok (ss @ [s]) \<and> sg_base t = sg_next s"
  by (simp add: chain_ok_append [of ss s "[t]"])

lemma chain_sequential:
  assumes "list_all2 (\<lambda>s p. seg_ok s p d) ss ps" "chain_ok ss" "ss \<noteq> []"
  shows "sequential (sg_base (hd ss)) (concat ps)
    \<and> sg_next (last ss) = sg_base (hd ss) + int (length (concat ps))"
  using assms
proof (induction ss ps rule: list_all2_induct)
  case (Cons s ss p ps)
  note f = seg_ok_fields [OF Cons.hyps(1)]
  show ?case
  proof (cases ss)
    case Nil
    with Cons f show ?thesis by simp
  next
    case (Cons s' ss')
    with Cons.prems(1) have "chain_ok ss" "sg_base s' = sg_next s" by auto
    with Cons.IH Cons f show ?thesis by simp
  qed
qed simp

lemma list_all2_take_drop:
  "list_all2 P xs ys \<Longrightarrow> list_all2 P (take k xs) (take k ys) \<and> list_all2 P (drop k xs) (drop k ys)"
  by (simp add: list_all2_takeI list_all2_dropI)

lemma chain_ok_prefix: "chain_ok (xs @ ys) \<Longrightarrow> chain_ok xs"
  by (induction xs rule: chain_ok.induct) auto

lemma chain_take: "chain_ok ss \<Longrightarrow> chain_ok (take k ss)"
  by (metis append_take_drop_id chain_ok_prefix)

text \<open>The offsets of the records before a segment are below its base.\<close>

lemma chain_below:
  assumes "list_all2 (\<lambda>s p. seg_ok s p d) ss ps" "chain_ok ss" "i < length ss" "r \<in> set (concat (take i ps))"
  shows "rec_offset r < sg_base (ss ! i)"
proof -
  have i: "0 < i" using assms(4) by (cases i) auto
  have t: "list_all2 (\<lambda>s p. seg_ok s p d) (take i ss) (take i ps)" "chain_ok (take i ss)" "take i ss \<noteq> []"
    using assms i by (auto intro: list_all2_takeI chain_take)
  have "rec_offset r < sg_next (last (take i ss))"
    using sequential_bounds [OF conjunct1 [OF chain_sequential [OF t]] assms(4)] chain_sequential [OF t] by simp
  moreover have "last (take i ss) = ss ! (i - 1)"
    using i assms(3) by (cases i) (auto simp: take_Suc_conv_app_nth)
  moreover have "sg_base (ss ! i) = sg_next (ss ! (i - 1))"
  proof -
    have "ss = take (i - 1) ss @ ss ! (i - 1) # ss ! i # drop (Suc i) ss"
      using i assms(3) by (metis Cons_nth_drop_Suc Suc_pred' append_take_drop_id less_imp_diff_less)
    with assms(2) have "chain_ok (ss ! (i - 1) # ss ! i # drop (Suc i) ss)" by (metis chain_ok_append)
    then show ?thesis by simp
  qed
  ultimately show ?thesis by simp
qed

text \<open>Different record lists give different bases, in order.\<close>

lemma chain_sorted:
  assumes "list_all2 (\<lambda>s p. seg_ok s p d) ss ps" "chain_ok ss" "\<forall>p \<in> set (butlast ps). p \<noteq> []"
  shows "sorted_wrt (<) (map sg_base ss)"
  using assms
proof (induction ss ps rule: list_all2_induct)
  case (Cons s ss p ps)
  show ?case
  proof (cases ss)
    case (Cons s' ss')
    with Cons.hyps(2) obtain p' ps' where ps: "ps = p' # ps'" by (auto simp: list_all2_Cons1)
    with Cons.prems Cons have p: "p \<noteq> []" "chain_ok ss" "sg_base s' = sg_next s"
      "\<forall>p \<in> set (butlast ps). p \<noteq> []" by auto
    have "sg_base s < sg_base s'" using p(1,3) seg_ok_fields(2) [OF Cons.hyps(1)] by simp
    with Cons.IH [OF p(2,4)] Cons show ?thesis by auto
  qed simp
qed simp

lemma log_okE:
  assumes "log_ok lg qs p d"
  obtains ss a where "lg_segments lg = ss @ [a]" "list_all2 (sealed_ok (lg_max lg) d) ss qs"
    "seg_ok a p d" "sg_max a = lg_max lg" "small p" "chain_ok (ss @ [a])" "tidy d (map sg_base (ss @ [a]))"
    "active lg = a" "list_all2 (\<lambda>s p. seg_ok s p d) (ss @ [a]) (qs @ [p])" "\<forall>q \<in> set qs. q \<noteq> []"
    "a \<notin> set ss" "\<forall>s \<in> set ss. sg_base s < sg_base a"
proof -
  from assms obtain ss a where *: "lg_segments lg = ss @ [a]" "list_all2 (sealed_ok (lg_max lg) d) ss qs"
    "seg_ok a p d" "sg_max a = lg_max lg" "small p" "chain_ok (ss @ [a])" "tidy d (map sg_base (ss @ [a]))"
    by (auto simp: log_ok_def)
  have "list_all2 (\<lambda>s p. seg_ok s p d) ss qs"
    using *(2) by (rule list_all2_mono) (simp add: sealed_ok_def)
  moreover have "\<forall>q \<in> set qs. q \<noteq> []"
    using *(2) by (auto simp: list_all2_conv_all_nth in_set_conv_nth sealed_ok_def)
  moreover have "\<forall>s \<in> set ss. sg_base s < sg_base a"
    using *(7) by (auto simp: tidy_def sorted_wrt_append)
  moreover from this have "a \<notin> set ss" by blast
  moreover from calculation(1) *(3) have "list_all2 (\<lambda>s p. seg_ok s p d) (ss @ [a]) (qs @ [p])"
    by (intro list_all2_appendI) simp_all
  moreover have "active lg = a" using *(1) by (simp add: active_def)
  ultimately show ?thesis using * that by blast
qed

abbreviation log_base :: "part_log \<Rightarrow> offset" where
  "log_base lg \<equiv> sg_base (hd (lg_segments lg))"

lemma log_ok_records:
  assumes "log_ok lg qs p d"
  shows "sequential (log_base lg) (concat qs @ p)"
    and "log_next lg = log_base lg + int (length (concat qs @ p))"
proof -
  from log_okE [OF assms] obtain ss a where
    *: "lg_segments lg = ss @ [a]" "list_all2 (\<lambda>s p. seg_ok s p d) (ss @ [a]) (qs @ [p])" "chain_ok (ss @ [a])"
    by metis
  from chain_sequential [OF *(2,3)] *(1)
  show "sequential (log_base lg) (concat qs @ p)"
    "log_next lg = log_base lg + int (length (concat qs @ p))"
    by (simp_all add: log_next_def active_def)
qed

section \<open>Reading the chain\<close>

lemma iter_segments_filter:
  assumes "list_all2 (\<lambda>s p. seg_ok s p d) ss ps"
  shows "iter_segments off ss d = (filter (\<lambda>r. off \<le> rec_offset r) (concat ps), None)"
  using assms
proof (induction ss ps rule: list_all2_induct)
  case (Cons s ss p ps)
  have le: "sg_base s \<le> max off (sg_base s)" by simp
  note f = seg_ok_fields [OF Cons.hyps(1)]
  have "drop (nat (max off (sg_base s) - sg_base s)) p = filter (\<lambda>r. max off (sg_base s) \<le> rec_offset r) p"
    by (rule sequential_filter [OF f(1) le, symmetric])
  also have "\<dots> = filter (\<lambda>r. off \<le> rec_offset r) p"
    by (rule filter_cong) (use sequential_bounds [OF f(1)] in auto)
  finally show ?case using seg_read_ok [OF Cons.hyps(1) le] Cons.IH by simp
qed simp

lemma log_read_ok:
  assumes ok: "log_ok lg qs p d" and off: "log_base lg \<le> off"
  shows "log_read_from lg off d = Inr (drop (nat (off - log_base lg)) (concat qs @ p), None)"
proof -
  from log_okE [OF ok] obtain ss a where
    s: "lg_segments lg = ss @ [a]" "list_all2 (\<lambda>s p. seg_ok s p d) (ss @ [a]) (qs @ [p])"
      "chain_ok (ss @ [a])" "tidy d (map sg_base (ss @ [a]))"
    by metis
  let ?segs = "ss @ [a]" and ?ps = "qs @ [p]"
  define n where "n = bisect_right (map sg_base ?segs) off"
  have sorted: "sorted (map sg_base ?segs)" using s(4) by (simp add: tidy_def strict_sorted_imp_sorted)
  have n: "n \<le> length ?segs" using bisect_right_le [of "map sg_base ?segs" off] by (simp add: n_def)
  have low: "filter (\<lambda>r. off \<le> rec_offset r) (concat (take (n - 1) ?ps)) = []"
  proof (cases "n - 1")
    case (Suc k)
    then have "map sg_base ?segs ! (n - 1) \<le> off" "n - 1 < length ?segs"
      using bisect_right_below [OF sorted, of "n - 1" off] n by (auto simp: n_def)
    then have "sg_base (?segs ! (n - 1)) \<le> off" by (metis nth_map)
    with chain_below [OF s(2,3) \<open>n - 1 < length ?segs\<close>] show ?thesis
      by (fastforce simp: filter_empty_conv simp del: concat_append)
  qed simp
  have "log_iter_from lg off d = iter_segments off (drop (n - 1) ?segs) d"
    by (simp add: log_iter_from_def n_def s(1))
  also have "\<dots> = (filter (\<lambda>r. off \<le> rec_offset r) (concat (drop (n - 1) ?ps)), None)"
    by (rule iter_segments_filter) (use s(2) in \<open>rule list_all2_dropI\<close>)
  also have "filter (\<lambda>r. off \<le> rec_offset r) (concat (drop (n - 1) ?ps))
      = filter (\<lambda>r. off \<le> rec_offset r) (concat ?ps)"
    using low by (metis append_Nil append_take_drop_id concat_append filter_append)
  also have "\<dots> = drop (nat (off - log_base lg)) (concat ?ps)"
    using sequential_filter [OF log_ok_records(1) [OF ok] off] by simp
  finally show ?thesis using off by (simp add: log_read_from_def)
qed

lemma log_read_below:
  "off < log_base lg \<Longrightarrow> log_read_from lg off d = Inl OffsetOutOfRange"
  by (simp add: log_read_from_def)

section \<open>Operations on the active segment\<close>

abbreviation live :: "part_log \<Rightarrow> bool" where
  "live lg \<equiv> \<not> sg_closed (active lg)"

lemma sealed_ok_disjoint:
  assumes "sealed_ok mx d s p" "only_touches ps d d'" "seg_files (sg_base s) \<inter> ps = {}"
  shows "sealed_ok mx d' s p"
proof -
  have "log_name (sg_base s) \<notin> ps" using assms(3) by (auto simp: seg_files_def)
  with assms(1) seg_ok_other [OF _ assms(2,3)] synced_len_other [OF assms(2)] show ?thesis
    by (simp add: sealed_ok_def)
qed

lemma sealed_ok_other:
  assumes "sealed_ok mx d s p" "only_touches (seg_files b) d d'" "b \<noteq> sg_base s"
  shows "sealed_ok mx d' s p"
  using assms seg_files_disjoint [of "sg_base s" b] by (intro sealed_ok_disjoint [OF assms(1,2)]) auto

lemma sealed_all_other:
  assumes "list_all2 (sealed_ok mx d) ss qs" "only_touches (seg_files b) d d'" "\<forall>s \<in> set ss. sg_base s \<noteq> b"
  shows "list_all2 (sealed_ok mx d') ss qs"
  using assms(1,3)
proof (induction rule: list_all2_induct)
  case (Cons s ss q qs)
  with assms(2) show ?case by (auto intro: sealed_ok_other [of mx d s q b d'])
qed simp

lemma log_ok_set_active:
  assumes ok: "log_ok lg qs p d" and s': "seg_ok s' p' d'" "sg_base s' = sg_base (active lg)"
    "sg_max s' = lg_max lg" "small p'" and t: "only_touches (seg_files (sg_base (active lg))) d d'"
  shows "log_ok (set_active s' lg) qs p' d'" "active (set_active s' lg) = s'"
    "log_base (set_active s' lg) = log_base lg" "lg_max (set_active s' lg) = lg_max lg"
proof -
  from log_okE [OF ok] obtain ss a where
    s: "lg_segments lg = ss @ [a]" "list_all2 (sealed_ok (lg_max lg) d) ss qs" "chain_ok (ss @ [a])"
      "tidy d (map sg_base (ss @ [a]))" "active lg = a" "\<forall>s \<in> set ss. sg_base s < sg_base a"
    by metis
  have "chain_ok (ss @ [s'])"
    using s(3,5) s'(2) by (cases ss rule: rev_cases) (auto simp: chain_ok_snoc)
  moreover have "tidy d' (map sg_base (ss @ [s']))"
    using tidy_touch [OF s(4), of "sg_base a" d'] t s(5) s'(2) by simp
  moreover have "list_all2 (sealed_ok (lg_max lg) d') ss qs"
    using sealed_all_other [OF s(2) t] s(5,6) by fastforce
  ultimately show "log_ok (set_active s' lg) qs p' d'"
    using s' s(1) by (auto simp: log_ok_def set_active_def)
  show "active (set_active s' lg) = s'" "lg_max (set_active s' lg) = lg_max lg"
    by (simp_all add: active_def set_active_def)
  show "log_base (set_active s' lg) = log_base lg"
    using s(1,5) s'(2) by (cases ss) (simp_all add: set_active_def)
qed

text \<open>
  \<open>durable lg p d off\<close>: no power cut can take a record below \<open>off\<close>. The sealed segments are on the
  platter anyway, so it is about the active one.
\<close>

definition durable :: "part_log \<Rightarrow> log_record list \<Rightarrow> dir \<Rightarrow> offset \<Rightarrow> bool" where
  "durable lg p d off \<longleftrightarrow> off \<le> log_next lg
     \<and> length (rec_bytes (take (nat (off - sg_base (active lg))) p)) \<le> synced_len (log_name (sg_base (active lg))) d"

lemma log_sync_ok:
  assumes ok: "log_ok lg qs p d" and sync: "log_sync lg d = (res, lg', d')"
  shows "log_ok lg' qs p d'" "log_base lg' = log_base lg" "sg_closed (active lg') = sg_closed (active lg)"
    "lg_max lg' = lg_max lg" "res = Inr u \<Longrightarrow> durable lg' p d' (log_next lg')" "healthy d \<Longrightarrow> healthy d'"
proof -
  from log_okE [OF ok] obtain a where a: "active lg = a" "seg_ok a p d" "sg_max a = lg_max lg" "small p"
    by metis
  obtain s' where s': "seg_sync a d = (res, s', d')" "lg' = set_active s' lg"
    using sync a(1) by (auto simp: log_sync_def split: prod.splits)
  note k = seg_sync_ok [OF a(2) s'(1)]
  note la = log_ok_set_active [OF ok, of s' p d']
  show "log_ok lg' qs p d'" "log_base lg' = log_base lg" "sg_closed (active lg') = sg_closed (active lg)"
    "lg_max lg' = lg_max lg"
    using la k a s'(2) by auto
  show "durable lg' p d' (log_next lg')" if "res = Inr u"
  proof -
    have "active lg' = s'" using la k a s'(2) by auto
    moreover have "sg_next s' = sg_base s' + int (length p)" using k by (auto dest: seg_ok_fields)
    ultimately show ?thesis
      using seg_sync_synced [OF a(2) s'(1) [unfolded that]] k by (simp add: durable_def log_next_def)
  qed
  show "healthy d'" if "healthy d" using that k by (simp add: only_touches_def)
qed

lemma log_sync_healthy:
  assumes ok: "log_ok lg qs p d" and live: "live lg" and h: "healthy d"
  shows "\<exists>lg' d'. log_sync lg d = (Inr (), lg', d') \<and> healthy d'"
proof -
  from log_okE [OF ok] have "seg_ok (active lg) p d" by metis
  from seg_sync_healthy [OF this live h] have "\<exists>lg' d'. log_sync lg d = (Inr (), lg', d')"
    by (auto simp: log_sync_def)
  with log_sync_ok(6) [OF ok] h show ?thesis by metis
qed

lemma index_sync_again:
  assumes "index_sync ix d = (Inr u, ix', d')"
  shows "\<exists>d''. index_sync ix' d' = (Inr (), ix', d'')"
  using assms
  by (auto simp: index_sync_def index_flush_def fsync_def write_end_def map_of_update_file update_file_def
      split: if_split_asm prod.splits option.splits)

lemma seg_close_error_live:
  assumes "seg_close s d = (Inl e, s', d')" "seg_ok s rs d"
  shows "\<not> sg_closed s'"
proof -
  have live: "\<not> sg_closed s" using assms(1) by (auto simp: seg_close_def)
  obtain res s1 d1 where sync: "seg_sync s d = (res, s1, d1)" by (metis prod_cases3)
  show ?thesis
  proof (cases res)
    case (Inl e')
    with sync assms live seg_sync_ok [OF assms(2) sync] show ?thesis by (auto simp: seg_close_def)
  next
    case (Inr u)
    then obtain d0 where "index_sync (sg_index s) d0 = (Inr u, sg_index s1, d1)"
      using sync live by (auto simp: seg_sync_def split: prod.splits sum.splits)
    from index_sync_again [OF this] obtain d2 where "index_sync (sg_index s1) d1 = (Inr (), sg_index s1, d2)" by blast
    with sync assms live Inr show ?thesis
      by (auto simp: seg_close_def index_close_def Let_def split: if_split_asm)
  qed
qed

section \<open>Rolling and appending\<close>

lemma fresh_segment:
  assumes "tidy d bs" "\<forall>a \<in> set bs. a < b" "0 < mx" "mx \<le> MAX_U32 + 1"
  obtains s d' where "seg_open b mx d = (Inr s, d')" "seg_ok s [] d'" "sg_base s = b" "sg_max s = mx"
    "\<not> sg_closed s" "only_touches (seg_files b) d d'" "tidy d' (bs @ [b])"
proof -
  have "\<not> file_exists (log_name b) d" using assms(1,2) by (auto simp: tidy_def)
  then have data: "file_data (log_name b) d = []" by (simp add: file_exists_def file_data_def)
  then have "recoverable b (file_data (log_name b) d) []" using recoverable_records [of b "[]"] by simp
  moreover have "int (length (file_data (log_name b) d)) \<le> MAX_U32 + 1" by (simp add: data MAX_U32_def)
  ultimately obtain s d' where s: "seg_open b mx d = (Inr s, d')" "seg_ok s [] d'" "sg_base s = b"
    "sg_max s = mx" "\<not> sg_closed s" "only_touches (seg_files b) d d'"
    using seg_open_recoverable [OF assms(3,4)] by metis
  moreover have "tidy d' (bs @ [b])"
    using tidy_new [OF assms(1) s(6)] seg_ok_fields(5) [OF s(2)] s(3) assms(2) by simp
  ultimately show ?thesis using that by blast
qed

text \<open>
  Rolling a log in use: it fails only when a device does, and then nothing has changed; otherwise
  the records are the same, all of them sealed.
\<close>

lemma log_roll_ok:
  assumes ok: "log_ok lg qs p d" and lv: "live lg" and roll: "log_roll lg d = (res, lg', d')"
  shows "\<exists>qs' p'. log_ok lg' qs' p' d' \<and> concat qs' @ p' = concat qs @ p \<and> live lg'
    \<and> log_base lg' = log_base lg \<and> lg_max lg' = lg_max lg \<and> log_next lg' = log_next lg
    \<and> (res = Inr () \<longrightarrow> p' = [] \<and> qs' = (if p = [] then qs else qs @ [p]))
    \<and> ((\<exists>e. res = Inl e) \<longrightarrow> qs' = qs \<and> p' = p \<and> sg_base (active lg') = sg_base (active lg))
    \<and> (healthy d \<longrightarrow> healthy d' \<and> res = Inr ())"
proof -
  from log_okE [OF ok] obtain ss a where
    s: "lg_segments lg = ss @ [a]" "list_all2 (sealed_ok (lg_max lg) d) ss qs" "seg_ok a p d"
      "sg_max a = lg_max lg" "small p" "chain_ok (ss @ [a])" "tidy d (map sg_base (ss @ [a]))"
      "active lg = a" "\<forall>s \<in> set ss. sg_base s < sg_base a"
    by metis
  note f = seg_ok_fields [OF s(3)]
  show ?thesis
  proof (cases "sg_pos a = 0")
    case True
    then have "p = []" using f(3) length_rec_bytes_ge [of p] by simp
    with True roll s(8) ok lv show ?thesis by (auto simp: log_roll_def)
  next
    case False
    then have p: "p \<noteq> []" using f(3) by auto
    obtain r1 s1 d1 where close: "seg_close a d = (r1, s1, d1)" by (metis prod_cases3)
    note c = seg_close_ok [OF s(3) close]
    note la = log_ok_set_active [OF ok, of s1 p d1]
    have la': "log_ok (set_active s1 lg) qs p d1" "log_base (set_active s1 lg) = log_base lg"
      "lg_max (set_active s1 lg) = lg_max lg" "active (set_active s1 lg) = s1"
      using la c s by auto
    have next1: "log_next (set_active s1 lg) = log_next lg"
      using la'(4) c s(8) by (simp add: log_next_def)
    show ?thesis
    proof (cases r1)
      case (Inl e)
      with close roll False s(8) have "res = Inl e" "lg' = set_active s1 lg" "d' = d1"
        by (auto simp: log_roll_def)
      moreover have "\<not> healthy d" using seg_close_healthy [OF s(3)] close Inl by auto
      ultimately show ?thesis
        using la' next1 seg_close_error_live [OF close [unfolded Inl] s(3)] c s(8) by auto
    next
      case (Inr u)
      let ?lg1 = "set_active s1 lg" and ?n = "log_next lg"
      have sealed: "sealed_ok (lg_max lg) d1 s1 p"
        using c s(3,4,5,8) p lv seg_close_synced [OF s(3) _ close [unfolded Inr]] Inr
        by (simp add: sealed_ok_def)
      have segs1: "lg_segments ?lg1 = ss @ [s1]" using s(1) by (simp add: set_active_def)
      have tidy1: "tidy d1 (map sg_base (ss @ [s1]))" and chain1: "chain_ok (ss @ [s1])"
        using la'(1) segs1 by (auto simp: log_ok_def)
      have n: "?n = sg_next s1" using next1 la'(4) by (simp add: log_next_def)
      have "sg_base s1 < ?n"
        using p f(2) c s(8) by (simp add: log_next_def)
      then have above: "\<forall>b \<in> set (map sg_base (ss @ [s1])). b < ?n" using s(9) c by force
      have mx: "0 < lg_max lg" "lg_max lg \<le> MAX_U32 + 1" using s(3,4) by (auto simp: seg_ok_def)
      obtain s2 d2 where s2: "seg_open ?n (lg_max lg) d1 = (Inr s2, d2)" "seg_ok s2 [] d2" "sg_base s2 = ?n"
        "sg_max s2 = lg_max lg" "\<not> sg_closed s2" "only_touches (seg_files ?n) d1 d2"
        "tidy d2 (map sg_base (ss @ [s1]) @ [?n])"
        by (rule fresh_segment [OF tidy1 above mx])
      have lg': "res = Inr ()" "lg' = ?lg1\<lparr>lg_segments := ss @ [s1, s2]\<rparr>" "d' = d2"
        using roll close False s(8) Inr s2(1) next1 la'(3) segs1 by (simp_all add: log_roll_def Let_def)
      have "list_all2 (sealed_ok (lg_max lg) d1) (ss @ [s1]) (qs @ [p])"
        using sealed_all_other [OF s(2), of "sg_base a" d1] c s(9) sealed by (fastforce intro: list_all2_appendI)
      from sealed_all_other [OF this s2(6)] above
      have "list_all2 (sealed_ok (lg_max lg) d2) (ss @ [s1]) (qs @ [p])" by force
      moreover have "chain_ok (ss @ [s1, s2])" using chain1 s2(3) n by (simp add: chain_ok_snoc)
      moreover have "small []" by (simp add: small_def MAX_U32_def)
      ultimately have "log_ok lg' (qs @ [p]) [] d'"
        using s2 la'(3) by (auto simp: log_ok_def lg' intro!: exI [of _ "ss @ [s1]"])
      moreover have "log_base lg' = log_base lg"
        using c s(1) by (cases ss) (simp_all add: lg')
      moreover have "active lg' = s2" by (simp add: lg' active_def)
      moreover from this have "log_next lg' = log_next lg" using seg_ok_fields(2) [OF s2(2)] s2(3)
        by (simp add: log_next_def)
      moreover have "healthy d \<longrightarrow> healthy d'" using c s2(6) lg'(3) by (auto simp: only_touches_def)
      ultimately show ?thesis using p s2(5) la'(3) lg' by auto
    qed
  qed
qed

lemma seg_append_synced: "seg_append s r d = (res, s', d') \<Longrightarrow> synced_len q d' = synced_len q d"
  by (auto simp: seg_append_def Let_def split: if_split_asm sum.splits prod.splits)

lemma fsync_keeps_synced:
  "fsync p d = (res, d') \<Longrightarrow> n \<le> synced_len p d \<Longrightarrow> n \<le> length (file_data p d) \<Longrightarrow> n \<le> synced_len p d'"
  by (auto simp: fsync_def synced_len_def file_data_def split: option.splits if_split_asm)

lemma seg_close_keeps_synced:
  assumes ok: "seg_ok s rs d" and close: "seg_close s d = (res, s', d')"
    and n: "n \<le> synced_len (log_name (sg_base s)) d" "n \<le> length (rec_bytes rs)"
  shows "n \<le> synced_len (log_name (sg_base s)) d'"
proof (cases "sg_closed s")
  case True
  with close n show ?thesis by (simp add: seg_close_def)
next
  case False
  show ?thesis
  proof (cases res)
    case (Inr u)
    with seg_close_synced [OF ok False] close n show ?thesis by simp
  next
    case (Inl e)
    obtain r1 s1 d1 where sync: "seg_sync s d = (r1, s1, d1)" by (metis prod_cases3)
    have keep: "n \<le> synced_len (log_name (sg_base s)) d1"
    proof -
      obtain r0 d0 where f: "fsync (log_name (sg_base s)) d = (r0, d0)" by (meson surj_pair)
      have "n \<le> synced_len (log_name (sg_base s)) d0"
        using fsync_keeps_synced [OF f] n seg_ok_fields(4) [OF ok] by simp
      with sync False f index_sync_log_synced [of "sg_index s" d0] seg_ok_fields(7) [OF ok] show ?thesis
        by (auto simp: seg_sync_def split: sum.splits prod.splits)
    qed
    have "ix_path (sg_index s1) = index_name (sg_base s)"
      using seg_sync_ok [OF ok sync] by (auto dest: seg_ok_fields)
    with keep sync close False index_sync_log_synced [of "sg_index s1" d1] show ?thesis
      by (auto simp: seg_close_def index_close_def Let_def split: sum.splits prod.splits if_split_asm)
  qed
qed

lemma log_roll_durable:
  assumes ok: "log_ok lg qs p d" and lv: "live lg" and roll: "log_roll lg d = (res, lg', d')"
    and dur: "durable lg p d off"
    and ok': "log_ok lg' qs' p' d'" "log_next lg' = log_next lg"
    and cases: "res = Inr () \<Longrightarrow> p' = []"
      "\<exists>e. res = Inl e \<Longrightarrow> p' = p \<and> sg_base (active lg') = sg_base (active lg)"
  shows "durable lg' p' d' off"
proof (cases res)
  case (Inr u)
  with cases(1) dur ok'(2) show ?thesis by (simp add: durable_def)
next
  case (Inl e)
  from log_okE [OF ok] have a: "seg_ok (active lg) p d" by metis
  have close: "(\<exists>s1. seg_close (active lg) d = (Inl e, s1, d')) \<or> d' = d"
  proof -
    obtain r1 s1 d1 where c: "seg_close (active lg) d = (r1, s1, d1)" by (metis prod_cases3)
    show ?thesis
    proof (cases r1)
      case (Inl e1)
      with c roll \<open>res = Inl e\<close> show ?thesis by (auto simp: log_roll_def split: if_split_asm)
    next
      case (Inr u)
      then have "sg_closed (active (set_active s1 lg))"
        using seg_close_ok [OF a c] by (simp add: active_def set_active_def)
      moreover have "live lg'" using log_roll_ok [OF ok lv roll] by blast
      ultimately show ?thesis
        using c roll Inr \<open>res = Inl e\<close> by (auto simp: log_roll_def Let_def split: if_split_asm sum.splits prod.splits)
    qed
  qed
  let ?k = "length (rec_bytes (take (nat (off - sg_base (active lg))) p))"
  have "?k \<le> length (rec_bytes p)"
    by (metis append_take_drop_id frames_of_simps(3) le_add1 length_append)
  then have "?k \<le> synced_len (log_name (sg_base (active lg))) d'"
    using close dur seg_close_keeps_synced [OF a] by (auto simp: durable_def)
  with cases(2) Inl dur ok'(2) show ?thesis by (simp add: durable_def)
qed

text \<open>The record \<open>append\<close> builds.\<close>

definition stamped :: "offset \<Rightarrow> bytes option \<Rightarrow> bytes option \<Rightarrow> int option \<Rightarrow> int \<Rightarrow> log_record" where
  "stamped off key val ts now_ns =
     \<lparr>rec_offset = off, rec_timestamp = (case ts of None \<Rightarrow> now_ns div 1000000 | Some t \<Rightarrow> t),
      rec_key = key, rec_value = val\<rparr>"

lemma log_append_active:
  assumes ok: "log_ok lg qs p d" and lv: "live lg" and r: "rec_offset r = log_next lg"
    and room: "has_room_for (active lg) r"
    and app: "seg_append (active lg) r d = (res, s', d')"
  shows "\<exists>p'. log_ok (set_active s' lg) qs p' d' \<and> live (set_active s' lg)
    \<and> log_base (set_active s' lg) = log_base lg \<and> lg_max (set_active s' lg) = lg_max lg
    \<and> (case res of Inr pos \<Rightarrow> p' = p @ [r] \<and> encodable r | Inl e \<Rightarrow> p' = p \<and> d' = d \<and> encode r = Inl e)
    \<and> (durable lg p d off \<longrightarrow> durable (set_active s' lg) p' d' off) \<and> (healthy d \<longrightarrow> healthy d')"
proof -
  from log_okE [OF ok] obtain a where a: "active lg = a" "seg_ok a p d" "sg_max a = lg_max lg" "small p"
    by metis
  note f = seg_ok_fields [OF a(2)]
  have off: "rec_offset r = sg_next a" using r a(1) by (simp add: log_next_def)
  show ?thesis
  proof (cases "encode r")
    case (Inl e)
    then have "res = Inl e" "s' = a" "d' = d" using seg_append_refused [OF off] app a(1) by auto
    moreover have "set_active a lg = lg"
      using a(1) ok by (auto simp: set_active_def active_def log_ok_def)
    ultimately show ?thesis using ok lv a(1) Inl by auto
  next
    case (Inr bs)
    then have enc: "encodable r" by (simp add: encode_eq_Inr)
    obtain s1 d1 where s1: "seg_append a r d = (Inr (sg_pos a), s1, d1)" "seg_ok s1 (p @ [r]) d1"
      "sg_base s1 = sg_base a" "sg_max s1 = sg_max a" "\<not> sg_closed s1" "only_touches (seg_files (sg_base a)) d d1"
      using seg_append_ok [OF a(2) _ off enc] lv room a(1) by metis
    have same: "res = Inr (sg_pos a)" "s' = s1" "d' = d1" using s1(1) app a(1) by auto
    have "small (p @ [r])"
    proof (cases "sg_pos a = 0")
      case True
      then have "p = []" using f(3) length_rec_bytes_ge [of p] by simp
      then show ?thesis using enc
        by (simp add: small_def encodable_def rec_size_payload PREFIX_SIZE_def MAX_SIZE_def MAX_U32_def)
    next
      case False
      with room a f(3) have "int (length (rec_bytes p)) + int (rec_size r) \<le> sg_max a"
        by (simp add: has_room_for_def)
      moreover have "sg_max a \<le> MAX_U32 + 1" using a(2) by (simp add: seg_ok_def)
      ultimately show ?thesis by (simp add: small_def)
    qed
    note la = log_ok_set_active [OF ok s1(2) _ _ this]
    have la': "log_ok (set_active s1 lg) qs (p @ [r]) d1" "log_base (set_active s1 lg) = log_base lg"
      "lg_max (set_active s1 lg) = lg_max lg" "active (set_active s1 lg) = s1"
      using la s1 a by auto
    have "sg_next s1 = sg_next a + 1" using seg_ok_fields(2) [OF s1(2)] s1(3) f(2) by simp
    then have "durable (set_active s1 lg) (p @ [r]) d1 off" if "durable lg p d off"
      using that f(2) la'(4) s1(3) a(1) seg_append_synced [OF s1(1)]
      by (auto simp: durable_def log_next_def)
    moreover have "healthy d \<longrightarrow> healthy d1" using s1(6) by (simp add: only_touches_def)
    ultimately show ?thesis using la' s1(5) same enc by auto
  qed
qed

lemma log_append_ok:
  assumes ok: "log_ok lg qs p d" and lv: "live lg"
    and app: "log_append lg key val ts now_ns d = (res, lg', d')"
  defines "r \<equiv> stamped (log_next lg) key val ts now_ns"
  shows "\<exists>qs' p'. log_ok lg' qs' p' d' \<and> live lg' \<and> log_base lg' = log_base lg \<and> lg_max lg' = lg_max lg
    \<and> (case res of
         Inr off \<Rightarrow> off = log_next lg \<and> encodable r \<and> concat qs' @ p' = concat qs @ p @ [r]
           \<and> p' \<noteq> [] \<and> prefix qs qs'
       | Inl e \<Rightarrow> concat qs' @ p' = concat qs @ p)
    \<and> (durable lg p d off0 \<longrightarrow> durable lg' p' d' off0)
    \<and> (healthy d \<longrightarrow> healthy d' \<and> (encodable r \<longrightarrow> res = Inr (log_next lg))
        \<and> (\<forall>e. encode r = Inl e \<longrightarrow> res = Inl e))"
proof -
  have r: "rec_offset r = log_next lg" by (simp add: r_def stamped_def)
  define pre where "pre = (if \<not> has_room_for (active lg) r then log_roll lg d else (Inr (), lg, d))"
  obtain r0 lg0 d0 where pre: "pre = (r0, lg0, d0)" by (metis prod_cases3)
  have app': "log_append lg key val ts now_ns d =
      (case pre of
           (Inl e, lg1, d1) \<Rightarrow> (Inl e, lg1, d1)
         | (Inr u, lg1, d1) \<Rightarrow>
             (case seg_append (active lg1) r d1 of
                (Inl e, s, d2) \<Rightarrow> (Inl e, set_active s lg1, d2)
              | (Inr p, s, d2) \<Rightarrow> (Inr (log_next lg), set_active s lg1, d2)))"
    by (simp only: log_append_def Let_def pre_def r_def stamped_def)
  have "\<exists>qs0 p0. log_ok lg0 qs0 p0 d0 \<and> concat qs0 @ p0 = concat qs @ p \<and> live lg0
    \<and> log_base lg0 = log_base lg \<and> lg_max lg0 = lg_max lg \<and> log_next lg0 = log_next lg
    \<and> (durable lg p d off0 \<longrightarrow> durable lg0 p0 d0 off0) \<and> (healthy d \<longrightarrow> healthy d0 \<and> r0 = Inr ())
    \<and> (r0 = Inr () \<longrightarrow> has_room_for (active lg0) r \<and> prefix qs qs0)"
  proof (cases "has_room_for (active lg) r")
    case True
    with pre ok lv show ?thesis by (auto simp: pre_def)
  next
    case False
    then have roll: "log_roll lg d = (r0, lg0, d0)" using pre by (simp add: pre_def)
    from log_roll_ok [OF ok lv roll] obtain qs0 p0 where
      l: "log_ok lg0 qs0 p0 d0" "concat qs0 @ p0 = concat qs @ p" "live lg0"
      "log_base lg0 = log_base lg" "lg_max lg0 = lg_max lg" "log_next lg0 = log_next lg"
      "r0 = Inr () \<longrightarrow> p0 = [] \<and> prefix qs qs0"
      "(\<exists>e. r0 = Inl e) \<longrightarrow> p0 = p \<and> sg_base (active lg0) = sg_base (active lg)"
      "healthy d \<longrightarrow> healthy d0 \<and> r0 = Inr ()"
      by (auto split: if_splits)
    have "durable lg0 p0 d0 off0" if "durable lg p d off0"
      using log_roll_durable [OF ok lv roll that l(1,6)] l(7,8) by blast
    moreover have "has_room_for (active lg0) r" if "r0 = Inr ()"
    proof -
      have "seg_ok (active lg0) [] d0" using log_okE [OF l(1)] l(7) that by metis
      then show ?thesis by (simp add: has_room_for_def seg_ok_def)
    qed
    ultimately show ?thesis using l by blast
  qed
  then obtain qs0 p0 where
    l: "log_ok lg0 qs0 p0 d0" "concat qs0 @ p0 = concat qs @ p" "live lg0"
      "log_base lg0 = log_base lg" "lg_max lg0 = lg_max lg" "log_next lg0 = log_next lg"
      "durable lg p d off0 \<longrightarrow> durable lg0 p0 d0 off0" "healthy d \<longrightarrow> healthy d0 \<and> r0 = Inr ()"
      "r0 = Inr () \<longrightarrow> has_room_for (active lg0) r \<and> prefix qs qs0"
    by blast
  show ?thesis
  proof (cases r0)
    case (Inl e)
    with app app' pre have same: "res = Inl e" "lg' = lg0" "d' = d0" by auto
    with l Inl show ?thesis by (intro exI [of _ qs0] exI [of _ p0]) simp
  next
    case (Inr u)
    obtain r2 s2 d2 where sa: "seg_append (active lg0) r d0 = (r2, s2, d2)" by (metis prod_cases3)
    have same: "res = (case r2 of Inl e \<Rightarrow> Inl e | Inr x \<Rightarrow> Inr (log_next lg))" "lg' = set_active s2 lg0" "d' = d2"
      using app app' pre Inr sa by (auto split: sum.splits)
    have "has_room_for (active lg0) r" using l(9) Inr by simp
    from log_append_active [OF l(1,3) r [folded l(6)] this sa, of off0] obtain p' where
      k: "log_ok (set_active s2 lg0) qs0 p' d2" "live (set_active s2 lg0)"
      "log_base (set_active s2 lg0) = log_base lg0" "lg_max (set_active s2 lg0) = lg_max lg0"
      "case r2 of Inr pos \<Rightarrow> p' = p0 @ [r] \<and> encodable r | Inl e \<Rightarrow> p' = p0 \<and> d2 = d0 \<and> encode r = Inl e"
      "durable lg0 p0 d0 off0 \<longrightarrow> durable (set_active s2 lg0) p' d2 off0" "healthy d0 \<longrightarrow> healthy d2"
      by blast
    show ?thesis
    proof (cases r2)
      case (Inl e)
      then have "\<not> encodable r" using k(5) by (auto simp: encode_encodable)
      with Inl k l same show ?thesis by (intro exI [of _ qs0] exI [of _ p']) simp
    next
      case (Inr x)
      then have "concat qs0 @ p' = concat qs @ p @ [r]" "encodable r" "p' \<noteq> []" "prefix qs qs0"
        using k(5) l(2,9) \<open>r0 = Inr u\<close> by (simp_all flip: append_assoc)
      with Inr k l same show ?thesis by (intro exI [of _ qs0] exI [of _ p']) (simp add: encode_encodable)
    qed
  qed
qed

section \<open>Opening\<close>

definition files_of :: "offset list \<Rightarrow> string set" where
  "files_of bs = (\<Union>b \<in> set bs. seg_files b)"

lemma files_of_simps [simp]:
  "files_of [] = {}" "files_of (b # bs) = seg_files b \<union> files_of bs"
  by (auto simp: files_of_def)

lemma files_of_disjoint: "b \<notin> set bs \<Longrightarrow> seg_files b \<inter> files_of bs = {}"
  by (auto simp: files_of_def seg_files_def)

text \<open>A partition file that will be opened with the records \<open>p\<close>.\<close>

definition opens_as :: "dir \<Rightarrow> offset \<Rightarrow> log_record list \<Rightarrow> bool" where
  "opens_as d b p \<longleftrightarrow> recoverable b (file_data (log_name b) d) p
     \<and> int (length (file_data (log_name b) d)) \<le> MAX_U32 + 1"

lemma opens_as_other: "opens_as d b p \<Longrightarrow> only_touches ps d d' \<Longrightarrow> seg_files b \<inter> ps = {} \<Longrightarrow> opens_as d' b p"
  using file_data_other [of ps d d' "log_name b"] by (auto simp: opens_as_def seg_files_def)

lemma opens_as_all_disjoint:
  assumes "list_all2 (opens_as d) bs ps" "only_touches fs d d'" "\<forall>b \<in> set bs. seg_files b \<inter> fs = {}"
  shows "list_all2 (opens_as d') bs ps"
  using assms(1,3)
proof (induction rule: list_all2_induct)
  case (Cons b bs p ps)
  with assms(2) show ?case by (auto intro: opens_as_other)
qed simp

lemma opens_as_small: "opens_as d b p \<Longrightarrow> small p"
  by (auto simp: opens_as_def small_def recoverable_def)

definition opened :: "int \<Rightarrow> dir \<Rightarrow> segment \<Rightarrow> log_record list \<Rightarrow> bool" where
  "opened mx d s p \<longleftrightarrow> seg_ok s p d \<and> sg_max s = mx \<and> small p \<and> \<not> sg_closed s"

lemma opened_disjoint:
  "opened mx d s p \<Longrightarrow> only_touches ps d d' \<Longrightarrow> seg_files (sg_base s) \<inter> ps = {} \<Longrightarrow> opened mx d' s p"
  by (auto simp: opened_def intro: seg_ok_other)

lemma opened_all_disjoint:
  assumes "list_all2 (opened mx d) ss ps" "only_touches fs d d'" "\<forall>s \<in> set ss. seg_files (sg_base s) \<inter> fs = {}"
  shows "list_all2 (opened mx d') ss ps"
  using assms(1,3)
proof (induction rule: list_all2_induct)
  case (Cons s ss p ps)
  with assms(2) show ?case by (auto intro: opened_disjoint)
qed simp

lemma open_segments_ok:
  assumes "list_all2 (opens_as d) bs ps" "distinct bs" "0 < mx" "mx \<le> MAX_U32 + 1"
  shows "\<exists>ss d'. open_segments mx bs d = (Inr ss, d') \<and> list_all2 (opened mx d') ss ps
    \<and> map sg_base ss = bs \<and> only_touches (files_of bs) d d'"
  using assms(1,2)
proof (induction bs arbitrary: d ps)
  case (Cons b bs)
  then obtain p ps' where ps: "ps = p # ps'" "opens_as d b p" "list_all2 (opens_as d) bs ps'"
    by (auto simp: list_all2_Cons1)
  obtain s d1 where s: "seg_open b mx d = (Inr s, d1)" "seg_ok s p d1" "sg_base s = b" "sg_max s = mx"
    "\<not> sg_closed s" "only_touches (seg_files b) d d1"
    using seg_open_recoverable [OF assms(3,4)] ps(2) unfolding opens_as_def by metis
  have dis: "seg_files c \<inter> seg_files b = {}" if "c \<in> set bs" for c
    using that Cons.prems(2) by (intro seg_files_disjoint) auto
  have "list_all2 (opens_as d1) bs ps'"
    by (rule opens_as_all_disjoint [OF ps(3) s(6)]) (use dis in blast)
  from Cons.IH [OF this] Cons.prems(2) obtain ss d2 where ss: "open_segments mx bs d1 = (Inr ss, d2)" "list_all2 (opened mx d2) ss ps'"
    "map sg_base ss = bs" "only_touches (files_of bs) d1 d2" by (auto simp only: distinct.simps)
  have "opened mx d1 s p" using s opens_as_small [OF ps(2)] by (simp add: opened_def)
  then have "opened mx d2 s p"
    using ss(4) by (rule opened_disjoint) (use Cons.prems(2) s(3) in \<open>simp add: files_of_disjoint\<close>)
  moreover have "only_touches (files_of (b # bs)) d d2"
    using only_touches_trans [of "files_of (b # bs)" d d1 d2] only_touches_mono [OF s(6)] only_touches_mono [OF ss(4)]
    by simp
  ultimately show ?case using s(1,3) ss ps by simp
qed simp

text \<open>The chain check compares each base with the end of the segment before.\<close>

fun linked :: "offset list \<Rightarrow> log_record list list \<Rightarrow> bool" where
  "linked (b # b' # bs) (p # ps) = (b' = b + int (length p) \<and> linked (b' # bs) ps)"
| "linked _ _ = True"

lemma chain_linked:
  "list_all2 (opened mx d) ss ps \<Longrightarrow> chain_ok ss \<longleftrightarrow> linked (map sg_base ss) ps"
proof (induction ss arbitrary: ps rule: chain_ok.induct)
  case (1 s s' ss)
  then obtain p ps' where "ps = p # ps'" "opened mx d s p" "list_all2 (opened mx d) (s' # ss) ps'"
    by (auto simp: list_all2_Cons1)
  with 1 show ?case by (auto simp: opened_def dest: seg_ok_fields(2))
qed auto

lemma seal_all_ok:
  assumes "list_all2 (opened mx d) ss ps" "healthy d" "distinct (map sg_base ss)"
    "\<forall>p \<in> set (butlast ps). p \<noteq> []" "ss \<noteq> []"
  shows "\<exists>xs a d'. seal_all ss d = (Inr (xs @ [a]), d') \<and> list_all2 (sealed_ok mx d') xs (butlast ps)
    \<and> opened mx d' a (last ps) \<and> map sg_base (xs @ [a]) = map sg_base ss \<and> map sg_next (xs @ [a]) = map sg_next ss
    \<and> healthy d' \<and> only_touches (files_of (map sg_base (butlast ss))) d d'"
  using assms
proof (induction ss d arbitrary: ps rule: seal_all.induct)
  case (1 s s' ss d)
  then obtain p ps' where ps: "ps = p # ps'" "opened mx d s p" "list_all2 (opened mx d) (s' # ss) ps'"
    by (auto simp: list_all2_Cons1)
  then have ne: "ps' \<noteq> []" by auto
  have s: "seg_ok s p d" "sg_max s = mx" "small p" "\<not> sg_closed s" using ps(2) by (auto simp: opened_def)
  obtain s1 d1 where c: "seg_close s d = (Inr (), s1, d1)"
    using seg_close_healthy [OF s(1) "1.prems"(2)] by blast
  note k = seg_close_ok [OF s(1) c]
  have t: "only_touches (seg_files (sg_base s)) d d1" and h1: "healthy d1"
    using k "1.prems"(2) by (auto simp: only_touches_def)
  have dis: "\<forall>x \<in> set (s' # ss). seg_files (sg_base x) \<inter> seg_files (sg_base s) = {}"
    using "1.prems"(3) by (auto intro!: seg_files_disjoint [THEN equalityD1, THEN subsetD] simp: seg_files_def)
  have "list_all2 (opened mx d1) (s' # ss) ps'" by (rule opened_all_disjoint [OF ps(3) t dis])
  from "1.IH" [OF c [symmetric] refl refl this h1] "1.prems"(3,4) ps(1) ne
  obtain xs a d2 where x: "seal_all (s' # ss) d1 = (Inr (xs @ [a]), d2)" "list_all2 (sealed_ok mx d2) xs (butlast ps')"
    "opened mx d2 a (last ps')" "map sg_base (xs @ [a]) = map sg_base (s' # ss)"
    "map sg_next (xs @ [a]) = map sg_next (s' # ss)" "healthy d2"
    "only_touches (files_of (map sg_base (butlast (s' # ss)))) d1 d2" by auto
  have "p \<noteq> []" using "1.prems"(4) ps(1) ne by simp
  then have "sealed_ok mx d1 s1 p"
    using k s seg_close_synced [OF s(1,4) c] by (simp add: sealed_ok_def)
  then have "sealed_ok mx d2 s1 p"
    using x(7)
  proof (rule sealed_ok_disjoint)
    have "sg_base s1 \<notin> set (map sg_base (butlast (s' # ss)))"
    proof -
      have "sg_base s \<notin> set (map sg_base (s' # ss))" using "1.prems"(3) by simp
      moreover have "set (butlast (s' # ss)) \<subseteq> set (s' # ss)" by (auto dest: in_set_butlastD)
      ultimately show ?thesis using k by (auto simp del: butlast.simps)
    qed
    then show "seg_files (sg_base s1) \<inter> files_of (map sg_base (butlast (s' # ss))) = {}"
      by (rule files_of_disjoint)
  qed
  moreover have "only_touches (files_of (map sg_base (butlast (s # s' # ss)))) d d2"
    using only_touches_trans [of "files_of (map sg_base (butlast (s # s' # ss)))" d d1 d2]
      only_touches_mono [OF t] only_touches_mono [OF x(7)] by simp
  ultimately show ?case using c x k ps(1) ne
    by (intro exI [of _ "s1 # xs"] exI [of _ a] exI [of _ d2]) simp
qed (auto simp: list_all2_Cons1)

lemma tidy_touch_files:
  assumes "tidy d bs" "only_touches (files_of cs) d d'" "set cs \<subseteq> set bs"
  shows "tidy d' bs"
proof -
  have "file_exists q d' = file_exists q d" if q: "is_log_name q" for q
  proof (cases "\<exists>b \<in> set bs. q = log_name b")
    case True
    with assms(1) q have "file_exists q d" by (simp add: tidy_def)
    with assms(2) show ?thesis by (simp add: only_touches_def)
  next
    case False
    with q assms(3) have "q \<notin> files_of cs" by (auto simp: files_of_def seg_files_def)
    with assms(2) show ?thesis by (simp add: only_touches_def file_exists_def)
  qed
  with assms(1,2) show ?thesis by (auto simp: tidy_def only_touches_def)
qed

lemma log_open_ok:
  assumes tidy: "tidy d bs" "bs \<noteq> []" and data: "list_all2 (opens_as d) bs ps" and link: "linked bs ps"
    and ne: "\<forall>p \<in> set (butlast ps). p \<noteq> []" and h: "healthy d" and mx: "0 < mx" "mx \<le> MAX_U32 + 1"
  shows "\<exists>lg d'. log_open mx d = (Inr lg, d') \<and> log_ok lg (butlast ps) (last ps) d' \<and> live lg
    \<and> log_base lg = hd bs \<and> lg_max lg = mx \<and> healthy d'"
proof -
  have dist: "distinct bs" using tidy(1) by (auto simp: tidy_def strict_sorted_iff)
  obtain ss d1 where o: "open_segments mx bs d = (Inr ss, d1)" "list_all2 (opened mx d1) ss ps"
    "map sg_base ss = bs" "only_touches (files_of bs) d d1"
    using open_segments_ok [OF data dist mx] by blast
  have chain: "chain_ok ss" using chain_linked [OF o(2)] o(3) link by simp
  have h1: "healthy d1" using o(4) h by (simp add: only_touches_def)
  have "ss \<noteq> []" "distinct (map sg_base ss)" using o(3) tidy(2) dist by auto
  with seal_all_ok [OF o(2) h1 _ ne] obtain xs a d2 where
    x: "seal_all ss d1 = (Inr (xs @ [a]), d2)" "list_all2 (sealed_ok mx d2) xs (butlast ps)"
    "opened mx d2 a (last ps)" "map sg_base (xs @ [a]) = map sg_base ss"
    "map sg_next (xs @ [a]) = map sg_next ss" "healthy d2"
    "only_touches (files_of (map sg_base (butlast ss))) d1 d2"
    by blast
  have opn: "log_open mx d = (Inr \<lparr>lg_max = mx, lg_segments = xs @ [a]\<rparr>, d2)"
    by (simp add: log_open_def log_bases_tidy [OF tidy] o(1) chain x(1))
  have "chain_ok (xs @ [a])"
  proof -
    have "chain_ok ts \<longleftrightarrow> chain_ok us" if "map sg_base ts = map sg_base us" "map sg_next ts = map sg_next us" for ts us
      using that
    proof (induction ts arbitrary: us rule: chain_ok.induct)
      case (1 p c ts)
      then obtain p' c' us' where us: "us = p' # c' # us'" by (auto simp: Cons_eq_map_conv)
      with "1.prems" "1.IH" [of "c' # us'"] show ?case by simp
    qed (auto simp: Cons_eq_map_conv)
    with x(4,5) chain show ?thesis by blast
  qed
  moreover have "tidy d2 (map sg_base (xs @ [a]))"
  proof -
    have "tidy d1 bs" using tidy_touch_files [OF tidy(1) o(4)] by simp
    moreover have "set (map sg_base (butlast ss)) \<subseteq> set bs"
      using o(3) by (auto dest: in_set_butlastD)
    ultimately show ?thesis using tidy_touch_files x(4,7) o(3) by metis
  qed
  ultimately have "log_ok \<lparr>lg_max = mx, lg_segments = xs @ [a]\<rparr> (butlast ps) (last ps) d2"
    using x(2,3) by (auto simp: log_ok_def opened_def)
  moreover have "sg_base (hd (xs @ [a])) = hd bs"
    using x(4) o(3) by (metis hd_map snoc_eq_iff_butlast list.map_disc_iff)
  ultimately show ?thesis using opn x(3,6) by (auto simp: active_def opened_def)
qed

text \<open>A directory without log files is opened as an empty log that starts at 0.\<close>

lemma log_open_fresh:
  assumes "tidy d []" "0 < mx" "mx \<le> MAX_U32 + 1"
  shows "\<exists>lg d'. log_open mx d = (Inr lg, d') \<and> log_ok lg [] [] d' \<and> live lg \<and> log_base lg = 0
    \<and> lg_max lg = mx \<and> (healthy d \<longrightarrow> healthy d')"
proof -
  have "filter is_log_name (map fst d) = []"
    using assms(1) by (auto simp: tidy_def file_exists_key filter_empty_conv)
  then have bases: "log_bases d = Inr [0]" by (simp add: log_bases_def)
  obtain s d1 where s: "seg_open 0 mx d = (Inr s, d1)" "seg_ok s [] d1" "sg_base s = 0" "sg_max s = mx"
    "\<not> sg_closed s" "only_touches (seg_files 0) d d1" "tidy d1 ([] @ [0])"
    by (rule fresh_segment [OF assms(1) _ assms(2,3)]) auto
  have "log_open mx d = (Inr \<lparr>lg_max = mx, lg_segments = [s]\<rparr>, d1)"
    by (simp add: log_open_def bases s(1))
  moreover have "log_ok \<lparr>lg_max = mx, lg_segments = [s]\<rparr> [] [] d1"
    using s by (auto simp: log_ok_def small_def MAX_U32_def)
  ultimately show ?thesis using s by (auto simp: active_def only_touches_def)
qed

text \<open>What the invariant says about opening the same files again.\<close>

lemma log_ok_linked:
  assumes "list_all2 (\<lambda>s p. seg_ok s p d) ss ps" "chain_ok ss" "butlast ps = butlast ps'" "length ps = length ps'"
  shows "linked (map sg_base ss) ps'"
  using assms
proof (induction ss arbitrary: ps ps' rule: chain_ok.induct)
  case (1 s s' ss)
  then obtain p q qs where ps: "ps = p # q # qs" "seg_ok s p d" "list_all2 (\<lambda>s p. seg_ok s p d) (s' # ss) (q # qs)"
    by (auto simp: list_all2_Cons1)
  with "1.prems"(3,4) obtain q' qs' where ps': "ps' = p # q' # qs'" "butlast (q # qs) = butlast (q' # qs')"
    "length qs = length qs'"
    by (cases ps' rule: list.exhaust; cases "tl ps'") auto
  with "1.IH" [OF ps(3) _ ps'(2)] "1.prems"(2) seg_ok_fields(2) [OF ps(2)] show ?case by simp
qed auto

lemma seg_opens_as: "seg_ok s p d \<Longrightarrow> small p \<Longrightarrow> opens_as d (sg_base s) p"
  using seg_ok_fields [of s p d] by (simp add: opens_as_def small_def recoverable_records)

text \<open>\<open>log_files d bs ps\<close>: the log files of \<open>d\<close> will be opened as a chain of segments with these records.\<close>

definition log_files :: "dir \<Rightarrow> offset list \<Rightarrow> log_record list list \<Rightarrow> bool" where
  "log_files d bs ps \<longleftrightarrow> tidy d bs \<and> bs \<noteq> [] \<and> list_all2 (opens_as d) bs ps \<and> linked bs ps
     \<and> (\<forall>p \<in> set (butlast ps). p \<noteq> [])"

lemma log_files_open:
  assumes "log_files d bs ps" "healthy d" "0 < mx" "mx \<le> MAX_U32 + 1"
  shows "\<exists>lg d'. log_open mx d = (Inr lg, d') \<and> log_ok lg (butlast ps) (last ps) d' \<and> live lg
    \<and> log_base lg = hd bs \<and> lg_max lg = mx \<and> healthy d'"
  using assms log_open_ok [of d bs ps mx] by (simp add: log_files_def)

lemma log_ok_files:
  assumes ok: "log_ok lg qs p d"
  shows "\<exists>bs. log_files d bs (qs @ [p]) \<and> hd bs = log_base lg"
proof -
  from log_okE [OF ok] obtain ss a where
    s: "lg_segments lg = ss @ [a]" "list_all2 (sealed_ok (lg_max lg) d) ss qs" "seg_ok a p d" "small p"
      "chain_ok (ss @ [a])" "tidy d (map sg_base (ss @ [a]))"
      "list_all2 (\<lambda>s p. seg_ok s p d) (ss @ [a]) (qs @ [p])" "\<forall>q \<in> set qs. q \<noteq> []"
    by metis
  have "list_all2 (\<lambda>s p. opens_as d (sg_base s) p) ss qs"
    using s(2) by (rule list_all2_mono) (auto simp: sealed_ok_def intro: seg_opens_as)
  then have "list_all2 (opens_as d) (map sg_base (ss @ [a])) (qs @ [p])"
    using seg_opens_as [OF s(3,4)] by (simp add: list_all2_map1 list_all2_appendI)
  moreover have "linked (map sg_base (ss @ [a])) (qs @ [p])" by (rule log_ok_linked [OF s(7,5)]) simp_all
  moreover have "hd (map sg_base (ss @ [a])) = log_base lg" using s(1) by (cases ss) simp_all
  ultimately show ?thesis using s(6,8)
    by (intro exI [of _ "map sg_base (ss @ [a])"]) (simp add: log_files_def del: map_append)
qed

lemma log_reopen:
  assumes ok: "log_ok lg qs p d" and h: "healthy d" and mx: "0 < mx" "mx \<le> MAX_U32 + 1"
  shows "\<exists>lg' d'. log_open mx d = (Inr lg', d') \<and> log_ok lg' qs p d' \<and> live lg'
    \<and> log_base lg' = log_base lg \<and> lg_max lg' = mx \<and> healthy d'"
  using log_ok_files [OF ok] log_files_open [OF _ h mx, of _ "qs @ [p]"] by fastforce

section \<open>Power cuts\<close>

lemma power_cut_healthy: "power_cut d d' \<Longrightarrow> healthy d \<Longrightarrow> healthy d'"
proof -
  assume cut: "power_cut d d'" and h: "healthy d"
  have "\<not> fl_broken g \<and> fl_synced g \<le> length (fl_data g)" if "(q, g) \<in> set d'" for q g
  proof -
    from that [unfolded in_set_conv_nth] obtain i where i: "i < length d'" "d' ! i = (q, g)" by blast
    have len: "length d = length d'" using cut by (metis power_cut_def length_map)
    with cut i have sv: "survives (snd (d ! i)) g"
      by (auto simp: power_cut_def list_all2_conv_all_nth dest!: spec [of _ i])
    have "d ! i \<in> set d" using i len by simp
    with h have "\<not> fl_broken (snd (d ! i))" by (auto simp: healthy_def)
    with sv show ?thesis by (auto simp: survives_def)
  qed
  then show "healthy d'" by (auto simp: healthy_def)
qed

lemma power_cut_tidy: "power_cut d d' \<Longrightarrow> tidy d bs \<Longrightarrow> tidy d' bs"
  using power_cut_prefix [of d d'] power_cut_file_names [of d d'] unfolding tidy_def by metis

lemma sealed_power_cut:
  assumes "sealed_ok mx d s q" "power_cut d d'"
  shows "opens_as d' (sg_base s) q"
proof -
  from assms(1) have s: "seg_ok s q d" "small q" "synced_len (log_name (sg_base s)) d = length (rec_bytes q)"
    by (auto simp: sealed_ok_def)
  obtain n where "length q \<le> n" "n \<le> length q" "recoverable (sg_base s) (file_data (log_name (sg_base s)) d') (take n q)"
    "length (file_data (log_name (sg_base s)) d') \<le> length (rec_bytes q)"
    using seg_power_cut [OF s(1) assms(2), of "length q"] s(3) by auto
  with s(2) show ?thesis by (simp add: opens_as_def small_def)
qed

text \<open>What a power cut leaves of the files: a chain that has lost at most records that were not durable.\<close>

lemma log_files_cut:
  assumes ok: "log_ok lg qs p d" and dur: "durable lg p d off" and cut: "power_cut d d'"
  shows "\<exists>bs m. log_files d' bs (qs @ [take m p]) \<and> hd bs = log_base lg
    \<and> off \<le> log_base lg + int (length (concat qs @ take m p))"
proof -
  from log_okE [OF ok] obtain ss a where
    s: "lg_segments lg = ss @ [a]" "list_all2 (sealed_ok (lg_max lg) d) ss qs" "seg_ok a p d" "small p"
      "chain_ok (ss @ [a])" "tidy d (map sg_base (ss @ [a]))" "active lg = a"
      "list_all2 (\<lambda>s p. seg_ok s p d) (ss @ [a]) (qs @ [p])" "\<forall>q \<in> set qs. q \<noteq> []"
    by metis
  let ?k = "nat (off - sg_base a)"
  have k: "?k \<le> length p" "length (rec_bytes (take ?k p)) \<le> synced_len (log_name (sg_base a)) d"
    using dur s(7) seg_ok_fields(2) [OF s(3)] by (auto simp: durable_def log_next_def)
  from seg_power_cut [OF s(3) cut k] obtain m where
    m: "?k \<le> m" "m \<le> length p" "recoverable (sg_base a) (file_data (log_name (sg_base a)) d') (take m p)"
    "length (file_data (log_name (sg_base a)) d') \<le> length (rec_bytes p)" by blast
  have "opens_as d' (sg_base a) (take m p)" using m(3,4) s(4) by (simp add: opens_as_def small_def)
  moreover have "list_all2 (\<lambda>s q. opens_as d' (sg_base s) q) ss qs"
    using s(2) by (rule list_all2_mono) (rule sealed_power_cut [OF _ cut])
  ultimately have "list_all2 (opens_as d') (map sg_base (ss @ [a])) (qs @ [take m p])"
    by (simp add: list_all2_map1 list_all2_appendI)
  moreover have "linked (map sg_base (ss @ [a])) (qs @ [take m p])"
    by (rule log_ok_linked [OF s(8,5)]) simp_all
  moreover have "hd (map sg_base (ss @ [a])) = log_base lg" using s(1) by (cases ss) simp_all
  moreover have "off \<le> log_base lg + int (length (concat qs @ take m p))"
  proof -
    have "sg_base a + int (length p) = log_base lg + int (length (concat qs @ p))"
      using log_ok_records(2) [OF ok] s(7) seg_ok_fields(2) [OF s(3)] by (simp add: log_next_def)
    with m(1,2) show ?thesis by simp
  qed
  ultimately show ?thesis using power_cut_tidy [OF cut s(6)] s(9)
    by (intro exI [of _ "map sg_base (ss @ [a])"] exI [of _ m]) (simp add: log_files_def del: map_append)
qed

lemma log_power_cut:
  assumes ok: "log_ok lg qs p d" and dur: "durable lg p d off" and cut: "power_cut d d'"
    and h: "healthy d" and mx: "0 < mx" "mx \<le> MAX_U32 + 1"
  shows "\<exists>lg' d'' m. log_open mx d' = (Inr lg', d'') \<and> log_ok lg' qs (take m p) d'' \<and> live lg'
    \<and> log_base lg' = log_base lg \<and> lg_max lg' = mx \<and> healthy d''
    \<and> off \<le> log_base lg + int (length (concat qs @ take m p))"
  using log_files_cut [OF ok dur cut] log_files_open [OF _ power_cut_healthy [OF cut h] mx, of _ "qs @ [take m p]" for m]
  by fastforce

section \<open>The log as a contract\<close>

text \<open>
  The abstraction: a log in use, in its directory, holds the records of its segments one after the
  other. \<open>log_kept\<close> holds on to more: its devices work and no power cut takes a record below \<open>off\<close>.
\<close>

type_synonym log_state = "part_log \<times> dir"
type_synonym message = "bytes option \<times> bytes option \<times> int option \<times> int"

definition log_holds :: "log_state \<Rightarrow> offset \<Rightarrow> log_record list \<Rightarrow> bool" where
  "log_holds st b rs \<longleftrightarrow> (\<exists>qs p. log_ok (fst st) qs p (snd st) \<and> live (fst st)
     \<and> log_base (fst st) = b \<and> concat qs @ p = rs)"

definition log_kept :: "int \<Rightarrow> offset \<Rightarrow> log_state \<Rightarrow> offset \<Rightarrow> log_record list \<Rightarrow> bool" where
  "log_kept mx off st b rs \<longleftrightarrow> (\<exists>qs p. log_ok (fst st) qs p (snd st) \<and> live (fst st)
     \<and> log_base (fst st) = b \<and> concat qs @ p = rs \<and> lg_max (fst st) = mx \<and> healthy (snd st)
     \<and> durable (fst st) p (snd st) off)"

definition push :: "log_state \<Rightarrow> message \<Rightarrow> offset result \<times> log_state" where
  "push st m = (case m of (key, val, ts, now_ns) \<Rightarrow>
     log_append (fst st) key val ts now_ns (snd st))"

definition fetch :: "log_state \<Rightarrow> offset \<Rightarrow> reading result" where
  "fetch st off = log_read_from (fst st) off (snd st)"

definition stamp :: "offset \<Rightarrow> message \<Rightarrow> log_record" where
  "stamp off m = (case m of (key, val, ts, now_ns) \<Rightarrow> stamped off key val ts now_ns)"

lemma push_kept:
  assumes "log_kept mx off0 st b rs" "push st m = (res, st')"
  shows "case res of Inr off \<Rightarrow> off = b + int (length rs) \<and> log_kept mx off0 st' b (rs @ [stamp off m])
    | Inl e \<Rightarrow> log_kept mx off0 st' b rs"
proof -
  obtain key val ts now_ns where m: "m = (key, val, ts, now_ns)" by (metis prod_cases4)
  from assms(1) obtain qs p where k: "log_ok (fst st) qs p (snd st)" "live (fst st)"
    "log_base (fst st) = b" "concat qs @ p = rs" "lg_max (fst st) = mx" "healthy (snd st)"
    "durable (fst st) p (snd st) off0"
    by (auto simp: log_kept_def)
  have "log_append (fst st) key val ts now_ns (snd st) = (res, fst st', snd st')"
    using assms(2) m by (simp add: push_def)
  from log_append_ok [OF k(1,2) this, of off0] obtain qs' p' where
    a: "log_ok (fst st') qs' p' (snd st')" "live (fst st')" "log_base (fst st') = log_base (fst st)"
      "lg_max (fst st') = lg_max (fst st)" "healthy (snd st')" "durable (fst st') p' (snd st') off0"
      "case res of Inr off \<Rightarrow> off = log_next (fst st) \<and> encodable (stamped (log_next (fst st)) key val ts now_ns)
         \<and> concat qs' @ p' = concat qs @ p @ [stamped (log_next (fst st)) key val ts now_ns] \<and> p' \<noteq> [] \<and> prefix qs qs'
       | Inl e \<Rightarrow> concat qs' @ p' = concat qs @ p"
    using k(6,7) by blast
  have "log_kept mx off0 st' b (concat qs' @ p')"
    using a k(3,5) by (auto simp: log_kept_def)
  then show ?thesis
    using a(7) k(3,4) log_ok_records(2) [OF k(1)] by (auto simp: stamp_def m split: sum.splits)
qed

lemma push_holds:
  assumes "log_holds st b rs" "push st m = (res, st')"
  shows "case res of Inr off \<Rightarrow> off = b + int (length rs) \<and> log_holds st' b (rs @ [stamp off m])
    | Inl e \<Rightarrow> log_holds st' b rs"
proof -
  obtain key val ts now_ns where m: "m = (key, val, ts, now_ns)" by (metis prod_cases4)
  from assms(1) obtain qs p where k: "log_ok (fst st) qs p (snd st)" "live (fst st)"
    "log_base (fst st) = b" "concat qs @ p = rs"
    by (auto simp: log_holds_def)
  have "log_append (fst st) key val ts now_ns (snd st) = (res, fst st', snd st')"
    using assms(2) m by (simp add: push_def)
  from log_append_ok [OF k(1,2) this] obtain qs' p' where
    a: "log_ok (fst st') qs' p' (snd st')" "live (fst st')" "log_base (fst st') = log_base (fst st)"
      "case res of Inr off \<Rightarrow> off = log_next (fst st) \<and> encodable (stamped (log_next (fst st)) key val ts now_ns)
         \<and> concat qs' @ p' = concat qs @ p @ [stamped (log_next (fst st)) key val ts now_ns] \<and> p' \<noteq> [] \<and> prefix qs qs'
       | Inl e \<Rightarrow> concat qs' @ p' = concat qs @ p"
    by blast
  have "log_holds st' b (concat qs' @ p')" using a k(3) by (auto simp: log_holds_def)
  then show ?thesis
    using a(4) k(3,4) log_ok_records(2) [OF k(1)] by (auto simp: stamp_def m split: sum.splits)
qed

lemma fetch_holds: "log_holds st b rs \<Longrightarrow> b \<le> off \<Longrightarrow> fetch st off = Inr (drop (nat (off - b)) rs, None)"
  using log_read_ok by (auto simp: log_holds_def fetch_def)

interpretation plog: record_log log_holds push fetch stamp
  by unfold_locales (use push_holds fetch_holds in fastforce)+

lemma log_kept_holds: "log_kept mx off st b rs \<Longrightarrow> log_holds st b rs"
  by (auto simp: log_kept_def log_holds_def)

interpretation klog: record_log "log_kept mx off0" push fetch stamp for mx off0
  by unfold_locales (use push_kept fetch_holds [OF log_kept_holds] in fastforce)+

section \<open>Closing\<close>

lemma close_segments_snoc:
  assumes "\<forall>s \<in> set ss. sg_closed s"
  shows "close_segments (ss @ [a]) d =
    (case seg_close a d of (res, a', d') \<Rightarrow> ((case res of Inl e \<Rightarrow> [e] | Inr u \<Rightarrow> []), ss @ [a'], d'))"
  using assms
proof (induction ss)
  case Nil
  show ?case by (simp split: prod.split)
next
  case (Cons s ss)
  then have "seg_close s d = (Inr (), s, d)" by (simp add: seg_close_def)
  with Cons show ?case by (simp split: prod.split)
qed

lemma log_close_ok:
  assumes ok: "log_ok lg qs p d" and close: "log_close lg d = (res, lg', d')"
  shows "log_ok lg' qs p d' \<and> log_base lg' = log_base lg \<and> lg_max lg' = lg_max lg
    \<and> (res = Inr () \<longrightarrow> (\<forall>s \<in> set (lg_segments lg'). sg_closed s))
    \<and> (\<forall>e. res = Inl e \<longrightarrow> (\<exists>e'. e = ExceptionGroup [e'])) \<and> (healthy d \<longrightarrow> res = Inr ())
    \<and> (res = Inr () \<and> live lg \<longrightarrow> durable lg' p d' (log_next lg')) \<and> (\<not> live lg \<longrightarrow> \<not> live lg')"
proof -
  from log_okE [OF ok] obtain ss a where
    s: "lg_segments lg = ss @ [a]" "list_all2 (sealed_ok (lg_max lg) d) ss qs" "seg_ok a p d"
      "sg_max a = lg_max lg" "small p" "active lg = a"
    by metis
  have sealed: "\<forall>s \<in> set ss. sg_closed s"
    using s(2) by (auto simp: list_all2_conv_all_nth in_set_conv_nth sealed_ok_def)
  obtain r a' where c: "seg_close a d = (r, a', d')"
    and res: "res = (case r of Inl e \<Rightarrow> Inl (ExceptionGroup [e]) | Inr u \<Rightarrow> Inr ())"
    and lg': "lg' = set_active a' lg"
    using close s(1) by (auto simp: log_close_def close_segments_snoc [OF sealed] set_active_def
        split: prod.splits sum.splits)
  note k = seg_close_ok [OF s(3) c]
  note la = log_ok_set_active [OF ok, of a' p d']
  have lg'_ok: "log_ok lg' qs p d'" "log_base lg' = log_base lg" "lg_max lg' = lg_max lg" "active lg' = a'"
    using la k s lg' by auto
  have "r = Inr ()" if "healthy d" using seg_close_healthy [OF s(3) that] c by auto
  moreover have "durable lg' p d' (log_next lg')" if "r = Inr ()" "live lg"
    using seg_close_synced [OF s(3) _ c [unfolded that(1)]] that(2) s(6) k lg'_ok(4)
      seg_ok_fields(2) [OF conjunct1 [OF k]]
    by (simp add: durable_def log_next_def)
  ultimately show ?thesis
    using lg'_ok k res sealed s(1,6) lg' by (cases r) (auto simp: set_active_def)
qed

section \<open>A missing file\<close>

lemma linked_append:
  "length bs = length ps \<Longrightarrow> linked (bs @ b # b' # bs') (ps @ p # ps') \<Longrightarrow> b' = b + int (length p)"
proof (induction bs ps rule: list_induct2)
  case (Cons x xs y ys)
  have "linked (xs @ b # b' # bs') (ys @ p # ps')"
    using Cons.prems Cons.hyps by (cases xs; cases ys) simp_all
  then show ?case by (rule Cons.IH)
qed simp

lemma tidy_remove:
  assumes "tidy d (as @ b # cs)"
  shows "tidy (al_del (log_name b) d) (as @ cs)"
proof -
  have "distinct (map fst (al_del (log_name b) d))"
    using assms by (auto simp: tidy_def al_del_def distinct_map_filter)
  moreover have "b \<notin> set (as @ cs)" using assms by (auto simp: tidy_def sorted_wrt_append)
  ultimately show ?thesis using assms by (auto simp: tidy_def sorted_wrt_append file_exists_def)
qed

lemma list_all2_segs_split:
  assumes "list_all2 P (xs @ s # ys) ps"
  obtains as p cs where "ps = as @ p # cs" "list_all2 P xs as" "P s p" "list_all2 P ys cs"
  using assms by (auto simp: list_all2_append1 list_all2_Cons1)

lemma log_open_missing:
  assumes ok: "log_ok lg qs p d" and segs: "lg_segments lg = xs @ s # ys" "xs \<noteq> []" "ys \<noteq> []"
    and mx: "0 < mx" "mx \<le> MAX_U32 + 1"
  shows "\<exists>d'. log_open mx (al_del (log_name (sg_base s)) d) = (Inl CorruptLog, d')"
proof -
  let ?d = "al_del (log_name (sg_base s)) d"
  from log_okE [OF ok] obtain ss a where
    l: "lg_segments lg = ss @ [a]" "list_all2 (sealed_ok (lg_max lg) d) ss qs" "seg_ok a p d" "small p"
      "chain_ok (xs @ s # ys)" "tidy d (map sg_base (xs @ s # ys))" "\<forall>q \<in> set qs. q \<noteq> []"
      "list_all2 (\<lambda>s p. seg_ok s p d) (xs @ s # ys) (qs @ [p])"
    using segs(1) by metis
  have small: "list_all2 (\<lambda>s p. seg_ok s p d \<and> small p) (xs @ s # ys) (qs @ [p])"
    using l(2-4) unfolding segs(1) [symmetric] l(1)
    by (intro list_all2_appendI) (auto elim: list_all2_mono simp: sealed_ok_def)
  then obtain as q cs where ps: "qs @ [p] = as @ q # cs" "list_all2 (\<lambda>s p. seg_ok s p d \<and> small p) xs as"
    "seg_ok s q d" "list_all2 (\<lambda>s p. seg_ok s p d \<and> small p) ys cs"
    by (rule list_all2_segs_split) blast
  have "cs \<noteq> []" using ps(4) segs(3) by auto
  then have "q \<in> set qs" using ps(1) by (metis butlast_append butlast_snoc in_set_conv_decomp list.distinct(1) butlast.simps(2))
  then have q: "q \<noteq> []" using l(7) by blast
  have tidy: "tidy ?d (map sg_base (xs @ ys))" using tidy_remove [of d "map sg_base xs"] l(6) by simp
  have "sg_base x \<noteq> sg_base s" if "x \<in> set (xs @ ys)" for x
    using l(6) that by (auto simp: tidy_def sorted_wrt_append)
  then have "opens_as ?d (sg_base x) y" if "seg_ok x y d \<and> small y" "x \<in> set (xs @ ys)" for x y
    using that seg_opens_as [of x y d] by (auto simp: opens_as_def file_data_def)
  then have opens: "list_all2 (opens_as ?d) (map sg_base (xs @ ys)) (as @ cs)"
    using ps(2,4) unfolding list_all2_map1
    by (intro list_all2_appendI) (auto simp: list_all2_conv_all_nth)
  have dist: "distinct (map sg_base (xs @ ys))" using tidy by (auto simp: tidy_def strict_sorted_iff)
  obtain us d1 where o: "open_segments mx (map sg_base (xs @ ys)) ?d = (Inr us, d1)"
    "list_all2 (opened mx d1) us (as @ cs)" "map sg_base us = map sg_base (xs @ ys)"
    using open_segments_ok [OF opens dist mx] by blast
  obtain xs' x where xs: "xs = xs' @ [x]" using segs(2) by (cases xs rule: rev_cases) auto
  obtain y ys' where ys: "ys = y # ys'" using segs(3) by (cases ys) auto
  obtain as' w where as: "as = as' @ [w]" "length xs' = length as'" "seg_ok x w d"
    using ps(2) xs by (auto simp: list_all2_append1 list_all2_Cons1 dest: list_all2_lengthD)
  have "sg_base y = sg_next s" "sg_base s = sg_next x"
    using l(5) xs ys chain_ok_append [of "xs' @ [x]" s "y # ys'"] chain_ok_append [of xs' x "[s]"]
    by (auto simp: chain_ok_snoc)
  then have "sg_base y \<noteq> sg_base x + int (length w)"
    using q seg_ok_fields(2) [OF ps(3)] seg_ok_fields(2) [OF as(3)] by auto
  then have "\<not> linked (map sg_base (xs @ ys)) (as @ cs)"
    using linked_append [of "map sg_base xs'" as' "sg_base x" "sg_base y" "map sg_base ys'" w cs] xs ys as
    by auto
  then have "\<not> chain_ok us" using chain_linked [OF o(2)] o(3) by simp
  moreover have "log_bases ?d = Inr (map sg_base (xs @ ys))"
    by (rule log_bases_tidy [OF tidy]) (simp add: xs)
  ultimately show ?thesis using o(1) by (simp add: log_open_def)
qed

section \<open>Properties\<close>

lemma log_open_empty:
  assumes "0 < mx" "mx \<le> MAX_U32 + 1"
  obtains lg d where "log_open mx [] = (Inr lg, d)" "log_kept mx 0 (lg, d) 0 []" "lg_max lg = mx"
proof -
  have "tidy [] []" "healthy []" by (simp_all add: tidy_def file_exists_def healthy_def)
  from log_open_fresh [OF this(1) assms] this(2) obtain lg d where
    "log_open mx [] = (Inr lg, d)" "log_ok lg [] [] d" "live lg" "log_base lg = 0" "lg_max lg = mx" "healthy d"
    by blast
  then show ?thesis using log_ok_records(2) [of lg "[]" "[]" d]
    by (intro that) (auto simp: log_kept_def durable_def intro!: exI [of _ "[]"])
qed

lemma log_synced_kept:
  assumes "log_holds (lg, d) b rs" "healthy d" "log_sync lg d = (Inr u, lg1, d1)"
  shows "log_kept (lg_max lg) (b + int (length rs)) (lg1, d1) b rs"
proof -
  from assms(1) obtain qs p where k: "log_ok lg qs p d" "live lg" "log_base lg = b" "concat qs @ p = rs"
    by (auto simp: log_holds_def)
  note y = log_sync_ok [OF k(1) assms(3)]
  have "log_next lg1 = b + int (length rs)"
    using log_ok_records(2) [OF y(1)] y(2) k(3,4) by auto
  moreover have "durable lg1 p d1 (log_next lg1)" using y(5) by blast
  ultimately show ?thesis using y k assms(2) by (auto simp: log_kept_def)
qed

lemma append_encodable:
  assumes "log_kept mx off0 (lg, d) b rs"
    and "encodable (stamp (b + int (length rs)) (key, val, ts, now_ns))"
  shows "\<exists>lg' d'. log_append lg key val ts now_ns d = (Inr (b + int (length rs)), lg', d')
    \<and> log_kept mx off0 (lg', d') b (rs @ [stamp (b + int (length rs)) (key, val, ts, now_ns)])"
proof -
  from assms(1) obtain qs p where k: "log_ok lg qs p d" "live lg" "log_base lg = b" "concat qs @ p = rs"
    "healthy d" by (auto simp: log_kept_def)
  obtain res lg' d' where a: "log_append lg key val ts now_ns d = (res, lg', d')" by (metis prod_cases3)
  have "res = Inr (b + int (length rs))"
    using log_append_ok [OF k(1,2) a] log_ok_records(2) [OF k(1)] k(3-5) assms(2) by (auto simp: stamp_def)
  with push_kept [OF assms(1), of "(key, val, ts, now_ns)" res "(lg', d')"] a show ?thesis
    by (simp add: push_def)
qed

text \<open>
  Property C4. The whole life of a log in one statement: whatever appends are made, in whatever
  order, and whichever of them fail, the acknowledged ones get consecutive offsets from the end of
  the log on, and the log then holds, and reads back from its base, the old records followed by
  exactly the acknowledged ones, each stamped with its offset. A failed append leaves nothing.
\<close>

theorem append_run_exact:
  assumes "log_holds st b rs" and "run_appends push st ms = (ress, st')"
  shows "map fst (acked ress ms) = map (\<lambda>i. b + int i) [length rs ..< length rs + length (acked ress ms)]
    \<and> log_holds st' b (rs @ map (\<lambda>(off, m). stamp off m) (acked ress ms))
    \<and> fetch st' b = Inr (rs @ map (\<lambda>(off, m). stamp off m) (acked ress ms), None)"
proof -
  note run = plog.run_acked [OF assms]
  with plog.read_held [of st' b _ b] show ?thesis by simp
qed

text \<open>
  Reading a log across its segments: from an offset of the log it yields the records
  from that offset on, in order, whichever segments they are in; past the end nothing; before the
  base it raises \<open>OffsetOutOfRange\<close>.
\<close>

theorem log_read_exact:
  assumes "log_holds (lg, d) b rs"
  shows "log_read_from lg off d =
    (if off < b then Inl OffsetOutOfRange else Inr (drop (nat (off - b)) rs, None))"
  using fetch_holds [OF assms, of off] assms log_read_below [of off lg d]
  by (auto simp: fetch_def log_holds_def)

text \<open>
  Property C3. Nothing that was synced is lost: after a successful \<open>sync\<close>, any appends (with the rolls
  they cause) and a power cut, the directory opens again, with the records of the moment of the
  \<open>sync\<close> and as many of the later ones as reached the disk, in order and without a gap.
\<close>

theorem synced_records_survive:
  assumes "log_holds (lg, d) b rs" and "healthy d" and "log_sync lg d = (Inr u, lg1, d1)"
    and "run_appends push (lg1, d1) ms = (ress, (lg2, d2))" and "power_cut d2 d3"
  shows "\<exists>lg' d' n. log_open (lg_max lg) d3 = (Inr lg', d')
    \<and> log_holds (lg', d') b (rs @ take n (map (\<lambda>(off, m). stamp off m) (acked ress ms)))"
proof -
  let ?new = "map (\<lambda>(off, m). stamp off m) (acked ress ms)" and ?off = "b + int (length rs)"
  from klog.run_acked [OF log_synced_kept [OF assms(1-3)] assms(4)]
  obtain qs p where k: "log_ok lg2 qs p d2" "log_base lg2 = b" "concat qs @ p = rs @ ?new"
    "lg_max lg2 = lg_max lg" "healthy d2" "durable lg2 p d2 ?off"
    by (auto simp: log_kept_def)
  have mx: "0 < lg_max lg" "lg_max lg \<le> MAX_U32 + 1"
    using k(1,4) by (auto simp: log_ok_def seg_ok_def)
  from log_power_cut [OF k(1,6) assms(5) k(5) mx] obtain lg' d' m where
    l: "log_open (lg_max lg) d3 = (Inr lg', d')" "log_ok lg' qs (take m p) d'" "live lg'"
      "log_base lg' = b" "?off \<le> b + int (length (concat qs @ take m p))"
    using k(2) by metis
  have "concat qs @ take m p = take (length (concat qs) + length (take m p)) (rs @ ?new)"
    unfolding k(3) [symmetric] by (simp add: min_def)
  also have "\<dots> = rs @ take (length (concat qs) + length (take m p) - length rs) ?new"
    using l(5) by simp
  finally show ?thesis using l by (auto simp: log_holds_def)
qed

text \<open>
  Opening a log again, with whatever segment size, gives the same records from the same
  base, and a fresh directory opens as the empty log at offset 0.
\<close>

theorem reopen_same_records:
  assumes "0 < mx" and "mx \<le> MAX_U32 + 1" and "healthy d"
  shows "(log_holds (lg, d) b rs \<longrightarrow> (\<exists>lg' d'. log_open mx d = (Inr lg', d') \<and> log_holds (lg', d') b rs))
    \<and> (d = [] \<longrightarrow> (\<exists>lg' d'. log_open mx d = (Inr lg', d') \<and> log_holds (lg', d') 0 []))"
proof (intro conjI impI)
  assume "log_holds (lg, d) b rs"
  then obtain qs p where "log_ok lg qs p d" "log_base lg = b" "concat qs @ p = rs"
    by (auto simp: log_holds_def)
  with log_reopen [OF this(1) assms(3,1,2)]
  show "\<exists>lg' d'. log_open mx d = (Inr lg', d') \<and> log_holds (lg', d') b rs"
    by (auto simp: log_holds_def)
next
  assume "d = []"
  then show "\<exists>lg' d'. log_open mx d = (Inr lg', d') \<and> log_holds (lg', d') 0 []"
    using log_open_empty [OF assms(1,2)] log_kept_holds by metis
qed

text \<open>
  A hole in the chain is never read over: when the log file of a segment that is
  neither the first nor the last is gone, opening raises \<open>CorruptLog\<close>.
\<close>

theorem missing_segment_refused:
  assumes "log_holds (lg, d) b rs" and "lg_segments lg = xs @ s # ys" and "xs \<noteq> []" and "ys \<noteq> []"
    and "0 < mx" and "mx \<le> MAX_U32 + 1"
  shows "fst (log_open mx (al_del (log_name (sg_base s)) d)) = Inl CorruptLog"
  using assms(1) log_open_missing [OF _ assms(2-6)] by (fastforce simp: log_holds_def)

text \<open>
  Appends do not fail for nothing: on devices that work, an append of a record the
  format can hold is acknowledged, with the next offset, however full the active segment is.
\<close>

theorem append_succeeds:
  assumes "log_kept mx off0 (lg, d) b rs"
    and "encodable (stamp (b + int (length rs)) (key, val, ts, now_ns))"
  shows "\<exists>lg' d'. log_append lg key val ts now_ns d = (Inr (b + int (length rs)), lg', d')
    \<and> log_kept mx off0 (lg', d') b (rs @ [stamp (b + int (length rs)) (key, val, ts, now_ns)])"
  by (rule append_encodable [OF assms])

text \<open>
  \<open>close\<close> leaves every record readable. If it returns, every segment is closed and every
  record on the platter; if a device fails, the error is an \<open>ExceptionGroup\<close> that holds it.
\<close>

theorem close_keeps_records:
  assumes "log_holds (lg, d) b rs" and "log_close lg d = (res, lg', d')" and "b \<le> off"
  shows "log_read_from lg' off d' = Inr (drop (nat (off - b)) rs, None)
    \<and> (res = Inr () \<longrightarrow> (\<forall>s \<in> set (lg_segments lg'). sg_closed s)
        \<and> (\<exists>p. log_ok lg' (butlast p) (last p) d' \<and> concat p = rs \<and> durable lg' (last p) d' (b + int (length rs))))
    \<and> (\<forall>e. res = Inl e \<longrightarrow> (\<exists>e'. e = ExceptionGroup [e'])) \<and> (healthy d \<longrightarrow> res = Inr ())"
proof -
  from assms(1) obtain qs p where k: "log_ok lg qs p d" "live lg" "log_base lg = b" "concat qs @ p = rs"
    by (auto simp: log_holds_def)
  note c = log_close_ok [OF k(1) assms(2)]
  then have ok': "log_ok lg' qs p d'" "log_base lg' = b" using k(3) by auto
  have "log_read_from lg' off d' = Inr (drop (nat (off - b)) rs, None)"
    using log_read_ok [OF ok'(1)] ok'(2) k(4) assms(3) by simp
  moreover have "log_next lg' = b + int (length rs)" using log_ok_records(2) [OF ok'(1)] ok'(2) k(4) by auto
  ultimately show ?thesis using c ok'(1) k(2,4) by (auto intro!: exI [of _ "qs @ [p]"])
qed

section \<open>A concrete log\<close>

definition sample_message :: message where
  "sample_message = (None, Some [97], Some 5, 0)"

lemma sample_fits: "encodable (stamp n sample_message)" if "in_i64 n"
  using that by (simp add: stamp_def stamped_def sample_message_def encodable_def payload_size_def
      field_bytes_def in_i64_def MAX_SIZE_def CRC_BODY_SIZE_def)

lemma open_1024: obtains lg d where "log_open 1024 [] = (Inr lg, d)" "log_kept 1024 0 (lg, d) 0 []"
  by (rule log_open_empty [of 1024]) (simp_all add: MAX_U32_def)

text \<open>One append to a fresh log.\<close>

lemma open_push:
  obtains lg d lg' d' where "log_open 1024 [] = (Inr lg, d)" "log_kept 1024 0 (lg, d) 0 []"
    "push (lg, d) sample_message = (Inr 0, (lg', d'))" "log_kept 1024 0 (lg', d') 0 [stamp 0 sample_message]"
proof -
  obtain lg d where o: "log_open 1024 [] = (Inr lg, d)" "log_kept 1024 0 (lg, d) 0 []" by (rule open_1024)
  have "encodable (stamp (0 + int (length ([] :: log_record list))) (None, Some [97], Some 5, 0))"
    using sample_fits [of 0] by (simp add: in_i64_def sample_message_def)
  from append_encodable [OF o(2) this] o show ?thesis
    by (auto simp: push_def sample_message_def intro: that)
qed

theorem append_run_exact_witness:
  "\<exists>lg d st'. log_open 1024 [] = (Inr lg, d) \<and> run_appends push (lg, d) [sample_message] = ([Inr 0], st')
    \<and> fetch st' 0 = Inr ([stamp 0 sample_message], None)"
proof -
  obtain lg d lg' d' where o: "log_open 1024 [] = (Inr lg, d)" "log_kept 1024 0 (lg, d) 0 []"
    "push (lg, d) sample_message = (Inr 0, (lg', d'))" by (rule open_push)
  then have "run_appends push (lg, d) [sample_message] = ([Inr 0], (lg', d'))" by simp
  from append_run_exact [OF log_kept_holds [OF o(2)] this] o(1) this show ?thesis by auto
qed

theorem log_read_exact_witness:
  "\<exists>lg d lg' d'. log_open 1024 [] = (Inr lg, d) \<and> push (lg, d) sample_message = (Inr 0, (lg', d'))
    \<and> log_read_from lg' (- 1) d' = Inl OffsetOutOfRange
    \<and> log_read_from lg' 0 d' = Inr ([stamp 0 sample_message], None) \<and> log_read_from lg' 1 d' = Inr ([], None)"
proof -
  obtain lg d lg' d' where o: "log_open 1024 [] = (Inr lg, d)" "push (lg, d) sample_message = (Inr 0, (lg', d'))"
    "log_kept 1024 0 (lg', d') 0 [stamp 0 sample_message]" by (rule open_push)
  note h = log_kept_holds [OF o(3)]
  from log_read_exact [OF h, of "- 1"] log_read_exact [OF h, of 0] log_read_exact [OF h, of 1] o(1,2)
  show ?thesis by auto
qed

theorem synced_records_survive_witness:
  "\<exists>lg d lg1 d1 d3 lg' d'. log_open 1024 [] = (Inr lg, d) \<and> log_sync lg d = (Inr (), lg1, d1)
    \<and> power_cut d1 d3 \<and> log_open 1024 d3 = (Inr lg', d') \<and> log_holds (lg', d') 0 []"
proof -
  obtain lg d where o: "log_open 1024 [] = (Inr lg, d)" "log_kept 1024 0 (lg, d) 0 []" by (rule open_1024)
  then have lg: "lg_max lg = 1024" "healthy d" by (auto simp: log_kept_def)
  from o(2) obtain qs p where ok: "log_ok lg qs p d" "live lg" by (auto simp: log_kept_def)
  obtain lg1 d1 where y: "log_sync lg d = (Inr (), lg1, d1)" "healthy d1"
    using log_sync_healthy [OF ok lg(2)] by blast
  have "run_appends push (lg1, d1) [] = ([], (lg1, d1))" by simp
  from synced_records_survive [OF log_kept_holds [OF o(2)] lg(2) y(1) this power_cut_exists [OF y(2)]] lg(1)
  show ?thesis using o(1) y(1) power_cut_exists [OF y(2)] by auto
qed

theorem reopen_same_records_witness:
  "\<exists>lg d lg' d'. log_open 1024 [] = (Inr lg, d) \<and> push (lg, d) sample_message = (Inr 0, (lg', d'))
    \<and> (\<exists>lg2 d2. log_open 64 d' = (Inr lg2, d2) \<and> log_holds (lg2, d2) 0 [stamp 0 sample_message])"
proof -
  obtain lg d lg' d' where o: "log_open 1024 [] = (Inr lg, d)" "push (lg, d) sample_message = (Inr 0, (lg', d'))"
    "log_kept 1024 0 (lg', d') 0 [stamp 0 sample_message]" by (rule open_push)
  then have "healthy d'" by (auto simp: log_kept_def)
  with reopen_same_records [of 64 d' lg' 0 "[stamp 0 sample_message]"] log_kept_holds [OF o(3)] o(1,2)
  show ?thesis by (simp add: MAX_U32_def)
qed

theorem append_succeeds_witness:
  "\<exists>lg d lg' d'. log_open 1024 [] = (Inr lg, d) \<and> log_append lg None (Some [97]) (Some 5) 0 d = (Inr 0, lg', d')"
proof -
  obtain lg d where o: "log_open 1024 [] = (Inr lg, d)" "log_kept 1024 0 (lg, d) 0 []" by (rule open_1024)
  have "encodable (stamp (0 + int (length ([] :: log_record list))) (None, Some [97], Some 5, 0))"
    using sample_fits [of 0] by (simp add: in_i64_def sample_message_def)
  from append_succeeds [OF o(2) this] o(1) show ?thesis by auto
qed

theorem close_keeps_records_witness:
  "\<exists>lg d lg1 d1 lg' d'. log_open 1024 [] = (Inr lg, d) \<and> push (lg, d) sample_message = (Inr 0, (lg1, d1))
    \<and> log_close lg1 d1 = (Inr (), lg', d') \<and> log_read_from lg' 0 d' = Inr ([stamp 0 sample_message], None)"
proof -
  obtain lg d lg1 d1 where o: "log_open 1024 [] = (Inr lg, d)" "push (lg, d) sample_message = (Inr 0, (lg1, d1))"
    "log_kept 1024 0 (lg1, d1) 0 [stamp 0 sample_message]" by (rule open_push)
  then have h: "healthy d1" by (auto simp: log_kept_def)
  obtain res lg' d' where c: "log_close lg1 d1 = (res, lg', d')" by (metis prod_cases3)
  from close_keeps_records [OF log_kept_holds [OF o(3)] c, of 0] h c o(1,2) show ?thesis by auto
qed

text \<open>Two rolls of a log with a record in it leave three segments.\<close>

lemma push_roll:
  assumes "log_ok lg qs p d" "live lg" "healthy d" "in_i64 (log_next lg)"
  obtains lg' d' qs' where "log_ok lg' qs' [] d'" "live lg'" "healthy d'" "lg_max lg' = lg_max lg"
    "length qs < length qs'" "log_next lg' = log_next lg + 1" "log_base lg' = log_base lg"
proof -
  obtain res lg1 d1 where a: "log_append lg None (Some [97]) (Some 5) 0 d = (res, lg1, d1)"
    by (metis prod_cases3)
  have enc: "encodable (stamped (log_next lg) None (Some [97]) (Some 5) 0)"
    using sample_fits [OF assms(4)] by (simp add: stamp_def sample_message_def)
  have res: "res = Inr (log_next lg)" using log_append_ok [OF assms(1,2) a] assms(3) enc by blast
  from log_append_ok [OF assms(1,2) a] assms(3) obtain qs1 p1 where
    l1: "log_ok lg1 qs1 p1 d1" "live lg1" "log_base lg1 = log_base lg" "lg_max lg1 = lg_max lg" "healthy d1"
      "p1 \<noteq> []" "prefix qs qs1"
      "concat qs1 @ p1 = concat qs @ p @ [stamped (log_next lg) None (Some [97]) (Some 5) 0]"
    unfolding res sum.case by blast
  obtain r2 lg2 d2 where r: "log_roll lg1 d1 = (r2, lg2, d2)" by (metis prod_cases3)
  from log_roll_ok [OF l1(1,2) r] l1(5,6) have
    "log_ok lg2 (qs1 @ [p1]) [] d2" "live lg2" "healthy d2" "lg_max lg2 = lg_max lg1" "log_next lg2 = log_next lg1"
    "log_base lg2 = log_base lg1" by auto
  moreover have "log_next lg1 = log_next lg + 1"
    using log_ok_records(2) [OF l1(1)] log_ok_records(2) [OF assms(1)] l1(3) by (simp add: l1(8))
  ultimately show ?thesis
    using l1 prefix_length_le [OF l1(7)] by (intro that [of lg2 "qs1 @ [p1]" d2]) simp_all
qed

theorem missing_segment_refused_witness:
  "\<exists>lg d xs s ys. lg_segments lg = xs @ s # ys \<and> xs \<noteq> [] \<and> ys \<noteq> []
    \<and> (\<exists>rs. log_holds (lg, d) 0 rs) \<and> fst (log_open 1024 (al_del (log_name (sg_base s)) d)) = Inl CorruptLog"
proof -
  obtain lg0 d0 where "log_kept 1024 0 (lg0, d0) 0 []" by (rule open_1024)
  then obtain qs0 p0 where l0: "log_ok lg0 qs0 p0 d0" "live lg0" "healthy d0" "log_base lg0 = 0"
    "concat qs0 @ p0 = []" by (auto simp: log_kept_def)
  then have n0: "log_next lg0 = 0" using log_ok_records(2) [OF l0(1)] by simp
  have i64: "in_i64 (log_next lg0)" by (simp add: n0 in_i64_def)
  obtain lg1 d1 qs1 where l1: "log_ok lg1 qs1 [] d1" "live lg1" "healthy d1" "length qs0 < length qs1"
    "log_next lg1 = log_next lg0 + 1" "log_base lg1 = log_base lg0"
    by (rule push_roll [OF l0(1-3) i64]) blast
  have i64': "in_i64 (log_next lg1)" by (simp add: n0 l1(5) in_i64_def)
  obtain lg d qs where l: "log_ok lg qs [] d" "live lg" "length qs1 < length qs" "log_base lg = log_base lg1"
    by (rule push_roll [OF l1(1-3) i64']) blast
  from log_okE [OF l(1)] obtain ss a where s: "lg_segments lg = ss @ [a]" "list_all2 (sealed_ok (lg_max lg) d) ss qs"
    by metis
  have "1 < length ss" using s(2) l(3) l1(4) by (auto dest: list_all2_lengthD)
  then obtain x y ss' where "ss = x # y # ss'" by (cases ss; cases "tl ss") auto
  then have segs: "lg_segments lg = [x] @ y # (ss' @ [a])" using s(1) by simp
  have holds: "log_holds (lg, d) 0 (concat qs)"
    unfolding log_holds_def using l l1(6) l0(4) by (intro exI [where x = qs] exI [where x = "[]"]) simp
  have "fst (log_open 1024 (al_del (log_name (sg_base y)) d)) = Inl CorruptLog"
    by (rule missing_segment_refused [OF holds segs]) (simp_all add: MAX_U32_def)
  with segs holds show ?thesis
    by (intro exI [where x = lg] exI [where x = d] exI [where x = "[x]"] exI [where x = y]
        exI [where x = "ss' @ [a]"]) auto
qed

end
