(* ===== verification/Partitioner.thy ===== *)
theory Partitioner
  imports Crc32 "HOL-Library.Multiset"
begin

text \<open>
  \<open>topic/partitioner.py\<close>: which partition a record goes to. The state is the round-robin counter
  \<open>_next\<close>; a record with a key goes where the checksum of the key says, one without takes its turn.
\<close>

section \<open>The partitioner\<close>

type_synonym partitioner = int

definition partitioner_init :: partitioner where
  "partitioner_init = 0"

definition partition_for :: "partitioner \<Rightarrow> bytes option \<Rightarrow> int \<Rightarrow> int result \<times> partitioner" where
  "partition_for nxt key partitions =
     (if partitions < 1 then (Inl ValueError, nxt)
      else
        (case key of
           None \<Rightarrow> (Inr (nxt mod partitions), nxt + 1)
         | Some k \<Rightarrow> (Inr (uint (crc32 k 0) mod partitions), nxt)))"

text \<open>A run of calls, as \<open>Topic.append\<close> makes them.\<close>

fun partition_run :: "partitioner \<Rightarrow> bytes option list \<Rightarrow> int \<Rightarrow> int result list \<times> partitioner" where
  "partition_run nxt [] n = ([], nxt)"
| "partition_run nxt (k # ks) n =
     (let (p, nxt1) = partition_for nxt k n; (ps, nxt2) = partition_run nxt1 ks n in (p # ps, nxt2))"

section \<open>Properties\<close>

lemma partition_for_cases:
  assumes "1 \<le> n"
  shows "partition_for nxt None n = (Inr (nxt mod n), nxt + 1)"
    "partition_for nxt (Some k) n = (Inr (uint (crc32 k 0) mod n), nxt)"
  using assms by (simp_all add: partition_for_def)

lemma partition_for_range:
  assumes "partition_for nxt key n = (Inr p, nxt')"
  shows "0 \<le> p \<and> p < n"
  using assms by (auto simp: partition_for_def split: if_split_asm option.splits)

text \<open>The answers of a run to the calls without a key, in order.\<close>

definition keyless :: "bytes option list \<Rightarrow> int result list \<Rightarrow> int list" where
  "keyless ks ps = map (\<lambda>(k, p). projr p) (filter (\<lambda>(k, p). k = None) (zip ks ps))"

lemma keyless_run:
  assumes "1 \<le> n" "partition_run nxt ks n = (ps, nxt')"
  shows "keyless ks ps = map (\<lambda>i. (nxt + int i) mod n) [0 ..< length (filter (\<lambda>k. k = None) ks)]
    \<and> nxt' = nxt + int (length (filter (\<lambda>k. k = None) ks))
    \<and> length ps = length ks
    \<and> (\<forall>i < length ks. \<exists>p. ps ! i = Inr p \<and> 0 \<le> p \<and> p < n
        \<and> (\<forall>k. ks ! i = Some k \<longrightarrow> p = uint (crc32 k 0) mod n))"
  using assms(2)
proof (induction ks arbitrary: nxt ps)
  case (Cons k ks)
  obtain p nxt1 where one: "partition_for nxt k n = (p, nxt1)" by (meson surj_pair)
  obtain qs where rest: "partition_run nxt1 ks n = (qs, nxt')" "ps = p # qs"
    using Cons.prems one by (auto split: prod.splits)
  note IH = Cons.IH [OF rest(1)]
  show ?case
  proof (cases k)
    case None
    then have p: "p = Inr (nxt mod n)" "nxt1 = nxt + 1"
      using one partition_for_cases(1) [OF assms(1)] by auto
    have "map (\<lambda>i. (nxt1 + int i) mod n) [0 ..< m] = map (\<lambda>i. (nxt + int i) mod n) [1 ..< Suc m]" for m
      by (simp add: p(2) map_Suc_upt [of 0, symmetric] comp_def add.assoc del: upt_Suc)
    with IH p None rest(2) assms(1) show ?thesis
      by (auto simp: keyless_def upt_conv_Cons nth_Cons split: nat.splits simp del: upt_Suc)
  next
    case (Some key)
    then have "p = Inr (uint (crc32 key 0) mod n)" "nxt1 = nxt"
      using one partition_for_cases(2) [OF assms(1)] by auto
    with IH Some rest(2) assms(1) show ?thesis
      by (auto simp: keyless_def nth_Cons split: nat.splits)
  qed
qed (simp add: keyless_def)

lemma turns_permute:
  assumes "1 \<le> (n :: int)"
  shows "mset (map (\<lambda>i. (c + int i) mod n) [0 ..< nat n]) = mset [0 .. n - 1]"
proof -
  have inj: "inj_on (\<lambda>i. (c + int i) mod n) {0 ..< nat n}"
  proof (rule inj_onI)
    fix i j assume ij: "i \<in> {0 ..< nat n}" "j \<in> {0 ..< nat n}" "(c + int i) mod n = (c + int j) mod n"
    then have "n dvd int i - int j" by (metis add_diff_cancel_left mod_eq_dvd_iff)
    moreover have "\<bar>int i - int j\<bar> < n" using ij(1,2) assms by (auto simp: zless_nat_eq_int_zless)
    ultimately have "int i - int j = 0" using zdvd_imp_le [of n "\<bar>int i - int j\<bar>"] by auto
    then show "i = j" by simp
  qed
  then have "distinct (map (\<lambda>i. (c + int i) mod n) [0 ..< nat n])" by (simp add: distinct_map)
  moreover have "set (map (\<lambda>i. (c + int i) mod n) [0 ..< nat n]) = {0 .. n - 1}"
  proof (rule card_subset_eq)
    show "set (map (\<lambda>i. (c + int i) mod n) [0 ..< nat n]) \<subseteq> {0 .. n - 1}" using assms by auto
    show "card (set (map (\<lambda>i. (c + int i) mod n) [0 ..< nat n])) = card {0 .. n - 1}"
      using inj assms by (simp add: card_image)
  qed simp
  ultimately show ?thesis by (intro set_eq_iff_mset_eq_distinct [THEN iffD1]) simp_all
qed

text \<open>
  Where records go: every call answers a partition in range; one with a key always the
  same, whatever was called before or on which instance; and those without a key take turns, so that
  of any \<open>n\<close> of them in a row, with any keyed calls in between, every partition gets exactly one.
\<close>

theorem partitioner_contract:
  assumes "1 \<le> n" and "partition_run nxt ks n = (ps, nxt')"
  shows "(\<forall>i < length ks. \<exists>p. ps ! i = Inr p \<and> 0 \<le> p \<and> p < n
        \<and> (\<forall>k. ks ! i = Some k \<longrightarrow> p = uint (crc32 k 0) mod n))
    \<and> (length (filter (\<lambda>k. k = None) ks) = nat n \<longrightarrow> mset (keyless ks ps) = mset [0 .. n - 1])"
  using keyless_run [OF assms] turns_permute [OF assms(1), of nxt] by (metis (no_types, lifting))

theorem partitioner_contract_witness:
  "partition_run 5 [None, Some [0x31, 0x32, 0x33, 0x34, 0x35, 0x36, 0x37, 0x38, 0x39], None, None] 3
     = ([Inr 2, Inr 2, Inr 0, Inr 1], 8)
   \<and> mset (keyless [None, Some [0x31, 0x32, 0x33, 0x34, 0x35, 0x36, 0x37, 0x38, 0x39], None, None]
       [Inr 2, Inr 2, Inr 0, Inr 1]) = mset [0 .. 2]"
proof -
  have "partition_run 5 [None, Some [0x31, 0x32, 0x33, 0x34, 0x35, 0x36, 0x37, 0x38, 0x39], None, None] 3
      = ([Inr 2, Inr 2, Inr 0, Inr 1], 8)"
    by (simp add: partition_for_def crc32_check_value)
  with partitioner_contract [OF _ this] show ?thesis by simp
qed

end
