(* ===== verification/Sync_Policy.thy ===== *)
theory Sync_Policy
  imports Prelude Complex_Main
begin

text \<open>
  \<open>topic/policy.py\<close>: when a partition calls for an \<open>fsync\<close>, from the number of appends and the time
  since the last one. Clock readings are exact rational seconds.
\<close>

record sync_policy =
  sp_records :: "int option"
  sp_millis :: "int option"

definition should_sync :: "sync_policy \<Rightarrow> int \<Rightarrow> rat \<Rightarrow> bool" where
  "should_sync pol appends millis =
     (if (case sp_records pol of None \<Rightarrow> False | Some n \<Rightarrow> n \<le> appends) then True
      else if (case sp_millis pol of None \<Rightarrow> False | Some m \<Rightarrow> of_int m \<le> millis) then True
      else False)"

definition SYNC_EVERY_RECORD :: sync_policy where
  "SYNC_EVERY_RECORD = \<lparr>sp_records = Some 1, sp_millis = None\<rparr>"

definition SYNC_NEVER :: sync_policy where
  "SYNC_NEVER = \<lparr>sp_records = None, sp_millis = None\<rparr>"

lemma should_sync_records: "sp_records pol = Some n \<Longrightarrow> n \<le> a \<Longrightarrow> should_sync pol a t"
  by (simp add: should_sync_def)

lemma should_sync_millis: "sp_millis pol = Some m \<Longrightarrow> of_int m \<le> t \<Longrightarrow> should_sync pol a t"
  by (simp add: should_sync_def)

lemma should_sync_mono: "should_sync pol a t \<Longrightarrow> a \<le> a' \<Longrightarrow> t \<le> t' \<Longrightarrow> should_sync pol a' t'"
  by (auto simp: should_sync_def split: if_split_asm option.splits)

lemma sync_never [simp]: "\<not> should_sync SYNC_NEVER a t"
  by (simp add: should_sync_def SYNC_NEVER_def)

lemma sync_every_record [simp]: "should_sync SYNC_EVERY_RECORD a t \<longleftrightarrow> 1 \<le> a"
  by (simp add: should_sync_def SYNC_EVERY_RECORD_def)

end
