(* ===== verification/Blake2b.thy ===== *)
theory Blake2b
  imports Bytes
begin

text \<open>
  \<open>hashlib.blake2b\<close> without a key (RFC 7693), as the placement of partitions uses it: 64-bit words,
  blocks of 128 bytes, twelve rounds. Everything is executable.
\<close>

unbundle bit_operations_syntax

type_synonym word64 = "64 word"

definition blake_iv :: "word64 list" where
  "blake_iv =
     [0x6a09e667f3bcc908, 0xbb67ae8584caa73b, 0x3c6ef372fe94f82b, 0xa54ff53a5f1d36f1,
      0x510e527fade682d1, 0x9b05688c2b3e6c1f, 0x1f83d9abfb41bd6b, 0x5be0cd19137e2179]"

definition blake_sigma :: "nat list list" where
  "blake_sigma =
     [[0, 1, 2, 3, 4, 5, 6, 7, 8, 9, 10, 11, 12, 13, 14, 15],
      [14, 10, 4, 8, 9, 15, 13, 6, 1, 12, 0, 2, 11, 7, 5, 3],
      [11, 8, 12, 0, 5, 2, 15, 13, 10, 14, 3, 6, 7, 1, 9, 4],
      [7, 9, 3, 1, 13, 12, 11, 14, 2, 6, 5, 10, 4, 0, 15, 8],
      [9, 0, 5, 7, 2, 4, 10, 15, 14, 1, 11, 12, 6, 8, 3, 13],
      [2, 12, 6, 10, 0, 11, 8, 3, 4, 13, 7, 5, 15, 14, 1, 9],
      [12, 5, 1, 15, 14, 13, 4, 10, 0, 7, 6, 3, 9, 2, 8, 11],
      [13, 11, 7, 14, 12, 1, 3, 9, 5, 0, 15, 4, 8, 6, 2, 10],
      [6, 15, 14, 9, 11, 3, 0, 8, 12, 2, 13, 7, 1, 4, 10, 5],
      [10, 2, 8, 4, 7, 6, 1, 5, 15, 11, 9, 14, 3, 12, 13, 0]]"

definition le_word :: "bytes \<Rightarrow> word64" where
  "le_word bs = foldr (\<lambda>b w. push_bit 8 w OR ucast b) bs 0"

fun le_words :: "nat \<Rightarrow> bytes \<Rightarrow> word64 list" where
  "le_words 0 bs = []"
| "le_words (Suc n) bs = le_word (take 8 bs) # le_words n (drop 8 bs)"

definition mix :: "word64 list \<Rightarrow> nat \<times> nat \<times> nat \<times> nat \<Rightarrow> word64 \<Rightarrow> word64 \<Rightarrow> word64 list" where
  "mix v idx x y =
     (case idx of (a, b, c, d) \<Rightarrow>
        let va = v ! a + v ! b + x;
            vd = word_rotr 32 (v ! d XOR va);
            vc = v ! c + vd;
            vb = word_rotr 24 (v ! b XOR vc);
            va = va + vb + y;
            vd = word_rotr 16 (vd XOR va);
            vc = vc + vd;
            vb = word_rotr 63 (vb XOR vc)
        in v[a := va, b := vb, c := vc, d := vd])"

definition mix_indices :: "(nat \<times> nat \<times> nat \<times> nat) list" where
  "mix_indices = [(0, 4, 8, 12), (1, 5, 9, 13), (2, 6, 10, 14), (3, 7, 11, 15),
                  (0, 5, 10, 15), (1, 6, 11, 12), (2, 7, 8, 13), (3, 4, 9, 14)]"

fun mix_all :: "word64 list \<Rightarrow> word64 list \<Rightarrow> (nat \<times> nat \<times> nat \<times> nat) list \<Rightarrow> nat list \<Rightarrow> word64 list" where
  "mix_all m v (idx # idxs) (i # j # s) = mix_all m (mix v idx (m ! i) (m ! j)) idxs s"
| "mix_all m v _ _ = v"

definition blake_round :: "word64 list \<Rightarrow> word64 list \<Rightarrow> nat \<Rightarrow> word64 list" where
  "blake_round m v r = mix_all m v mix_indices (blake_sigma ! (r mod 10))"

definition compress :: "word64 list \<Rightarrow> bytes \<Rightarrow> nat \<Rightarrow> bool \<Rightarrow> word64 list" where
  "compress h block t final =
     (let m = le_words 16 block;
          v = h @ blake_iv;
          v = v[12 := v ! 12 XOR of_nat (t mod 2 ^ 64), 13 := v ! 13 XOR of_nat (t div 2 ^ 64)];
          v = (if final then v[14 := NOT (v ! 14)] else v);
          v = foldl (blake_round m) v [0 ..< 12]
      in map (\<lambda>i. h ! i XOR v ! i XOR v ! (i + 8)) [0 ..< 8])"

function blake_blocks :: "word64 list \<Rightarrow> nat \<Rightarrow> bytes \<Rightarrow> word64 list" where
  "blake_blocks h t msg =
     (if length msg \<le> 128 then compress h (msg @ replicate (128 - length msg) 0) (t + length msg) True
      else blake_blocks (compress h (take 128 msg) (t + 128) False) (t + 128) (drop 128 msg))"
  by pat_completeness auto
termination
  by (relation "measure (\<lambda>(h, t, msg). length msg)") auto

declare blake_blocks.simps [simp del]

text \<open>The digest of \<open>n\<close> bytes.\<close>

definition blake2b :: "nat \<Rightarrow> bytes \<Rightarrow> bytes" where
  "blake2b n msg =
     (let h0 = blake_iv[0 := hd blake_iv XOR (0x01010000 XOR of_nat n)];
          h = blake_blocks h0 0 msg
      in take n (concat (map (\<lambda>w. map (\<lambda>i. ucast (drop_bit (8 * i) w)) [0 ..< 8]) h)))"

lemma length_compress [simp]: "length (compress h b t f) = 8"
  by (simp add: compress_def Let_def)

lemma length_blake_blocks [simp]: "length (blake_blocks h t msg) = 8"
  by (induction h t msg rule: blake_blocks.induct) (subst blake_blocks.simps, simp)

lemma length_blake2b: "n \<le> 64 \<Longrightarrow> length (blake2b n msg) = n"
proof -
  assume "n \<le> 64"
  have "length (concat (map (\<lambda>w. map (\<lambda>i. ucast (drop_bit (8 * i) w) :: byte) [0 ..< 8]) (h :: word64 list))) = 8 * length h"
    for h by (induction h) simp_all
  with \<open>n \<le> 64\<close> show ?thesis by (simp add: blake2b_def Let_def)
qed

end
