(* ===== verification/Cluster_Ring.thy ===== *)
theory Cluster_Ring
  imports Blake2b Py_Text Bisect
begin

text \<open>
  \<open>cluster/ring.py\<close>: which broker owns a partition. \<open>ring\<close> is the class \<open>Ring\<close> and \<open>hash_ring\<close> its
  subclass \<open>HashRing\<close>; a method of \<open>Ring\<close> that calls \<open>self.broker_for\<close> takes it as an argument, which
  is the subclass's when the object is a \<open>HashRing\<close>. The locale \<open>placement\<close> is what the cluster needs
  of either.
\<close>

section \<open>Rings\<close>

record ring =
  rg_brokers :: int
  rg_me :: int
  rg_template :: string

definition ring_init :: "int \<Rightarrow> int \<Rightarrow> string \<Rightarrow> ring result" where
  "ring_init brokers me tmpl =
     (if brokers < 1 then Inl ValueError
      else if \<not> (0 \<le> me \<and> me < brokers) then Inl ValueError
      else Inr \<lparr>rg_brokers = brokers, rg_me = me, rg_template = tmpl\<rparr>)"

definition ring_broker_for :: "'a ring_scheme \<Rightarrow> string \<Rightarrow> int \<Rightarrow> int result" where
  "ring_broker_for r topic part =
     (if part < 0 then Inl ValueError else Inr (part mod rg_brokers r))"

type_synonym 'a broker_of = "'a ring_scheme \<Rightarrow> string \<Rightarrow> int \<Rightarrow> int result"

definition owns :: "'a broker_of \<Rightarrow> 'a ring_scheme \<Rightarrow> string \<Rightarrow> int \<Rightarrow> bool result" where
  "owns broker_for r topic part =
     bind_result (broker_for r topic part) (\<lambda>b. Inr (b = rg_me r))"

fun collect_owned :: "(int \<Rightarrow> bool result) \<Rightarrow> int list \<Rightarrow> int list result" where
  "collect_owned own [] = Inr []"
| "collect_owned own (p # ps) =
     bind_result (own p) (\<lambda>mine. bind_result (collect_owned own ps)
       (\<lambda>rest. Inr (if mine then p # rest else rest)))"

definition my_partitions :: "'a broker_of \<Rightarrow> 'a ring_scheme \<Rightarrow> string \<Rightarrow> int \<Rightarrow> int list result" where
  "my_partitions broker_for r topic partitions =
     collect_owned (owns broker_for r topic) [0 .. partitions - 1]"

text \<open>
  \<open>address_template.format(ordinal=broker)\<close>: doubled braces stand for themselves, \<open>{ordinal}\<close> for the
  number, any other field is a \<open>KeyError\<close>, a single brace a \<open>ValueError\<close>. Conversions and format
  specifications inside the field count as another field.
\<close>

fun py_format :: "int \<Rightarrow> string \<Rightarrow> string result" where
  "py_format n [] = Inr []"
| "py_format n (c # cs) =
     (if c = CHR ''{'' then
        (case cs of
           [] \<Rightarrow> Inl ValueError
         | c' # cs' \<Rightarrow>
             if c' = CHR ''{'' then bind_result (py_format n cs') (\<lambda>s. Inr (CHR ''{'' # s))
             else if take 8 cs = ''ordinal}'' then bind_result (py_format n (drop 8 cs)) (\<lambda>s. Inr (int_text n @ s))
             else if CHR ''}'' \<in> set cs then Inl KeyError
             else Inl ValueError)
      else if c = CHR ''}'' then
        (case cs of
           [] \<Rightarrow> Inl ValueError
         | c' # cs' \<Rightarrow>
             if c' = CHR ''}'' then bind_result (py_format n cs') (\<lambda>s. Inr (CHR ''}'' # s))
             else Inl ValueError)
      else bind_result (py_format n cs) (\<lambda>s. Inr (c # s)))"

definition address_of :: "'a ring_scheme \<Rightarrow> int \<Rightarrow> string result" where
  "address_of r broker =
     (if \<not> (0 \<le> broker \<and> broker < rg_brokers r) then Inl ValueError
      else py_format broker (rg_template r))"

fun routes :: "(int \<Rightarrow> string result) \<Rightarrow> int list \<Rightarrow> (int \<times> string) list result" where
  "routes addr [] = Inr []"
| "routes addr (p # ps) =
     bind_result (addr p) (\<lambda>a. bind_result (routes addr ps) (\<lambda>rest. Inr ((p, a) # rest)))"

definition routing_table :: "'a broker_of \<Rightarrow> 'a ring_scheme \<Rightarrow> string \<Rightarrow> int \<Rightarrow> (int \<times> string) list result" where
  "routing_table broker_for r topic partitions =
     routes (\<lambda>p. bind_result (broker_for r topic p) (address_of r)) [0 .. partitions - 1]"

section \<open>The circle\<close>

definition digest :: "string \<Rightarrow> int" where
  "digest text = be_val (blake2b 8 (utf8 text))"

text \<open>A point of the circle: a pair, ordered as Python orders tuples.\<close>

datatype point = Point (pt_key: int) (pt_broker: int)

instantiation point :: linorder
begin

definition less_eq_point :: "point \<Rightarrow> point \<Rightarrow> bool" where
  "p \<le> q \<longleftrightarrow> pt_key p < pt_key q \<or> (pt_key p = pt_key q \<and> pt_broker p \<le> pt_broker q)"

definition less_point :: "point \<Rightarrow> point \<Rightarrow> bool" where
  "p < q \<longleftrightarrow> pt_key p < pt_key q \<or> (pt_key p = pt_key q \<and> pt_broker p < pt_broker q)"

instance
  by standard (auto simp: less_eq_point_def less_point_def intro: point.expand)

end

record hash_ring = ring +
  hr_vnodes :: int
  hr_points :: "point list"
  hr_keys :: "int list"

definition broker_point :: "int \<Rightarrow> int \<Rightarrow> point" where
  "broker_point broker v = Point (digest (''broker-'' @ int_text broker @ ''#'' @ int_text v)) broker"

definition circle_points :: "int \<Rightarrow> int \<Rightarrow> point list" where
  "circle_points brokers vnodes =
     concat (map (\<lambda>broker. map (broker_point broker) [0 .. vnodes - 1]) [0 .. brokers - 1])"

definition hash_ring_init :: "int \<Rightarrow> int \<Rightarrow> string \<Rightarrow> int \<Rightarrow> hash_ring result" where
  "hash_ring_init brokers me tmpl vnodes =
     bind_result (ring_init brokers me tmpl) (\<lambda>r.
       if vnodes < 1 then Inl ValueError
       else
         let points = sort (circle_points (rg_brokers r) vnodes)
         in Inr \<lparr>rg_brokers = rg_brokers r, rg_me = rg_me r, rg_template = rg_template r,
                 hr_vnodes = vnodes, hr_points = points, hr_keys = map pt_key points\<rparr>)"

definition hash_broker_for :: "hash_ring \<Rightarrow> string \<Rightarrow> int \<Rightarrow> int result" where
  "hash_broker_for r topic part =
     (if part < 0 then Inl ValueError
      else
        let i = bisect_right (hr_keys r) (digest (topic @ '':'' @ int_text part))
        in Inr (pt_broker (hr_points r ! (i mod length (hr_points r)))))"

section \<open>The identity of a broker\<close>

text \<open>\<open>text.rpartition("-")\<close>, its last part: what follows the last dash, all of it if there is none.\<close>

definition after_last_dash :: "string \<Rightarrow> string" where
  "after_last_dash s = rev (takeWhile (\<lambda>c. c \<noteq> CHR ''-'') (rev s))"

definition env_get :: "(string \<times> string) list \<Rightarrow> string \<Rightarrow> string \<Rightarrow> string" where
  "env_get env k dflt = (case map_of env k of None \<Rightarrow> dflt | Some v \<Rightarrow> v)"

definition parse_int :: "string \<Rightarrow> int result" where
  "parse_int s = (case py_int s of None \<Rightarrow> Inl ValueError | Some n \<Rightarrow> Inr n)"

definition from_env ::
  "(int \<Rightarrow> int \<Rightarrow> string \<Rightarrow> 'r result) \<Rightarrow> (string \<times> string) list \<Rightarrow> string \<Rightarrow> 'r result" where
  "from_env cls env gethostname =
     bind_result (parse_int (env_get env ''PYKA_BROKERS'' ''1'')) (\<lambda>brokers.
       let port = env_get env ''PYKA_PORT'' ''9092'';
           hostname = (case map_of env ''HOSTNAME'' of
                         None \<Rightarrow> gethostname
                       | Some h \<Rightarrow> if h = '''' then gethostname else h);
           suffix = after_last_dash hostname
       in bind_result
            (if py_isdigit suffix then parse_int suffix
             else if brokers = 1 then Inr 0
             else Inl ValueError)
            (\<lambda>me. cls brokers me (env_get env ''PYKA_ADDRESS_TEMPLATE'' (''localhost:'' @ port))))"

section \<open>What the cluster needs of a placement\<close>

text \<open>
  Every partition has an owner among the brokers, and the answer does not depend on who asks.
\<close>

locale placement =
  fixes brokers :: int
    and answer :: "int \<Rightarrow> string \<Rightarrow> int \<Rightarrow> int result"
  assumes in_cluster: "0 \<le> me \<Longrightarrow> me < brokers \<Longrightarrow> 0 \<le> p \<Longrightarrow>
      \<exists>b. answer me t p = Inr b \<and> 0 \<le> b \<and> b < brokers"
    and same_everywhere: "0 \<le> me \<Longrightarrow> me < brokers \<Longrightarrow> 0 \<le> me' \<Longrightarrow> me' < brokers \<Longrightarrow>
      answer me t p = answer me' t p"
    and below_zero: "p < 0 \<Longrightarrow> answer me t p = Inl ValueError"
begin

lemma one_owner:
  assumes "0 < brokers" "0 \<le> p"
  shows "\<exists>!me. 0 \<le> me \<and> me < brokers \<and> answer me t p = Inr me"
proof -
  obtain b where b: "answer 0 t p = Inr b" "0 \<le> b" "b < brokers"
    using in_cluster [of 0 p t] assms by auto
  then have all: "answer me t p = Inr b" if "0 \<le> me" "me < brokers" for me
    using same_everywhere [of me 0 t p] that assms(1) by simp
  show ?thesis
  proof (rule ex1I [of _ b])
    show "0 \<le> b \<and> b < brokers \<and> answer b t p = Inr b" using b all by blast
    show "me = b" if "0 \<le> me \<and> me < brokers \<and> answer me t p = Inr me" for me
      using that all by force
  qed
qed

text \<open>The partitions of a topic, as the brokers list their own, are each listed by exactly one.\<close>

lemma shares_disjoint:
  assumes "0 \<le> me" "me < brokers" "0 \<le> me'" "me' < brokers" "answer me t p = Inr me" "answer me' t p = Inr me'"
  shows "me = me'"
  using same_everywhere [OF assms(1-4), of t p] assms(5,6) by simp

end

lemma collect_owned_filter:
  assumes "\<forall>p \<in> set ps. own p = Inr (P p)"
  shows "collect_owned own ps = Inr (filter P ps)"
  using assms by (induction ps) auto

lemma routes_map:
  assumes "\<forall>p \<in> set ps. addr p = addr' p"
  shows "routes addr ps = routes addr' ps"
  using assms by (induction ps) auto

section \<open>Modulo placement\<close>

abbreviation mod_ring :: "int \<Rightarrow> string \<Rightarrow> int \<Rightarrow> ring" where
  "mod_ring n tmpl me \<equiv> \<lparr>rg_brokers = n, rg_me = me, rg_template = tmpl\<rparr>"

lemma ring_init_ok: "ring_init n me tmpl = Inr r \<longleftrightarrow> 0 \<le> me \<and> me < n \<and> r = mod_ring n tmpl me"
  by (auto simp: ring_init_def)

interpretation modulo: placement n "\<lambda>me. ring_broker_for (mod_ring n tmpl me)" for n tmpl
  by unfold_locales (auto simp: ring_broker_for_def)

section \<open>Placement on the circle\<close>

text \<open>The ring of \<open>n\<close> brokers as \<open>hash_ring_init\<close> builds it.\<close>

definition circle :: "int \<Rightarrow> int \<Rightarrow> point list" where
  "circle n vnodes = sort (circle_points n vnodes)"

abbreviation built_ring :: "int \<Rightarrow> string \<Rightarrow> int \<Rightarrow> int \<Rightarrow> hash_ring" where
  "built_ring n tmpl vnodes me \<equiv> \<lparr>rg_brokers = n, rg_me = me, rg_template = tmpl,
     hr_vnodes = vnodes, hr_points = circle n vnodes, hr_keys = map pt_key (circle n vnodes)\<rparr>"

lemma hash_ring_init_ok:
  "hash_ring_init n me tmpl vnodes = Inr r \<longleftrightarrow> 0 \<le> me \<and> me < n \<and> 1 \<le> vnodes \<and> r = built_ring n tmpl vnodes me"
  by (auto simp: hash_ring_init_def ring_init_ok Let_def circle_def)

lemma set_circle_points:
  "set (circle_points n vnodes) = {broker_point b v | b v. 0 \<le> b \<and> b < n \<and> 0 \<le> v \<and> v < vnodes}"
  unfolding circle_points_def by force

lemma circle_not_Nil: "0 < n \<Longrightarrow> 0 < vnodes \<Longrightarrow> circle n vnodes \<noteq> []"
proof -
  assume "0 < n" "0 < vnodes"
  then have "broker_point 0 0 \<in> set (circle n vnodes)" by (auto simp: circle_def set_circle_points)
  then show ?thesis by auto
qed

lemma pt_broker_point [simp]: "pt_broker (broker_point b v) = b"
  by (simp add: broker_point_def)

text \<open>The successor of a key: the first point with a larger key, the first of all when there is none.\<close>

definition successor :: "point list \<Rightarrow> int \<Rightarrow> point" where
  "successor ps x = (let after = filter (\<lambda>q. x < pt_key q) ps in hd (if after = [] then ps else after))"

lemma sorted_keys: "sorted ps \<Longrightarrow> sorted (map pt_key ps)"
  unfolding sorted_map by (erule sorted_wrt_mono_rel [rotated]) (auto simp: less_eq_point_def)

lemma bisect_successor:
  assumes "sorted ps" "ps \<noteq> []"
  shows "ps ! (bisect_right (map pt_key ps) x mod length ps) = successor ps x"
proof -
  let ?n = "bisect_right (map pt_key ps) x"
  note keys = sorted_keys [OF assms(1)]
  have n: "?n \<le> length ps" using bisect_right_le [of "map pt_key ps" x] by simp
  have low: "\<not> x < pt_key q" if "q \<in> set (take ?n ps)" for q
  proof -
    from that n obtain i where "i < ?n" "q = ps ! i" by (auto simp: in_set_conv_nth)
    with bisect_right_below [OF keys, of i x] n show ?thesis by simp
  qed
  have high: "x < pt_key q" if "q \<in> set (drop ?n ps)" for q
  proof -
    from that obtain i where "i < length (drop ?n ps)" "drop ?n ps ! i = q" by (meson in_set_conv_nth)
    then have "?n + i < length ps" "q = ps ! (?n + i)" using n by auto
    with bisect_right_above [OF keys, of x "?n + i"] show ?thesis by simp
  qed
  have "filter (\<lambda>q. x < pt_key q) ps
      = filter (\<lambda>q. x < pt_key q) (take ?n ps) @ filter (\<lambda>q. x < pt_key q) (drop ?n ps)"
    by (metis append_take_drop_id filter_append)
  also have "filter (\<lambda>q. x < pt_key q) (take ?n ps) = []" using low by (auto simp: filter_empty_conv)
  also have "filter (\<lambda>q. x < pt_key q) (drop ?n ps) = drop ?n ps" using high by (simp add: filter_id_conv)
  finally have after: "filter (\<lambda>q. x < pt_key q) ps = drop ?n ps" by simp
  show ?thesis
  proof (cases "?n = length ps")
    case True
    then show ?thesis using assms(2) by (simp add: successor_def after hd_conv_nth)
  next
    case False
    then show ?thesis using n assms(2) by (simp add: successor_def after hd_drop_conv_nth)
  qed
qed

lemma successor_in: "ps \<noteq> [] \<Longrightarrow> successor ps x \<in> set ps"
  using hd_in_set [of ps] hd_in_set [of "filter (\<lambda>q. x < pt_key q) ps"]
  by (auto simp: successor_def Let_def)

definition place :: "int \<Rightarrow> int \<Rightarrow> string \<Rightarrow> int \<Rightarrow> int" where
  "place n vnodes topic part = pt_broker (successor (circle n vnodes) (digest (topic @ '':'' @ int_text part)))"

lemma hash_broker_for_place:
  assumes "0 < n" "0 < vnodes" "0 \<le> part"
  shows "hash_broker_for (built_ring n tmpl vnodes me) topic part = Inr (place n vnodes topic part)"
  using bisect_successor [OF _ circle_not_Nil [OF assms(1,2)]] assms(3)
  by (simp add: hash_broker_for_def place_def circle_def Let_def)

lemma place_in_cluster:
  assumes "0 < n" "0 < vnodes"
  shows "0 \<le> place n vnodes topic part \<and> place n vnodes topic part < n"
  using successor_in [OF circle_not_Nil [OF assms], of "digest (topic @ '':'' @ int_text part)"]
  by (auto simp: place_def circle_def set_circle_points)

interpretation hashed: placement n "\<lambda>me. hash_broker_for (built_ring n tmpl (1 + \<bar>k\<bar>) me)" for n tmpl k
proof
  fix me p :: int and t :: string
  assume "0 \<le> me" "me < n" "0 \<le> p"
  then show "\<exists>b. hash_broker_for (built_ring n tmpl (1 + \<bar>k\<bar>) me) t p = Inr b \<and> 0 \<le> b \<and> b < n"
    using place_in_cluster [of n "1 + \<bar>k\<bar>" t p] by (simp add: hash_broker_for_place)
qed (simp_all add: hash_broker_for_def)

section \<open>Adding brokers\<close>

lemma sort_Nil_iff [simp]: "sort xs = [] \<longleftrightarrow> (xs :: 'a :: linorder list) = []"
  by (metis set_empty set_sort)

lemma hd_sort_append:
  assumes "hd (sort (xs @ ys)) \<notin> set ys" "xs \<noteq> []"
  shows "hd (sort (xs @ ys)) = (hd (sort xs) :: 'a :: linorder)"
proof -
  have hd_le: "\<forall>z \<in> set zs. hd (sort zs) \<le> z" for zs :: "'a list"
  proof
    fix z assume "z \<in> set zs"
    then have "z \<in> set (sort zs)" by simp
    then show "hd (sort zs) \<le> z" using sorted_sort [of zs] by (cases "sort zs") auto
  qed
  have hd_in: "hd (sort zs) \<in> set zs" if "zs \<noteq> []" for zs :: "'a list"
    using that hd_in_set [of "sort zs"] by simp
  have "hd (sort (xs @ ys)) \<in> set xs" using hd_in [of "xs @ ys"] assms by auto
  then show ?thesis using hd_le [of xs] hd_le [of "xs @ ys"] hd_in [OF assms(2)] by (auto intro: antisym)
qed

lemma successor_more:
  assumes "successor (sort (xs @ ys)) k \<notin> set ys" "xs \<noteq> []"
  shows "successor (sort (xs @ ys)) k = successor (sort xs) k"
proof -
  let ?f = "filter (\<lambda>q. k < pt_key q)"
  have sorts: "?f (sort zs) = sort (?f zs)" for zs by (simp add: filter_sort)
  show ?thesis
  proof (cases "?f (xs @ ys) = []")
    case True
    then have "?f xs = []" by simp
    with True hd_sort_append [of xs ys] assms show ?thesis by (simp add: successor_def sorts)
  next
    case False
    then have s: "successor (sort (xs @ ys)) k = hd (sort (?f xs @ ?f ys))"
      by (auto simp: successor_def sorts)
    have notin: "hd (sort (?f xs @ ?f ys)) \<notin> set (?f ys)" using assms(1) s by auto
    have "?f xs \<noteq> []"
    proof
      assume "?f xs = []"
      then have "hd (sort (?f xs @ ?f ys)) \<in> set (?f ys)"
        using False hd_in_set [of "sort (?f ys)"] by simp
      with notin show False by blast
    qed
    moreover from this have "sort (?f xs) \<noteq> []" by (metis set_empty set_sort)
    ultimately show ?thesis using hd_sort_append [OF notin] s by (simp add: successor_def sorts)
  qed
qed

lemma circle_points_more:
  assumes "0 \<le> n" "n \<le> m"
  shows "circle_points m vnodes = circle_points n vnodes
    @ concat (map (\<lambda>broker. map (broker_point broker) [0 .. vnodes - 1]) [n .. m - 1])"
proof -
  have "[0 .. m - 1] = [0 .. n - 1] @ [n .. m - 1]"
    using assms upto_split1 [of 0 n "m - 1"] by (cases "n = m") auto
  then show ?thesis by (simp add: circle_points_def)
qed

lemma place_grow:
  assumes "0 < n" "n \<le> m" "0 < vnodes"
  shows "place m vnodes topic part = place n vnodes topic part \<or> n \<le> place m vnodes topic part"
proof -
  let ?x = "digest (topic @ '':'' @ int_text part)"
  define new where "new = concat (map (\<lambda>broker. map (broker_point broker) [0 .. vnodes - 1]) [n .. m - 1])"
  have pts: "circle m vnodes = sort (circle_points n vnodes @ new)"
    using circle_points_more [of n m vnodes] assms by (simp add: circle_def new_def)
  have "circle_points n vnodes \<noteq> []"
    using circle_not_Nil [OF assms(1,3)] by (auto simp: circle_def)
  moreover have "n \<le> pt_broker q" if "q \<in> set new" for q
    using that by (auto simp: new_def)
  ultimately show ?thesis
    using successor_more [of "circle_points n vnodes" new ?x]
    unfolding place_def pts circle_def [of n] by metis
qed

section \<open>Properties\<close>

text \<open>
  Property C6. No partition has two owners and none is without: of the brokers of a cluster, each
  built from the same number of brokers, exactly one answers that it owns a given partition, whatever
  the topic, on either kind of ring; and every broker hands out the same routing table.
\<close>

theorem exactly_one_owner:
  assumes "0 < n" and "1 \<le> vnodes" and "0 \<le> p"
  shows "(\<exists>!me. \<exists>r. hash_ring_init n me tmpl vnodes = Inr r \<and> owns hash_broker_for r topic p = Inr True)
    \<and> (\<exists>!me. \<exists>r. ring_init n me tmpl = Inr r \<and> owns ring_broker_for r topic p = Inr True)
    \<and> (\<forall>me r me' r'. hash_ring_init n me tmpl vnodes = Inr r \<longrightarrow> hash_ring_init n me' tmpl vnodes = Inr r' \<longrightarrow>
         routing_table hash_broker_for r topic k = routing_table hash_broker_for r' topic k)"
proof (intro conjI)
  have v: "1 + \<bar>vnodes - 1\<bar> = vnodes" using assms(2) by simp
  have "owns hash_broker_for (built_ring n tmpl vnodes me) topic p = Inr True
      \<longleftrightarrow> hash_broker_for (built_ring n tmpl vnodes me) topic p = Inr me" for me
    by (auto simp: owns_def)
  then show "\<exists>!me. \<exists>r. hash_ring_init n me tmpl vnodes = Inr r \<and> owns hash_broker_for r topic p = Inr True"
    using hashed.one_owner [OF assms(1,3), of tmpl "vnodes - 1" topic] assms(2)
    unfolding v hash_ring_init_ok by (metis (no_types, lifting))
  have "owns ring_broker_for (mod_ring n tmpl me) topic p = Inr True
      \<longleftrightarrow> ring_broker_for (mod_ring n tmpl me) topic p = Inr me" for me
    by (auto simp: owns_def)
  then show "\<exists>!me. \<exists>r. ring_init n me tmpl = Inr r \<and> owns ring_broker_for r topic p = Inr True"
    using modulo.one_owner [OF assms(1,3), of tmpl topic] unfolding ring_init_ok by (metis (no_types, lifting))
  show "\<forall>me r me' r'. hash_ring_init n me tmpl vnodes = Inr r \<longrightarrow> hash_ring_init n me' tmpl vnodes = Inr r' \<longrightarrow>
         routing_table hash_broker_for r topic k = routing_table hash_broker_for r' topic k"
    by (auto simp: hash_ring_init_ok routing_table_def hash_broker_for_def address_of_def
        intro!: routes_map)
qed

theorem exactly_one_owner_witness:
  "\<exists>!me. \<exists>r. hash_ring_init 3 me ''pyka-{ordinal}:9092'' 128 = Inr r
      \<and> owns hash_broker_for r ''orders'' 4 = Inr True"
  using exactly_one_owner [of 3 128 4 "''pyka-{ordinal}:9092''" "''orders''"] by simp

text \<open>
  Property C38. Resizing moves only what it must: when a cluster on the circle grows from \<open>n\<close> to \<open>m\<close>
  brokers, every partition of every topic stays where it is or moves to one of the new brokers. Read
  the other way, removing brokers moves only their own partitions.
\<close>

theorem growth_moves_to_new_brokers_only:
  assumes "hash_ring_init n me tmpl vnodes = Inr r" and "hash_ring_init m me' tmpl' vnodes = Inr r'"
    and "n \<le> m" and "0 \<le> p"
  shows "\<exists>b b'. hash_broker_for r topic p = Inr b \<and> hash_broker_for r' topic p = Inr b'
    \<and> 0 \<le> b \<and> b < n \<and> b' < m \<and> (b' = b \<or> n \<le> b')"
proof -
  from assms(1,2) have i: "0 < n" "0 < m" "0 < vnodes" "r = built_ring n tmpl vnodes me"
    "r' = built_ring m tmpl' vnodes me'" by (auto simp: hash_ring_init_ok)
  have "hash_broker_for r topic p = Inr (place n vnodes topic p)"
    "hash_broker_for r' topic p = Inr (place m vnodes topic p)"
    unfolding i(4,5) using hash_broker_for_place i(1-3) assms(4) by blast+
  then show ?thesis
    using place_grow [OF i(1) assms(3) i(3), of topic p] place_in_cluster [OF i(1,3), of topic p]
      place_in_cluster [OF i(2,3), of topic p] by auto
qed

theorem growth_moves_to_new_brokers_only_witness:
  "\<exists>r r' b b'. hash_ring_init 1 0 ''a'' 2 = Inr r \<and> hash_ring_init 2 1 ''b'' 2 = Inr r'
    \<and> hash_broker_for r ''orders'' 0 = Inr b \<and> hash_broker_for r' ''orders'' 0 = Inr b'
    \<and> b = 0 \<and> b' < 2 \<and> (b' = b \<or> 1 \<le> b')"
proof -
  have r: "hash_ring_init 1 0 ''a'' 2 = Inr (built_ring 1 ''a'' 2 0)"
    and r': "hash_ring_init 2 1 ''b'' 2 = Inr (built_ring 2 ''b'' 2 1)" by (simp_all add: hash_ring_init_ok)
  from growth_moves_to_new_brokers_only [OF r r', of 0 "''orders''"] r r' show ?thesis by fastforce
qed

lemma after_last_dash_suffix:
  assumes "CHR ''-'' \<notin> set s"
  shows "after_last_dash (xs @ CHR ''-'' # s) = s"
proof -
  have "takeWhile (\<lambda>c. c \<noteq> CHR ''-'') (rev s @ CHR ''-'' # rev xs) = rev s"
    using assms by (subst takeWhile_append2) auto
  then show ?thesis by (simp add: after_last_dash_def)
qed

text \<open>
  A broker learns who it is from its pod name: with \<open>PYKA_BROKERS\<close> set to \<open>n\<close> and a host
  name that ends in a dash and an ordinal, \<open>from_env\<close> builds the ring of that ordinal if it is below
  \<open>n\<close> and raises \<open>ValueError\<close> if it is not. Without an ordinal it is broker 0 of a cluster of one,
  and \<open>ValueError\<close> in a larger one.
\<close>

theorem identity_from_hostname:
  assumes "map_of env ''PYKA_BROKERS'' = Some (int_text n)" and "map_of env ''HOSTNAME'' = Some host"
    and "0 < n" and "1 \<le> vnodes"
  shows "(\<forall>pod k. host = pod @ ''-'' @ int_text k \<and> 0 \<le> k \<longrightarrow>
       from_env (\<lambda>b me t. hash_ring_init b me t vnodes) env sys =
         (if k < n then hash_ring_init n k (env_get env ''PYKA_ADDRESS_TEMPLATE''
              (''localhost:'' @ env_get env ''PYKA_PORT'' ''9092'')) vnodes
          else Inl ValueError))
    \<and> (host \<noteq> [] \<and> \<not> py_isdigit (after_last_dash host) \<longrightarrow>
       from_env (\<lambda>b me t. hash_ring_init b me t vnodes) env sys =
         (if n = 1 then hash_ring_init 1 0 (env_get env ''PYKA_ADDRESS_TEMPLATE''
              (''localhost:'' @ env_get env ''PYKA_PORT'' ''9092'')) vnodes
          else Inl ValueError))"
proof (intro conjI allI impI)
  fix pod and k :: int assume h: "host = pod @ ''-'' @ int_text k \<and> 0 \<le> k"
  have "CHR ''-'' \<notin> set (int_text k)"
    using h nat_text_digits [of "nat k"] digit_not_special by (fastforce simp: int_text_def)
  then have suffix: "after_last_dash (pod @ CHR ''-'' # int_text k) = int_text k"
    by (rule after_last_dash_suffix)
  have "py_isdigit (int_text k)" using h py_isdigit_int_text by blast
  moreover have "host \<noteq> []" using h by simp
  ultimately show "from_env (\<lambda>b me t. hash_ring_init b me t vnodes) env sys =
         (if k < n then hash_ring_init n k (env_get env ''PYKA_ADDRESS_TEMPLATE''
              (''localhost:'' @ env_get env ''PYKA_PORT'' ''9092'')) vnodes
          else Inl ValueError)"
    using h assms(1,3,4) unfolding from_env_def env_get_def [of env "''PYKA_BROKERS''"] assms(2)
    by (simp add: parse_int_def suffix Let_def hash_ring_init_def ring_init_def)
next
  assume "host \<noteq> [] \<and> \<not> py_isdigit (after_last_dash host)"
  then show "from_env (\<lambda>b me t. hash_ring_init b me t vnodes) env sys =
         (if n = 1 then hash_ring_init 1 0 (env_get env ''PYKA_ADDRESS_TEMPLATE''
              (''localhost:'' @ env_get env ''PYKA_PORT'' ''9092'')) vnodes
          else Inl ValueError)"
    using assms(1,3,4) unfolding from_env_def env_get_def [of env "''PYKA_BROKERS''"] assms(2)
    by (auto simp: parse_int_def Let_def)
qed

theorem identity_from_hostname_witness:
  "from_env (\<lambda>b me t. hash_ring_init b me t 128)
     [(''PYKA_BROKERS'', int_text 3), (''HOSTNAME'', ''pyka-'' @ int_text 2)] ''box''
   = hash_ring_init 3 2 ''localhost:9092'' 128"
proof -
  let ?env = "[(''PYKA_BROKERS'', int_text 3), (''HOSTNAME'', ''pyka-'' @ int_text 2)]"
  have "map_of ?env ''PYKA_BROKERS'' = Some (int_text 3)" "map_of ?env ''HOSTNAME'' = Some (''pyka-'' @ int_text 2)"
    by simp_all
  from conjunct1 [OF identity_from_hostname [OF this, of 128 "''box''"], rule_format, of "''pyka''" 2]
  show ?thesis by (simp add: env_get_def)
qed

end
