(* ===== verification/Log_Disk.thy ===== *)
theory Log_Disk
  imports Part_Log
begin

text \<open>
  What the directory of a partition holds when no log is open on it: the files that the next
  \<open>Log.__init__\<close> of \<open>storage/log.py\<close> will find, after a clean close or after a power cut.
\<close>

section \<open>A directory that holds records\<close>

text \<open>The base offset and the records a directory will be opened with.\<close>

definition on_disk :: "offset \<times> log_record list \<Rightarrow> dir \<Rightarrow> bool" where
  "on_disk c d \<longleftrightarrow> healthy d \<and> (d = [] \<and> c = (0, [])
     \<or> (\<exists>bs ps. log_files d bs ps \<and> c = (hd bs, concat ps)))"

lemma on_disk_healthy: "on_disk c d \<Longrightarrow> healthy d"
  by (simp add: on_disk_def)

lemma on_disk_Nil: "on_disk (0, []) []"
  by (simp add: on_disk_def healthy_def)

lemma on_disk_of_log: "log_ok lg qs p d \<Longrightarrow> healthy d \<Longrightarrow> on_disk (log_base lg, concat qs @ p) d"
  using log_ok_files [of lg qs p d] by (fastforce simp: on_disk_def)

lemma on_disk_of_holds: "log_holds (lg, d) (fst c) (snd c) \<Longrightarrow> healthy d \<Longrightarrow> on_disk c d"
  using on_disk_of_log by (cases c) (fastforce simp: log_holds_def)

text \<open>It opens as a log of them.\<close>

lemma files_ne: "log_files d bs ps \<Longrightarrow> ps \<noteq> []"
  by (auto simp: log_files_def)

lemma on_disk_opens:
  assumes "on_disk c d" "0 < mx" "mx \<le> MAX_U32 + 1"
  obtains lg d' where "log_open mx d = (Inr lg, d')" "log_holds (lg, d') (fst c) (snd c)" "healthy d'" "lg_max lg = mx"
proof (cases "d = [] \<and> c = (0, [])")
  case True
  have "tidy [] []" "healthy []" by (simp_all add: tidy_def file_exists_def healthy_def)
  from log_open_fresh [OF this(1) assms(2,3)] this(2) obtain lg d' where
    l: "log_open mx [] = (Inr lg, d')" "log_ok lg [] [] d'" "live lg" "log_base lg = 0" "healthy d'" "lg_max lg = mx" by blast
  then have "log_holds (lg, d') 0 []" by (auto simp: log_holds_def intro!: exI [of _ "[]"])
  then show ?thesis using that l True by simp
next
  case False
  then obtain bs ps where f: "log_files d bs ps" "c = (hd bs, concat ps)" "healthy d"
    using assms(1) by (auto simp: on_disk_def)
  from log_files_open [OF f(1,3) assms(2,3)] obtain lg d' where
    l: "log_open mx d = (Inr lg, d')" "log_ok lg (butlast ps) (last ps) d'" "live lg" "log_base lg = hd bs"
      "lg_max lg = mx" "healthy d'" by blast
  have "concat (butlast ps) @ last ps = concat ps"
    using files_ne [OF f(1)] by (metis append_butlast_last_id concat_append concat.simps append_Nil2)
  then have "log_holds (lg, d') (fst c) (snd c)" using l f(2) by (auto simp: log_holds_def)
  then show ?thesis using that l by simp
qed

lemma on_disk_open:
  assumes "on_disk c d" "0 < mx" "mx \<le> MAX_U32 + 1"
  obtains lg d' where "log_open mx d = (Inr lg, d')" "log_holds (lg, d') (fst c) (snd c)" "on_disk c d'"
  using on_disk_opens [OF assms] on_disk_of_holds by metis

lemma on_disk_sequential:
  assumes "on_disk c d"
  shows "sequential (fst c) (snd c)"
proof -
  obtain lg d' where "log_holds (lg, d') (fst c) (snd c)"
    by (rule on_disk_opens [OF assms, of 1]) (auto simp: MAX_U32_def)
  then obtain qs p where "log_ok lg qs p d'" "log_base lg = fst c" "concat qs @ p = snd c" by (auto simp: log_holds_def)
  with log_ok_records(1) [of lg qs p d'] show ?thesis by simp
qed

section \<open>What is on the platter\<close>

text \<open>Every byte of every log file.\<close>

definition on_platter :: "offset \<Rightarrow> dir \<Rightarrow> bool" where
  "on_platter b d \<longleftrightarrow> length (file_data (log_name b) d) \<le> synced_len (log_name b) d"

definition all_synced :: "dir \<Rightarrow> bool" where
  "all_synced d \<longleftrightarrow> (\<forall>b. on_platter b d)"

lemma all_synced_Nil: "all_synced []"
  by (simp add: all_synced_def on_platter_def file_data_def)

lemma on_platter_other: "only_touches fs d d' \<Longrightarrow> log_name b \<notin> fs \<Longrightarrow> on_platter b d' = on_platter b d"
  by (simp add: on_platter_def file_data_other synced_len_other)

lemma synced_len_truncate:
  "synced_len q (os_truncate p n d) = (if q = p then min n (synced_len q d) else synced_len q d)"
  by (auto simp: synced_len_def os_truncate_def map_of_update_file split: option.splits)

lemma on_platter_ops [simp]:
  "on_platter b (touch q d) = on_platter b d"
  "on_platter b (write_end (index_name c) bs d) = on_platter b d"
  "on_platter b (os_truncate (index_name c) n d) = on_platter b d"
  "on_platter b d \<Longrightarrow> on_platter b (os_truncate q n d)"
  by (auto simp: on_platter_def synced_len_truncate)

lemma seg_open_platter:
  assumes "on_platter c d" "seg_open b mx d = (res, d')"
  shows "on_platter c d'"
proof (cases "0 < mx \<and> mx \<le> MAX_U32 + 1")
  case True
  obtain ix d1 where i: "index_init (index_name b) b INTERVAL_BYTES d = (ix, d1)" by (meson surj_pair)
  obtain ix1 d2 where c: "index_clear ix (touch (log_name b) d1) = (ix1, d2)" by (meson surj_pair)
  have "ix_path ix = index_name b" "on_platter c d1"
    using i assms(1) by (auto simp: index_init_def Let_def split: if_split_asm)
  then have "on_platter c d2" using c by (auto simp: index_clear_def index_flush_def Let_def)
  then show ?thesis using assms(2) True
    by (auto simp: seg_open_def recover_def i c Let_def split: prod.splits sum.splits if_split_asm)
qed (use assms in \<open>auto simp: seg_open_def\<close>)

lemma open_segments_platter:
  "on_platter c d \<Longrightarrow> open_segments mx bs d = (res, d') \<Longrightarrow> on_platter c d'"
  by (induction bs arbitrary: d res)
    (auto split: prod.splits sum.splits dest: seg_open_platter)

lemma log_name_in_files [simp]: "log_name b \<in> files_of bs \<longleftrightarrow> b \<in> set bs"
proof -
  have "log_name b = log_name c \<longleftrightarrow> b = c" for c by (simp add: log_name_def)
  then show ?thesis by (auto simp: files_of_def seg_files_def)
qed

lemma list_all2_sealed_platter: "list_all2 (sealed_ok mx d) ss qs \<Longrightarrow> s \<in> set ss \<Longrightarrow> on_platter (sg_base s) d"
proof (induction rule: list_all2_induct)
  case (Cons s' ss q qs)
  then show ?case using seg_ok_fields(4) [of s' q d] by (auto simp: sealed_ok_def on_platter_def)
qed simp

text \<open>Opening moves nothing off it.\<close>

lemma log_open_synced:
  assumes "on_disk c d" "all_synced d" "0 < mx" "mx \<le> MAX_U32 + 1" "log_open mx d = (res, d')"
  shows "all_synced d'"
proof (cases "log_bases d")
  case (Inr bases)
  obtain r d1 where o: "open_segments mx bases d = (r, d1)" by (meson surj_pair)
  have d1: "all_synced d1" using assms(2) open_segments_platter [OF _ o] by (simp add: all_synced_def)
  show ?thesis
  proof (cases "\<exists>segs. r = Inr segs \<and> chain_ok segs \<and> 1 < length segs")
    case False
    have "seal_all segs d1 = (Inr segs, d1)" if "\<not> 1 < length segs" for segs
      using that by (cases segs rule: chain_ok.cases) auto
    with False assms(5) Inr o d1 show ?thesis
      by (auto simp: log_open_def split: sum.splits if_split_asm prod.splits)
  next
    case True
    then obtain segs where segs: "r = Inr segs" "chain_ok segs" "1 < length segs" by blast
    have "d \<noteq> []" using o Inr segs by (auto simp: log_bases_def Let_def split: prod.splits sum.splits)
    then obtain bs ps where f: "log_files d bs ps" "healthy d" using assms(1) by (auto simp: on_disk_def)
    then have F: "tidy d bs" "bs \<noteq> []" "list_all2 (opens_as d) bs ps" "\<forall>p \<in> set (butlast ps). p \<noteq> []"
      by (auto simp: log_files_def)
    then have bases: "bases = bs" "distinct bs"
      using log_bases_tidy [OF F(1,2)] Inr by (auto simp: tidy_def strict_sorted_iff)
    from open_segments_ok [OF F(3) bases(2) [unfolded bases(1)] assms(3,4)] o bases(1) segs(1) have
      k: "list_all2 (opened mx d1) segs ps" "map sg_base segs = bs" "only_touches (files_of bs) d d1" by auto
    have h1: "healthy d1" using k(3) f(2) by (simp add: only_touches_def)
    have "segs \<noteq> []" "distinct (map sg_base segs)" using k(2) F(2) bases by auto
    from seal_all_ok [OF k(1) h1 this(2) F(4) this(1)] obtain xs a d2 where
      x: "seal_all segs d1 = (Inr (xs @ [a]), d2)" "list_all2 (sealed_ok mx d2) xs (butlast ps)"
        "map sg_base (xs @ [a]) = map sg_base segs" "only_touches (files_of (map sg_base (butlast segs))) d1 d2" by blast
    have d': "d' = d2" using assms(5) Inr o segs x(1) by (auto simp: log_open_def)
    have "map sg_base xs = map sg_base (butlast segs)" using x(3) by (metis butlast_snoc map_butlast)
    then have "set (map sg_base (butlast segs)) = sg_base ` set xs" by (metis list.set_map)
    then have "on_platter b d2" if "b \<in> set (map sg_base (butlast segs))" for b
      using that list_all2_sealed_platter [OF x(2)] by auto
    moreover have "on_platter b d2" if "b \<notin> set (map sg_base (butlast segs))" for b
    proof -
      have "log_name b \<notin> files_of (map sg_base (butlast segs))" using that by (simp only: log_name_in_files not_False_eq_True simp_thms)
      from on_platter_other [OF x(4) this] d1 show ?thesis by (simp add: all_synced_def)
    qed
    ultimately show ?thesis unfolding all_synced_def d' by blast
  qed
qed (use assms in \<open>auto simp: log_open_def\<close>)

text \<open>All of a log is durable exactly when its files are on the platter.\<close>

lemma log_next_active: "log_ok lg qs p d \<Longrightarrow> nat (log_next lg - sg_base (active lg)) = length p"
  using log_okE [of lg qs p d] by (metis log_next_def seg_ok_fields(2) add_diff_cancel_left' nat_int)

lemma synced_durable:
  assumes "log_ok lg qs p d" "all_synced d"
  shows "durable lg p d (log_next lg)"
proof -
  from log_okE [OF assms(1)] have "seg_ok (active lg) p d" by metis
  from seg_ok_fields(4) [OF this] have "length (rec_bytes p) \<le> synced_len (log_name (sg_base (active lg))) d"
    using assms(2) by (metis all_synced_def on_platter_def)
  then show ?thesis by (simp add: durable_def log_next_active [OF assms(1)])
qed

lemma durable_synced:
  assumes ok: "log_ok lg qs p d" and dur: "durable lg p d (log_next lg)"
  shows "all_synced d"
  unfolding all_synced_def
proof
  fix b
  from log_okE [OF ok] obtain ss a where
    s: "list_all2 (sealed_ok (lg_max lg) d) ss qs" "seg_ok a p d" "tidy d (map sg_base (ss @ [a]))" "active lg = a" by metis
  show "on_platter b d"
  proof (cases "file_exists (log_name b) d")
    case False
    then show ?thesis by (simp add: on_platter_def file_data_def file_exists_def)
  next
    case True
    then have "\<exists>c \<in> set (map sg_base (ss @ [a])). log_name b = log_name c"
      using s(3) is_log_name_log [of b] unfolding tidy_def by blast
    then obtain s where b: "s \<in> set (ss @ [a])" "b = sg_base s" by (auto simp: log_name_def)
    show ?thesis
    proof (cases "s = a")
      case True
      with dur b s(4) seg_ok_fields(4) [OF s(2)] log_next_active [OF ok] show ?thesis
        by (simp add: durable_def on_platter_def)
    next
      case False
      with b(1) have "s \<in> set ss" by simp
      from list_all2_sealed_platter [OF s(1) this] b(2) show ?thesis by simp
    qed
  qed
qed

lemma kept_all_synced:
  assumes "log_kept mx (b + int (length rs)) (lg, d) b rs"
  shows "all_synced d"
proof -
  from assms obtain qs p where k: "log_ok lg qs p d" "log_base lg = b" "concat qs @ p = rs"
    "durable lg p d (b + int (length rs))" by (auto simp: log_kept_def)
  with log_ok_records(2) [OF k(1)] have "durable lg p d (log_next lg)" by auto
  with k(1) show ?thesis by (rule durable_synced)
qed

lemma holds_synced_kept:
  assumes "log_holds (lg, d) b rs" "healthy d" "all_synced d"
  shows "log_kept (lg_max lg) (b + int (length rs)) (lg, d) b rs"
proof -
  from assms(1) obtain qs p where k: "log_ok lg qs p d" "live lg" "log_base lg = b" "concat qs @ p = rs"
    by (auto simp: log_holds_def)
  with log_ok_records(2) [OF k(1)] synced_durable [OF k(1) assms(3)] assms(2) show ?thesis
    by (auto simp: log_kept_def)
qed

lemma log_kept_mono: "log_kept mx off st b rs \<Longrightarrow> off' \<le> off \<Longrightarrow> log_kept mx off' st b rs"
proof -
  assume k: "log_kept mx off st b rs" and le: "off' \<le> off"
  from k obtain qs p where l: "log_ok (fst st) qs p (snd st)" "live (fst st)" "log_base (fst st) = b"
    "concat qs @ p = rs" "lg_max (fst st) = mx" "healthy (snd st)" "durable (fst st) p (snd st) off"
    by (auto simp: log_kept_def)
  let ?n = "\<lambda>x. nat (x - sg_base (active (fst st)))"
  have "take (?n off') p = take (?n off') (take (?n off) p)" using le by (simp add: min_def)
  then have "length (rec_bytes (take (?n off') p)) \<le> length (rec_bytes (take (?n off) p))"
    by (metis append_take_drop_id frames_of_simps(3) le_add1 length_append)
  with l le have "durable (fst st) p (snd st) off'" by (auto simp: durable_def)
  with l show ?thesis by (auto simp: log_kept_def)
qed

section \<open>Power cuts\<close>

lemma power_cut_synced: "power_cut d d' \<Longrightarrow> all_synced d'"
proof -
  assume cut: "power_cut d d'"
  have "on_platter b d'" for b
    using power_cut_lookup [OF cut, of "log_name b"]
    by (auto simp: on_platter_def file_data_def synced_len_def survives_def split: option.splits)
  then show ?thesis by (simp add: all_synced_def)
qed

text \<open>What a power cut leaves of a directory: of the records a prefix, with all that was kept.\<close>

lemma kept_cut:
  assumes "log_kept mx (b + int k) (lg, d) b rs" "power_cut d d'"
  shows "\<exists>m. k \<le> m \<and> m \<le> length rs \<and> on_disk (b, take m rs) d'"
proof -
  from assms(1) obtain qs p where l: "log_ok lg qs p d" "log_base lg = b" "concat qs @ p = rs" "healthy d"
    "durable lg p d (b + int k)" by (auto simp: log_kept_def)
  from log_files_cut [OF l(1,5) assms(2)] obtain bs m where
    f: "log_files d' bs (qs @ [take m p])" "hd bs = b" "b + int k \<le> b + int (length (concat qs @ take m p))"
    using l(2) by auto
  let ?m = "length (concat qs @ take m p)"
  have "take ?m rs = concat qs @ take m p" using l(3) by (auto simp: min_def)
  moreover have "on_disk (b, concat qs @ take m p) d'"
    unfolding on_disk_def
    by (intro conjI disjI2 exI [of _ bs] exI [of _ "qs @ [take m p]"] power_cut_healthy [OF assms(2) l(4)])
      (use f in simp_all)
  ultimately show ?thesis using f(3) l(3) by (intro exI [of _ ?m]) auto
qed

lemma synced_cut:
  assumes "on_disk c d" "all_synced d" "power_cut d d'"
  shows "on_disk c d'"
proof -
  have same: "file_data (log_name b) d' = file_data (log_name b) d" for b
    using power_cut_lookup [OF assms(3), of "log_name b"] assms(2)
    by (auto simp: all_synced_def on_platter_def file_data_def synced_len_def survives_def dest!: spec [of _ b]
        split: option.splits)
  have h: "healthy d'" using power_cut_healthy [OF assms(3) on_disk_healthy [OF assms(1)]] .
  have "opens_as d' = opens_as d" by (simp add: opens_as_def same fun_eq_iff)
  then have "log_files d bs ps \<Longrightarrow> log_files d' bs ps" for bs ps
    using power_cut_tidy [OF assms(3)] by (simp add: log_files_def)
  moreover have "d = [] \<Longrightarrow> d' = []" using power_cut_file_names [OF assms(3)] by simp
  ultimately show ?thesis using assms(1) h unfolding on_disk_def by blast
qed

end
