(* ===== verification/Topics.thy ===== *)
theory Topics
  imports Log_Disk Partitioner Sync_Policy "HOL-Library.List_Lexorder" "HOL-Library.Char_ord"
begin

text \<open>
  \<open>topic/topic.py\<close>: named topics on disk, each a directory of partitions, each a log. The disk (the
  data root) and the object's state are passed and returned; \<open>owns\<close> is the predicate the object was
  built with. Clock readings are arguments: \<open>now_ns\<close> of \<open>time.time_ns\<close>, \<open>tick\<close> of \<open>time.monotonic\<close>.
\<close>

section \<open>The data root\<close>

text \<open>
  A topic's directory: what reading \<open>topic.json\<close> gives (\<open>None\<close> when there is no such file, \<open>Inl\<close> when
  its contents make \<open>json.loads\<close>, the lookup or \<open>int\<close> raise), and the subdirectories by name.
\<close>

record topic_dir =
  td_meta :: "int result option"
  td_dirs :: "(string \<times> dir) list"

datatype root_entry = Topic_Dir topic_dir | Plain_File

type_synonym root = "(string \<times> root_entry) list"

definition no_topic :: topic_dir where
  "no_topic = \<lparr>td_meta = None, td_dirs = []\<rparr>"

text \<open>The directory of a name, an empty one if there is none.\<close>

definition topic_at :: "string \<Rightarrow> root \<Rightarrow> topic_dir" where
  "topic_at name rt = (case map_of rt name of Some (Topic_Dir t) \<Rightarrow> t | _ \<Rightarrow> no_topic)"

definition part_dir :: "string \<Rightarrow> int \<Rightarrow> root \<Rightarrow> dir" where
  "part_dir name p rt = (case map_of (td_dirs (topic_at name rt)) (int_text p) of None \<Rightarrow> [] | Some d \<Rightarrow> d)"

definition set_part_dir :: "string \<Rightarrow> int \<Rightarrow> dir \<Rightarrow> root \<Rightarrow> root" where
  "set_part_dir name p d rt =
     al_set name (Topic_Dir ((topic_at name rt)\<lparr>td_dirs := al_set (int_text p) d (td_dirs (topic_at name rt))\<rparr>)) rt"

section \<open>Names\<close>

definition allowed_char :: "char \<Rightarrow> bool" where
  "allowed_char c \<longleftrightarrow> (let n = of_char c :: nat in
     (97 \<le> n \<and> n \<le> 122) \<or> (65 \<le> n \<and> n \<le> 90) \<or> (48 \<le> n \<and> n \<le> 57) \<or> c \<in> set ''._-'')"

definition MAX_NAME_LENGTH :: nat where
  "MAX_NAME_LENGTH = 200"

definition validate_name :: "string \<Rightarrow> unit result" where
  "validate_name name =
     (if name = [] then Inl ValueError
      else if MAX_NAME_LENGTH < length name then Inl ValueError
      else if name \<in> set [''.'', ''..''] then Inl ValueError
      else if \<not> (\<forall>c \<in> set name. allowed_char c) then Inl ValueError
      else Inr ())"

definition is_valid_name :: "string \<Rightarrow> bool" where
  "is_valid_name name = (case validate_name name of Inl e \<Rightarrow> False | Inr u \<Rightarrow> True)"

definition meta_is_file :: "string \<Rightarrow> root \<Rightarrow> bool" where
  "meta_is_file name rt \<longleftrightarrow> td_meta (topic_at name rt) \<noteq> None"

definition topic_names :: "root \<Rightarrow> string list" where
  "topic_names rt =
     sort (filter (\<lambda>n. (case map_of rt n of Some (Topic_Dir t) \<Rightarrow> True | _ \<Rightarrow> False)
         \<and> is_valid_name n \<and> meta_is_file n rt) (map fst rt))"

definition topic_exists :: "string \<Rightarrow> root \<Rightarrow> bool result" where
  "topic_exists name rt = bind_result (validate_name name) (\<lambda>u. Inr (meta_is_file name rt))"

text \<open>\<open>int(p.name)\<close> of the directory entries that look like numbers and are not owned, sorted.\<close>

fun foreign_numbers :: "(int \<Rightarrow> bool) \<Rightarrow> string list \<Rightarrow> int list result" where
  "foreign_numbers own [] = Inr []"
| "foreign_numbers own (n # ns) =
     (if py_isdigit n then
        (case py_int n of
           None \<Rightarrow> Inl ValueError
         | Some p \<Rightarrow> bind_result (foreign_numbers own ns) (\<lambda>ps. Inr (if own p then ps else p # ps)))
      else foreign_numbers own ns)"

definition foreign_partitions :: "(string \<Rightarrow> int \<Rightarrow> bool) \<Rightarrow> string \<Rightarrow> root \<Rightarrow> int list result" where
  "foreign_partitions own name rt =
     (case map_of rt name of
        Some (Topic_Dir t) \<Rightarrow>
          bind_result (foreign_numbers (own name) (map fst (td_dirs t))) (\<lambda>ps. Inr (sort ps))
      | _ \<Rightarrow> Inr [])"

section \<open>State\<close>

record part_entry =
  pe_log :: part_log
  pe_appends :: int
  pe_synced_at :: rat

record open_topic =
  ot_partitions :: int
  ot_local :: "(int \<times> part_entry) list"

record topics =
  tp_default :: int
  tp_policy :: sync_policy
  tp_max :: int
  tp_next :: partitioner
  tp_open :: "(string \<times> open_topic) list"

definition millis_since_sync :: "part_entry \<Rightarrow> rat \<Rightarrow> rat" where
  "millis_since_sync e tick = (tick - pe_synced_at e) * 1000"

definition mark_synced :: "rat \<Rightarrow> part_entry \<Rightarrow> part_entry" where
  "mark_synced tick e = e\<lparr>pe_appends := 0, pe_synced_at := tick\<rparr>"

definition topics_init :: "int \<Rightarrow> sync_policy \<Rightarrow> int \<Rightarrow> topics result" where
  "topics_init partitions pol mx =
     (if partitions < 1 then Inl ValueError
      else Inr \<lparr>tp_default = partitions, tp_policy = pol, tp_max = mx, tp_next = partitioner_init, tp_open = []\<rparr>)"

section \<open>Create and get\<close>

definition read_meta :: "string \<Rightarrow> root \<Rightarrow> int option result" where
  "read_meta name rt =
     (case td_meta (topic_at name rt) of
        None \<Rightarrow> Inr None
      | Some (Inl e) \<Rightarrow> Inl e
      | Some (Inr n) \<Rightarrow> Inr (Some n))"

text \<open>\<open>mkdir\<close> raises when a plain file has the name.\<close>

definition write_meta :: "string \<Rightarrow> int \<Rightarrow> root \<Rightarrow> unit result \<times> root" where
  "write_meta name n rt =
     (if map_of rt name = Some Plain_File then (Inl OSError, rt)
      else (Inr (), al_set name (Topic_Dir ((topic_at name rt)\<lparr>td_meta := Some (Inr n)\<rparr>)) rt))"

fun open_parts :: "int \<Rightarrow> string \<Rightarrow> rat \<Rightarrow> int list \<Rightarrow> root \<Rightarrow> (int \<times> part_entry) list result \<times> root" where
  "open_parts mx name tick [] rt = (Inr [], rt)"
| "open_parts mx name tick (p # ps) rt =
     (case log_open mx (part_dir name p rt) of
        (Inl e, d) \<Rightarrow> (Inl e, set_part_dir name p d rt)
      | (Inr lg, d) \<Rightarrow>
          (case open_parts mx name tick ps (set_part_dir name p d rt) of
             (Inl e, rt2) \<Rightarrow> (Inl e, rt2)
           | (Inr es, rt2) \<Rightarrow>
               (Inr ((p, \<lparr>pe_log = lg, pe_appends = 0, pe_synced_at = tick\<rparr>) # es), rt2)))"

type_synonym tstate = "topics \<times> root"

definition open_locked ::
  "(string \<Rightarrow> int \<Rightarrow> bool) \<Rightarrow> string \<Rightarrow> int option \<Rightarrow> rat \<Rightarrow> tstate \<Rightarrow> open_topic result \<times> tstate" where
  "open_locked own name partitions tick st =
     (case st of (tp, rt) \<Rightarrow>
       (case read_meta name rt of
          Inl e \<Rightarrow> (Inl e, st)
        | Inr meta \<Rightarrow>
            let count = (case meta of
                  Some n \<Rightarrow> n
                | None \<Rightarrow> (case partitions of None \<Rightarrow> tp_default tp
                           | Some k \<Rightarrow> if k = 0 then tp_default tp else k));
                (written, rt1) = (case meta of Some n \<Rightarrow> (Inr (), rt) | None \<Rightarrow> write_meta name count rt)
            in (case written of
                  Inl e \<Rightarrow> (Inl e, (tp, rt1))
                | Inr u \<Rightarrow>
                    (case open_parts (tp_max tp) name tick (filter (own name) [0 .. count - 1]) rt1 of
                       (Inl e, rt2) \<Rightarrow> (Inl e, (tp, rt2))
                     | (Inr es, rt2) \<Rightarrow>
                         let ot = \<lparr>ot_partitions = count, ot_local = es\<rparr>
                         in (Inr ot, (tp\<lparr>tp_open := al_set name ot (tp_open tp)\<rparr>, rt2))))))"

definition topic_create ::
  "(string \<Rightarrow> int \<Rightarrow> bool) \<Rightarrow> string \<Rightarrow> int option \<Rightarrow> rat \<Rightarrow> tstate \<Rightarrow> int result \<times> tstate" where
  "topic_create own name partitions tick st =
     (case validate_name name of
        Inl e \<Rightarrow> (Inl e, st)
      | Inr u \<Rightarrow>
          (case map_of (tp_open (fst st)) name of
             Some ot \<Rightarrow> (Inr (ot_partitions ot), st)
           | None \<Rightarrow>
               (case open_locked own name partitions tick st of
                  (Inl e, st1) \<Rightarrow> (Inl e, st1)
                | (Inr ot, st1) \<Rightarrow> (Inr (ot_partitions ot), st1))))"

text \<open>\<open>_topic\<close>: an existing topic, opened if it was not, or \<open>UnknownTopic\<close>.\<close>

definition the_topic ::
  "(string \<Rightarrow> int \<Rightarrow> bool) \<Rightarrow> string \<Rightarrow> rat \<Rightarrow> tstate \<Rightarrow> open_topic result \<times> tstate" where
  "the_topic own name tick st =
     (case validate_name name of
        Inl e \<Rightarrow> (Inl e, st)
      | Inr u \<Rightarrow>
          (case map_of (tp_open (fst st)) name of
             Some ot \<Rightarrow> (Inr ot, st)
           | None \<Rightarrow>
               (case read_meta name (snd st) of
                  Inl e \<Rightarrow> (Inl e, st)
                | Inr None \<Rightarrow> (Inl UnknownTopic, st)
                | Inr (Some n) \<Rightarrow> open_locked own name None tick st)))"

definition partitions_of :: "(string \<Rightarrow> int \<Rightarrow> bool) \<Rightarrow> string \<Rightarrow> rat \<Rightarrow> tstate \<Rightarrow> int result \<times> tstate" where
  "partitions_of own name tick st =
     (case the_topic own name tick st of (res, st1) \<Rightarrow> (bind_result res (\<lambda>ot. Inr (ot_partitions ot)), st1))"

definition local_partitions :: "(string \<Rightarrow> int \<Rightarrow> bool) \<Rightarrow> string \<Rightarrow> rat \<Rightarrow> tstate \<Rightarrow> int list result \<times> tstate" where
  "local_partitions own name tick st =
     (case the_topic own name tick st of
        (res, st1) \<Rightarrow> (bind_result res (\<lambda>ot. Inr (sort (map fst (ot_local ot)))), st1))"

definition check_partition :: "open_topic \<Rightarrow> int \<Rightarrow> part_entry result" where
  "check_partition ot p =
     (if \<not> (0 \<le> p \<and> p < ot_partitions ot) then Inl ValueError
      else (case map_of (ot_local ot) p of None \<Rightarrow> Inl PartitionNotLocal | Some e \<Rightarrow> Inr e))"

definition topic_get ::
  "(string \<Rightarrow> int \<Rightarrow> bool) \<Rightarrow> string \<Rightarrow> int \<Rightarrow> rat \<Rightarrow> tstate \<Rightarrow> part_log result \<times> tstate" where
  "topic_get own name p tick st =
     (case the_topic own name tick st of
        (res, st1) \<Rightarrow>
          (bind_result res (\<lambda>ot. bind_result (check_partition ot p) (\<lambda>e. Inr (pe_log e))), st1))"

section \<open>Read and write\<close>

definition topic_route ::
  "(string \<Rightarrow> int \<Rightarrow> bool) \<Rightarrow> string \<Rightarrow> bytes option \<Rightarrow> rat \<Rightarrow> tstate \<Rightarrow> int result \<times> tstate" where
  "topic_route own name key tick st =
     (case the_topic own name tick st of
        (Inl e, st1) \<Rightarrow> (Inl e, st1)
      | (Inr ot, (tp, rt)) \<Rightarrow>
          (case partition_for (tp_next tp) key (ot_partitions ot) of
             (res, nxt) \<Rightarrow> (res, (tp\<lparr>tp_next := nxt\<rparr>, rt))))"

text \<open>Storing an entry back and its directory.\<close>

definition put_entry :: "string \<Rightarrow> int \<Rightarrow> part_entry \<Rightarrow> dir \<Rightarrow> tstate \<Rightarrow> tstate" where
  "put_entry name p e d st =
     (case st of (tp, rt) \<Rightarrow>
        (case map_of (tp_open tp) name of
           None \<Rightarrow> st
         | Some ot \<Rightarrow>
             (tp\<lparr>tp_open := al_set name (ot\<lparr>ot_local := al_set p e (ot_local ot)\<rparr>) (tp_open tp)\<rparr>,
              set_part_dir name p d rt)))"

text \<open>\<open>append\<close> once the topic is open and the partition is chosen.\<close>

definition append_entry ::
  "string \<Rightarrow> int \<Rightarrow> part_entry \<Rightarrow> bytes option \<Rightarrow> bytes option \<Rightarrow> int option \<Rightarrow> int \<Rightarrow> rat \<Rightarrow> tstate
    \<Rightarrow> (int \<times> offset) result \<times> tstate" where
  "append_entry name p e key val ts now_ns tick st =
     (case log_append (pe_log e) key val ts now_ns (part_dir name p (snd st)) of
        (Inl err, lg, d) \<Rightarrow> (Inl err, put_entry name p (e\<lparr>pe_log := lg\<rparr>) d st)
      | (Inr off, lg, d) \<Rightarrow>
          let e1 = e\<lparr>pe_log := lg, pe_appends := pe_appends e + 1\<rparr>
          in if should_sync (tp_policy (fst st)) (pe_appends e1) (millis_since_sync e1 tick) then
               (case log_sync lg d of
                  (Inl err, lg2, d2) \<Rightarrow> (Inl err, put_entry name p (e1\<lparr>pe_log := lg2\<rparr>) d2 st)
                | (Inr u, lg2, d2) \<Rightarrow>
                    (Inr (p, off), put_entry name p (mark_synced tick (e1\<lparr>pe_log := lg2\<rparr>)) d2 st))
             else (Inr (p, off), put_entry name p e1 d st))"

definition topic_append ::
  "(string \<Rightarrow> int \<Rightarrow> bool) \<Rightarrow> string \<Rightarrow> bytes option \<Rightarrow> bytes option \<Rightarrow> int option \<Rightarrow> int option
    \<Rightarrow> int \<Rightarrow> rat \<Rightarrow> tstate \<Rightarrow> (int \<times> offset) result \<times> tstate" where
  "topic_append own name key val ts part now_ns tick st =
     (case validate_name name of
        Inl e \<Rightarrow> (Inl e, st)
      | Inr u \<Rightarrow>
          (case (case map_of (tp_open (fst st)) name of
                   Some ot \<Rightarrow> (Inr ot, st)
                 | None \<Rightarrow> open_locked own name None tick st) of
             (Inl e, st1) \<Rightarrow> (Inl e, st1)
           | (Inr ot, (tp, rt)) \<Rightarrow>
               let (chosen, nxt) = (case part of
                     None \<Rightarrow> partition_for (tp_next tp) key (ot_partitions ot)
                   | Some p \<Rightarrow> (Inr p, tp_next tp));
                   st2 = (tp\<lparr>tp_next := nxt\<rparr>, rt)
               in (case chosen of
                     Inl e \<Rightarrow> (Inl e, st2)
                   | Inr p \<Rightarrow>
                       (case check_partition ot p of
                          Inl e \<Rightarrow> (Inl e, st2)
                        | Inr e \<Rightarrow> append_entry name p e key val ts now_ns tick st2))))"

definition topic_read_from ::
  "(string \<Rightarrow> int \<Rightarrow> bool) \<Rightarrow> string \<Rightarrow> offset \<Rightarrow> int \<Rightarrow> rat \<Rightarrow> tstate \<Rightarrow> reading result \<times> tstate" where
  "topic_read_from own name off p tick st =
     (case topic_get own name p tick st of
        (res, st1) \<Rightarrow> (bind_result res (\<lambda>lg. log_read_from lg off (part_dir name p (snd st1))), st1))"

section \<open>Lifecycle\<close>

text \<open>\<open>_every_partition\<close>: name, number and entry, in the order of the two dictionaries.\<close>

definition every_partition :: "topics \<Rightarrow> (string \<times> int \<times> part_entry) list" where
  "every_partition tp =
     concat (map (\<lambda>(name, ot). map (\<lambda>(p, e). (name, p, e)) (ot_local ot)) (tp_open tp))"

fun sync_entries :: "rat \<Rightarrow> (string \<times> int \<times> part_entry) list \<Rightarrow> tstate \<Rightarrow> unit result \<times> tstate" where
  "sync_entries tick [] st = (Inr (), st)"
| "sync_entries tick ((name, p, e) # es) st =
     (case log_sync (pe_log e) (part_dir name p (snd st)) of
        (Inl err, lg, d) \<Rightarrow> (Inl err, put_entry name p (e\<lparr>pe_log := lg\<rparr>) d st)
      | (Inr u, lg, d) \<Rightarrow> sync_entries tick es (put_entry name p (mark_synced tick (e\<lparr>pe_log := lg\<rparr>)) d st))"

definition topics_sync :: "rat \<Rightarrow> tstate \<Rightarrow> unit result \<times> tstate" where
  "topics_sync tick st = sync_entries tick (every_partition (fst st)) st"

fun close_entries :: "(string \<times> int \<times> part_entry) list \<Rightarrow> tstate \<Rightarrow> py_error list \<times> tstate" where
  "close_entries [] st = ([], st)"
| "close_entries ((name, p, e) # es) st =
     (case log_close (pe_log e) (part_dir name p (snd st)) of
        (res, lg, d) \<Rightarrow>
          (case close_entries es (put_entry name p (e\<lparr>pe_log := lg\<rparr>) d st) of
             (errs, st1) \<Rightarrow> ((case res of Inl err \<Rightarrow> err # errs | Inr u \<Rightarrow> errs), st1)))"

definition topics_close :: "tstate \<Rightarrow> unit result \<times> tstate" where
  "topics_close st =
     (case close_entries (every_partition (fst st)) st of
        (errs, (tp, rt)) \<Rightarrow>
          (if errs \<noteq> [] then Inl (ExceptionGroup errs) else Inr (), (tp\<lparr>tp_open := []\<rparr>, rt)))"

section \<open>Reading and writing the root\<close>

lemma topic_at_set [simp]:
  "topic_at n (al_set name (Topic_Dir t) rt) = (if n = name then t else topic_at n rt)"
  by (simp add: topic_at_def)

lemma part_dir_set [simp]:
  "part_dir n q (set_part_dir name p d rt) = (if n = name \<and> q = p then d else part_dir n q rt)"
  by (simp add: part_dir_def set_part_dir_def)

text \<open>What reading the metadata of each name gives.\<close>

definition metas :: "root \<Rightarrow> string \<Rightarrow> int result option" where
  "metas rt = (\<lambda>n. td_meta (topic_at n rt))"

lemma metas_al_set [simp]:
  "metas (al_set name (Topic_Dir t) rt) = (metas rt)(name := td_meta t)"
  by (auto simp: metas_def)

lemma metas_set_part_dir [simp]: "metas (set_part_dir name p d rt) = metas rt"
  by (auto simp: set_part_dir_def metas_def)

lemma read_meta_metas:
  "read_meta name rt = (case metas rt name of None \<Rightarrow> Inr None | Some (Inl e) \<Rightarrow> Inl e | Some (Inr n) \<Rightarrow> Inr (Some n))"
  by (simp add: read_meta_def metas_def)

lemma meta_is_file_metas: "meta_is_file name rt \<longleftrightarrow> metas rt name \<noteq> None"
  by (simp add: meta_is_file_def metas_def)

lemma metas_Nil [simp]: "metas [] n = None"
  by (simp add: metas_def topic_at_def no_topic_def)

lemma metas_dir: "metas rt name = Some m \<Longrightarrow> map_of rt name \<noteq> Some Plain_File"
  by (auto simp: metas_def topic_at_def no_topic_def)

lemma part_dir_set_meta [simp]:
  "part_dir n q (al_set name (Topic_Dir ((topic_at name rt)\<lparr>td_meta := m\<rparr>)) rt) = part_dir n q rt"
  by (simp add: part_dir_def)

section \<open>The invariant\<close>

text \<open>
  The contents of a store: the base offset and the records of every partition of every name. Every
  partition's directory holds them; the log of an open entry has them too.
\<close>

type_synonym contents = "string \<Rightarrow> int \<Rightarrow> offset \<times> log_record list"

definition entry_ok :: "offset \<times> log_record list \<Rightarrow> part_entry \<Rightarrow> dir \<Rightarrow> bool" where
  "entry_ok c e d \<longleftrightarrow> log_holds (pe_log e, d) (fst c) (snd c) \<and> 0 \<le> pe_appends e"

definition open_ok :: "(string \<Rightarrow> int \<Rightarrow> bool) \<Rightarrow> contents \<Rightarrow> root \<Rightarrow> string \<Rightarrow> open_topic \<Rightarrow> bool" where
  "open_ok own C rt name ot \<longleftrightarrow> is_valid_name name
     \<and> metas rt name = Some (Inr (ot_partitions ot))
     \<and> map fst (ot_local ot) = filter (own name) [0 .. ot_partitions ot - 1]
     \<and> (\<forall>p e. map_of (ot_local ot) p = Some e \<longrightarrow> entry_ok (C name p) e (part_dir name p rt))"

definition topics_ok :: "(string \<Rightarrow> int \<Rightarrow> bool) \<Rightarrow> contents \<Rightarrow> tstate \<Rightarrow> bool" where
  "topics_ok own C st \<longleftrightarrow> (case st of (tp, rt) \<Rightarrow>
     0 < tp_max tp \<and> tp_max tp \<le> MAX_U32 + 1 \<and> distinct (map fst (tp_open tp))
     \<and> (\<forall>name p. on_disk (C name p) (part_dir name p rt))
     \<and> (\<forall>name ot. map_of (tp_open tp) name = Some ot \<longrightarrow> open_ok own C rt name ot))"

lemma topics_okD:
  assumes "topics_ok own C (tp, rt)"
  shows "0 < tp_max tp" "tp_max tp \<le> MAX_U32 + 1" "on_disk (C name p) (part_dir name p rt)"
    "map_of (tp_open tp) name = Some ot \<Longrightarrow> open_ok own C rt name ot" "distinct (map fst (tp_open tp))"
  using assms by (auto simp: topics_ok_def)

lemma open_parts_ok:
  assumes "\<forall>p. on_disk (C name p) (part_dir name p rt)" "0 < mx" "mx \<le> MAX_U32 + 1" "distinct ps"
  shows "\<exists>es rt'. open_parts mx name tick ps rt = (Inr es, rt') \<and> map fst es = ps
    \<and> (\<forall>p e. map_of es p = Some e \<longrightarrow> entry_ok (C name p) e (part_dir name p rt') \<and> pe_appends e = 0)
    \<and> (\<forall>p. on_disk (C name p) (part_dir name p rt'))
    \<and> metas rt' = metas rt
    \<and> (\<forall>n q. n \<noteq> name \<or> q \<notin> set ps \<longrightarrow> part_dir n q rt' = part_dir n q rt)"
  using assms(1,4)
proof (induction ps arbitrary: rt)
  case (Cons p ps)
  from Cons.prems(1) have "on_disk (C name p) (part_dir name p rt)" by blast
  from on_disk_open [OF this assms(2,3)] obtain lg d where
    l: "log_open mx (part_dir name p rt) = (Inr lg, d)" "log_holds (lg, d) (fst (C name p)) (snd (C name p))"
      "on_disk (C name p) d" by metis
  let ?rt = "set_part_dir name p d rt"
  have "\<forall>q. on_disk (C name q) (part_dir name q ?rt)" using Cons.prems(1) l(3) by simp
  from Cons.IH [OF this] Cons.prems(2) obtain es rt' where
    r: "open_parts mx name tick ps ?rt = (Inr es, rt')" "map fst es = ps"
      "\<forall>p e. map_of es p = Some e \<longrightarrow> entry_ok (C name p) e (part_dir name p rt') \<and> pe_appends e = 0"
      "\<forall>p. on_disk (C name p) (part_dir name p rt')"
      "metas rt' = metas rt"
      "\<forall>n q. n \<noteq> name \<or> q \<notin> set ps \<longrightarrow> part_dir n q rt' = part_dir n q ?rt"
    by auto
  have "part_dir name p rt' = d" using r(6) Cons.prems(2) by simp
  then have "entry_ok (C name p) \<lparr>pe_log = lg, pe_appends = 0, pe_synced_at = tick\<rparr> (part_dir name p rt')"
    using l(2) by (simp add: entry_ok_def)
  then show ?case using l(1) r by simp
qed simp

section \<open>Opening a topic\<close>

text \<open>How many partitions a topic gets when it is opened.\<close>

definition open_count :: "topics \<Rightarrow> int option \<Rightarrow> int option \<Rightarrow> int" where
  "open_count tp meta partitions =
     (case meta of
        Some n \<Rightarrow> n
      | None \<Rightarrow> (case partitions of None \<Rightarrow> tp_default tp | Some k \<Rightarrow> if k = 0 then tp_default tp else k))"

lemma open_locked_ok:
  assumes ok: "topics_ok own C (tp, rt)" and name: "is_valid_name name"
    and meta: "read_meta name rt = Inr meta" "map_of rt name \<noteq> Some Plain_File"
  shows "\<exists>ot tp' rt'. open_locked own name partitions tick (tp, rt) = (Inr ot, (tp', rt'))
    \<and> topics_ok own C (tp', rt') \<and> ot_partitions ot = open_count tp meta partitions
    \<and> tp' = tp\<lparr>tp_open := al_set name ot (tp_open tp)\<rparr>
    \<and> metas rt' = (metas rt)(name := Some (Inr (ot_partitions ot)))
    \<and> (\<forall>p e. map_of (ot_local ot) p = Some e \<longrightarrow> pe_appends e = 0)"
proof -
  let ?n = "open_count tp meta partitions"
  let ?ps = "filter (own name) [0 .. ?n - 1]"
  define rt1 where "rt1 = (case meta of Some n \<Rightarrow> rt | None \<Rightarrow>
      al_set name (Topic_Dir ((topic_at name rt)\<lparr>td_meta := Some (Inr ?n)\<rparr>)) rt)"
  have dirs1: "part_dir n q rt1 = part_dir n q rt" for n q
    by (simp add: rt1_def split: option.split)
  have meta1: "metas rt1 name = Some (Inr ?n)"
    using meta(1) by (auto simp: rt1_def read_meta_metas open_count_def split: option.splits sum.splits)
  have other1: "n \<noteq> name \<Longrightarrow> metas rt1 n = metas rt n" for n
    by (simp add: rt1_def split: option.split)
  note D = topics_okD [OF ok]
  have "\<forall>p. on_disk (C name p) (part_dir name p rt1)" using D(3) dirs1 by simp
  from open_parts_ok [where C = C and name = name and ps = ?ps and tick = tick, OF this D(1,2)] obtain es rt' where
    r: "open_parts (tp_max tp) name tick ?ps rt1 = (Inr es, rt')" "map fst es = ?ps"
      "\<forall>p e. map_of es p = Some e \<longrightarrow> entry_ok (C name p) e (part_dir name p rt') \<and> pe_appends e = 0"
      "\<forall>p. on_disk (C name p) (part_dir name p rt')"
      "metas rt' = metas rt1"
      "\<forall>n q. n \<noteq> name \<or> q \<notin> set ?ps \<longrightarrow> part_dir n q rt' = part_dir n q rt1"
    by auto
  define ot where "ot = \<lparr>ot_partitions = ?n, ot_local = es\<rparr>"
  have "open_locked own name partitions tick (tp, rt)
      = (Inr ot, (tp\<lparr>tp_open := al_set name ot (tp_open tp)\<rparr>, rt'))"
    using meta r(1)
    by (auto simp: open_locked_def Let_def write_meta_def ot_def open_count_def rt1_def split: option.splits)
  moreover have "topics_ok own C (tp\<lparr>tp_open := al_set name ot (tp_open tp)\<rparr>, rt')"
  proof -
    have "on_disk (C n p) (part_dir n p rt')" for n p
      using r(4,6) D(3) dirs1 by (cases "n = name") auto
    moreover have "open_ok own C rt' name ot"
      using r meta1 name by (simp add: open_ok_def ot_def)
    moreover have "open_ok own C rt' n o'" if "map_of (tp_open tp) n = Some o'" "n \<noteq> name" for n o'
      using D(4) [OF that(1)] r(5,6) that(2) other1 dirs1 by (simp add: open_ok_def)
    ultimately show ?thesis using D(1,2,5) by (simp add: topics_ok_def)
  qed
  moreover have "metas rt' = (metas rt)(name := Some (Inr (ot_partitions ot)))"
    using r(5) meta1 other1 by (auto simp: ot_def fun_eq_iff)
  ultimately show ?thesis using r(3) by (simp add: ot_def)
qed

section \<open>Appending\<close>

definition put_contents :: "string \<Rightarrow> int \<Rightarrow> offset \<times> log_record list \<Rightarrow> contents \<Rightarrow> contents" where
  "put_contents name p c C = C(name := (C name)(p := c))"

lemma put_contents_simps [simp]:
  "put_contents name p c C n q = (if n = name \<and> q = p then c else C n q)"
  "put_contents name p (C name p) C = C"
  by (auto simp: put_contents_def)

definition open_entry :: "tstate \<Rightarrow> string \<Rightarrow> int \<Rightarrow> part_entry option" where
  "open_entry st name p =
     (case map_of (tp_open (fst st)) name of None \<Rightarrow> None | Some ot \<Rightarrow> map_of (ot_local ot) p)"

lemma open_entry_iff:
  "open_entry (tp, rt) name p = Some e \<longleftrightarrow>
     (\<exists>ot. map_of (tp_open tp) name = Some ot \<and> map_of (ot_local ot) p = Some e)"
  by (simp add: open_entry_def split: option.split)

lemma put_entry_ok:
  assumes ok: "topics_ok own C st" and e: "open_entry st name p = Some e"
    and new: "entry_ok c e' d'" "on_disk c d'"
  shows "topics_ok own (put_contents name p c C) (put_entry name p e' d' st)
    \<and> open_entry (put_entry name p e' d' st) name p = Some e'
    \<and> tp_policy (fst (put_entry name p e' d' st)) = tp_policy (fst st)
    \<and> part_dir name p (snd (put_entry name p e' d' st)) = d'"
proof -
  obtain tp rt where st: "st = (tp, rt)" by (cases st)
  obtain ot where ot: "map_of (tp_open tp) name = Some ot" "map_of (ot_local ot) p = Some e"
    using e by (auto simp: st open_entry_iff)
  note D = topics_okD [OF ok [unfolded st]]
  note O = D(4) [OF ot(1), unfolded open_ok_def]
  have p: "p \<in> fst ` set (ot_local ot)" using ot(2) by (metis map_of_eq_None_iff option.distinct(1))
  let ?C = "put_contents name p c C" and ?rt = "set_part_dir name p d' rt"
  let ?ot = "ot\<lparr>ot_local := al_set p e' (ot_local ot)\<rparr>"
  have "open_ok own ?C ?rt name ?ot"
    using O new(1) p by (auto simp: open_ok_def keys_list_al_set split: if_split_asm)
  moreover have "open_ok own ?C ?rt n o'" if "map_of (tp_open tp) n = Some o'" "n \<noteq> name" for n o'
    using D(4) [OF that(1)] that(2) by (simp add: open_ok_def)
  moreover have "on_disk (?C n q) (part_dir n q ?rt)" for n q using D(3) new(2) by simp
  ultimately show ?thesis using D(1,2,5) ot(1)
    by (auto simp: st put_entry_def topics_ok_def open_entry_def)
qed

lemma append_entry_ok:
  assumes ok: "topics_ok own C st" and e: "open_entry st name p = Some e"
    and app: "append_entry name p e key val ts now_ns tick st = (res, st')"
  defines "b \<equiv> fst (C name p)" and "rs \<equiv> snd (C name p)"
  defines "r \<equiv> stamped (b + int (length rs)) key val ts now_ns"
  shows "case res of
      Inl err \<Rightarrow> topics_ok own C st' \<and> encode r = Inl err
    | Inr (q, off) \<Rightarrow> q = p \<and> off = b + int (length rs) \<and> encodable r
        \<and> topics_ok own (put_contents name p (b, rs @ [r]) C) st'
        \<and> (\<exists>e'. open_entry st' name p = Some e'
            \<and> (if should_sync (tp_policy (fst st)) (pe_appends e + 1) (millis_since_sync e tick)
               then pe_appends e' = 0
                 \<and> log_kept (lg_max (pe_log e')) (off + 1) (pe_log e', part_dir name p (snd st')) b (rs @ [r])
               else pe_appends e' = pe_appends e + 1))"
proof -
  obtain tp rt where st: "st = (tp, rt)" by (cases st)
  obtain ot where ot: "map_of (tp_open tp) name = Some ot" "map_of (ot_local ot) p = Some e"
    using e by (auto simp: st open_entry_iff)
  note D = topics_okD [OF ok [unfolded st]]
  let ?d = "part_dir name p rt"
  have holds: "log_holds (pe_log e, ?d) b rs" and ap: "0 \<le> pe_appends e"
    using D(4) [OF ot(1)] ot(2) by (auto simp: open_ok_def entry_ok_def b_def rs_def)
  have h: "healthy ?d" using D(3) [of name p] by (simp add: on_disk_def)
  from holds obtain qs q where l: "log_ok (pe_log e) qs q ?d" "live (pe_log e)" "log_base (pe_log e) = b"
    "concat qs @ q = rs" by (auto simp: log_holds_def)
  have nxt: "log_next (pe_log e) = b + int (length rs)"
    using log_ok_records(2) [OF l(1)] l(3,4) by auto
  obtain r1 lg d where la: "log_append (pe_log e) key val ts now_ns ?d = (r1, lg, d)" by (metis prod_cases3)
  have r: "stamped (log_next (pe_log e)) key val ts now_ns = r" by (simp add: r_def nxt)
  from log_append_ok [OF l(1,2) la, of 0, unfolded r] obtain qs' q' where
    k0: "log_ok lg qs' q' d" "live lg" "log_base lg = log_base (pe_log e)" "healthy d"
      "case r1 of Inr off \<Rightarrow> off = log_next (pe_log e) \<and> encodable r
           \<and> concat qs' @ q' = concat qs @ q @ [r] \<and> q' \<noteq> [] \<and> prefix qs qs'
         | Inl err \<Rightarrow> concat qs' @ q' = concat qs @ q"
      "encodable r \<longrightarrow> r1 = Inr (log_next (pe_log e))" "\<forall>err. encode r = Inl err \<longrightarrow> r1 = Inl err"
    using h by blast
  have k: "log_ok lg qs' q' d" "live lg" "log_base lg = b" "healthy d"
      "case r1 of Inr off \<Rightarrow> off = b + int (length rs) \<and> encodable r \<and> concat qs' @ q' = rs @ [r]
         | Inl err \<Rightarrow> concat qs' @ q' = rs"
      "encodable r \<longrightarrow> r1 = Inr (b + int (length rs))"
    using k0 l(3) nxt l(4) by (auto split: sum.splits)
  have disk: "on_disk (b, concat qs' @ q') d" using on_disk_of_log [OF k(1,4)] k(3) by simp
  have holds': "log_holds (lg, d) b (concat qs' @ q')" using k(1-3) by (auto simp: log_holds_def)
  show ?thesis
  proof (cases r1)
    case (Inl err)
    then have same: "concat qs' @ q' = rs" "\<not> encodable r" using k(5,6) by auto
    then have "encode r = Inl err" using k0(7) Inl by (cases "encode r") (auto simp: encode_eq_Inr)
    have "res = Inl err" "st' = put_entry name p (e\<lparr>pe_log := lg\<rparr>) d st"
      using app la Inl by (simp_all add: append_entry_def st)
    moreover have "entry_ok (C name p) (e\<lparr>pe_log := lg\<rparr>) d" "on_disk (C name p) d"
      using holds' disk same ap by (simp_all add: entry_ok_def b_def rs_def)
    ultimately show ?thesis using put_entry_ok [OF ok e] \<open>encode r = Inl err\<close> by fastforce
  next
    case (Inr off)
    then have off: "off = b + int (length rs)" "encodable r" "concat qs' @ q' = rs @ [r]" using k(5) by auto
    let ?e1 = "e\<lparr>pe_log := lg, pe_appends := pe_appends e + 1\<rparr>"
    let ?due = "should_sync (tp_policy tp) (pe_appends e + 1) (millis_since_sync e tick)"
    have millis: "millis_since_sync ?e1 tick = millis_since_sync e tick" by (simp add: millis_since_sync_def)
    show ?thesis
    proof (cases ?due)
      case False
      have "res = Inr (p, off)" "st' = put_entry name p ?e1 d st"
        using app la Inr False millis by (simp_all add: append_entry_def st Let_def)
      moreover have "entry_ok (b, rs @ [r]) ?e1 d" "on_disk (b, rs @ [r]) d"
        using holds' disk off(3) ap by (simp_all add: entry_ok_def)
      ultimately show ?thesis using put_entry_ok [OF ok e] off False by (auto simp: st)
    next
      case True
      obtain lg2 d2 where ls: "log_sync lg d = (Inr (), lg2, d2)" and h2: "healthy d2"
        using log_sync_healthy [OF k(1,2,4)] by blast
      note y = log_sync_ok [OF k(1) ls]
      have res: "res = Inr (p, off)" "st' = put_entry name p (mark_synced tick (?e1\<lparr>pe_log := lg2\<rparr>)) d2 st"
        using app la Inr True millis ls by (simp_all add: append_entry_def st Let_def)
      have "log_holds (lg2, d2) b (rs @ [r])" using y k(2,3) off(3) by (auto simp: log_holds_def)
      moreover have "on_disk (b, rs @ [r]) d2" using on_disk_of_log [OF y(1) h2] y(2) k(3) off(3) by simp
      moreover have "log_kept (lg_max lg2) (off + 1) (lg2, d2) b (rs @ [r])"
      proof -
        have "log_next lg2 = off + 1" using log_ok_records(2) [OF y(1)] y(2) k(3) off by auto
        then have "durable lg2 q' d2 (off + 1)" using y(5) by simp
        then show ?thesis using y k(2,3) h2 off(3) by (auto simp: log_kept_def)
      qed
      moreover have "entry_ok (b, rs @ [r]) (mark_synced tick (?e1\<lparr>pe_log := lg2\<rparr>)) d2"
        using calculation(1) by (simp add: entry_ok_def mark_synced_def)
      ultimately show ?thesis using put_entry_ok [OF ok e, of "(b, rs @ [r])"] res off True
        by (auto simp: st mark_synced_def)
    qed
  qed
qed

section \<open>Whole operations\<close>

lemma open_locked_cases:
  assumes ok: "topics_ok own C st" and name: "is_valid_name name"
    and op: "open_locked own name partitions tick st = (res, st')"
  shows "(\<exists>e. res = Inl e \<and> st' = st)
    \<or> (\<exists>ot n. res = Inr ot \<and> topics_ok own C st' \<and> map_of (tp_open (fst st')) name = Some ot
        \<and> (\<forall>m. metas (snd st) name = Some (Inr m) \<longrightarrow> ot_partitions ot = m)
        \<and> metas (snd st') = (metas (snd st))(name := Some (Inr (ot_partitions ot)))
        \<and> tp_policy (fst st') = tp_policy (fst st) \<and> tp_next (fst st') = tp_next (fst st)
        \<and> (\<forall>p e. map_of (ot_local ot) p = Some e \<longrightarrow> pe_appends e = 0))"
proof -
  obtain tp rt where st: "st = (tp, rt)" by (cases st)
  show ?thesis
  proof (cases "read_meta name rt")
    case (Inl e)
    with op show ?thesis by (auto simp: st open_locked_def)
  next
    case (Inr meta)
    show ?thesis
    proof (cases "map_of rt name = Some Plain_File")
      case True
      then have "meta = None" using Inr by (auto simp: read_meta_metas dest: metas_dir split: option.splits sum.splits)
      with op Inr True show ?thesis by (auto simp: st open_locked_def write_meta_def Let_def)
    next
      case False
      from open_locked_ok [OF ok [unfolded st] name Inr False, of partitions tick] op
      obtain ot where *: "res = Inr ot" "topics_ok own C st'" "ot_partitions ot = open_count tp meta partitions"
        "fst st' = tp\<lparr>tp_open := al_set name ot (tp_open tp)\<rparr>"
        "\<forall>p e. map_of (ot_local ot) p = Some e \<longrightarrow> pe_appends e = 0"
        "metas (snd st') = (metas rt)(name := Some (Inr (ot_partitions ot)))"
        by (auto simp: st)
      moreover have "\<forall>m. metas rt name = Some (Inr m) \<longrightarrow> ot_partitions ot = m"
        using *(3) Inr by (auto simp: open_count_def read_meta_metas)
      ultimately show ?thesis by (simp add: st)
    qed
  qed
qed

lemma topics_ok_next [simp]: "topics_ok own C (tp\<lparr>tp_next := n\<rparr>, rt) = topics_ok own C (tp, rt)"
  by (simp add: topics_ok_def)

lemma put_entry_meta [simp]:
  "metas (snd (put_entry name p e d st)) = metas (snd st)"
  by (simp add: put_entry_def split: prod.split option.split)

lemma append_entry_meta:
  "metas (snd (snd (append_entry name p e key val ts now_ns tick st))) = metas (snd st)"
  by (auto simp: append_entry_def Let_def split: prod.split sum.split)

lemma check_partition_ok:
  "check_partition ot p = Inr e \<longleftrightarrow> 0 \<le> p \<and> p < ot_partitions ot \<and> map_of (ot_local ot) p = Some e"
  by (auto simp: check_partition_def split: option.splits)

lemma valid_name_iff: "is_valid_name name \<longleftrightarrow> validate_name name = Inr ()"
  by (auto simp: is_valid_name_def split: sum.splits)

lemma topic_append_ok:
  assumes ok: "topics_ok own C st"
    and app: "topic_append own name key val ts part now_ns tick st = (res, st')"
  shows "case res of
      Inl e \<Rightarrow> topics_ok own C st'
    | Inr (p, off) \<Rightarrow> (\<exists>n. metas (snd st') name = Some (Inr n) \<and> 0 \<le> p \<and> p < n \<and> own name p
          \<and> (case part of Some q \<Rightarrow> p = q | None \<Rightarrow> (\<forall>k. key = Some k \<longrightarrow> p = uint (crc32 k 0) mod n)))
        \<and> off = fst (C name p) + int (length (snd (C name p)))
        \<and> topics_ok own (put_contents name p (fst (C name p), snd (C name p) @ [stamped off key val ts now_ns]) C) st'
        \<and> (tp_policy (fst st) = SYNC_EVERY_RECORD \<longrightarrow>
            (\<exists>e :: part_entry. log_kept (lg_max (pe_log e)) (off + 1) (pe_log e, part_dir name p (snd st')) (fst (C name p))
                (snd (C name p) @ [stamped off key val ts now_ns])))"
proof (cases "is_valid_name name")
  case False
  then have "res = Inl ValueError \<and> st' = st"
    using app by (auto simp: topic_append_def is_valid_name_def validate_name_def split: if_split_asm)
  with ok show ?thesis by simp
next
  case True
  then have val: "validate_name name = Inr ()" by (simp add: valid_name_iff)
  define opn where "opn = (case map_of (tp_open (fst st)) name of
      Some ot \<Rightarrow> (Inr ot, st) | None \<Rightarrow> open_locked own name None tick st)"
  obtain r1 tp rt where r1: "opn = (r1, (tp, rt))" by (metis prod_cases3)
  have opened: "(\<exists>e. r1 = Inl e \<and> (tp, rt) = st)
    \<or> (\<exists>ot. r1 = Inr ot \<and> topics_ok own C (tp, rt) \<and> map_of (tp_open tp) name = Some ot
        \<and> tp_policy tp = tp_policy (fst st))"
  proof (cases "map_of (tp_open (fst st)) name")
    case None
    then have "open_locked own name None tick st = (r1, (tp, rt))" using r1 by (simp add: opn_def)
    from open_locked_cases [OF ok True this] show ?thesis by auto
  next
    case (Some ot)
    then show ?thesis using r1 ok by (simp add: opn_def)
  qed
  show ?thesis
  proof (cases r1)
    case (Inl e)
    then have "res = Inl e" "st' = st"
      using app r1 opened by (auto simp: topic_append_def val opn_def [symmetric])
    with ok show ?thesis by simp
  next
    case (Inr ot)
    then have ok1: "topics_ok own C (tp, rt)" and ot: "map_of (tp_open tp) name = Some ot"
      and pol: "tp_policy tp = tp_policy (fst st)" using opened by auto
    obtain chosen nxt where ch: "(case part of
                     None \<Rightarrow> partition_for (tp_next tp) key (ot_partitions ot)
                   | Some p \<Rightarrow> (Inr p, tp_next tp)) = (chosen, nxt)" by (meson surj_pair)
    let ?st2 = "(tp\<lparr>tp_next := nxt\<rparr>, rt)"
    have app': "(case chosen of
                     Inl e \<Rightarrow> (Inl e, ?st2)
                   | Inr p \<Rightarrow>
                       (case check_partition ot p of
                          Inl e \<Rightarrow> (Inl e, ?st2)
                        | Inr e \<Rightarrow> append_entry name p e key val ts now_ns tick ?st2)) = (res, st')"
      using app r1 Inr by (simp add: topic_append_def val opn_def [symmetric] ch Let_def)
    have ok2: "topics_ok own C ?st2" using ok1 by simp
    show ?thesis
    proof (cases "\<exists>p e. chosen = Inr p \<and> check_partition ot p = Inr e")
      case False
      then have "st' = ?st2 \<and> (\<exists>e. res = Inl e)" using app' by (auto split: sum.splits)
      with ok2 show ?thesis by auto
    next
      case True
      then obtain p e where p: "chosen = Inr p" "check_partition ot p = Inr e" by blast
      have e: "open_entry ?st2 name p = Some e"
        using p(2) ot by (auto simp: check_partition_ok open_entry_def)
      have ae: "append_entry name p e key val ts now_ns tick ?st2 = (res, st')" using app' p by simp
      note A = append_entry_ok [OF ok2 e ae]
      show ?thesis
      proof (cases res)
        case (Inl err)
        with A show ?thesis by simp
      next
        case (Inr po)
        obtain q off where po: "po = (q, off)" by (cases po)
        note O = topics_okD(4) [OF ok1 ot, unfolded open_ok_def]
        have "p \<in> set (map fst (ot_local ot))"
          using p(2) by (auto simp: check_partition_ok dest: map_of_SomeD intro: rev_image_eqI)
        then have own: "own name p" "0 \<le> p" "p < ot_partitions ot" using O by auto
        have "metas (snd st') name = Some (Inr (ot_partitions ot))"
          using append_entry_meta [of name p e key val ts now_ns tick ?st2] ae O by simp
        moreover have "case part of Some q \<Rightarrow> p = q | None \<Rightarrow> (\<forall>k. key = Some k \<longrightarrow> p = uint (crc32 k 0) mod ot_partitions ot)"
          using ch p(1) by (auto simp: partition_for_def split: option.splits if_split_asm)
        moreover have "0 \<le> pe_appends e"
          using O p(2) by (auto simp: check_partition_ok entry_ok_def)
        moreover from A have A': "q = p" "off = fst (C name p) + int (length (snd (C name p)))"
          "topics_ok own (put_contents name p (fst (C name p), snd (C name p) @ [stamped off key val ts now_ns]) C) st'"
          "\<exists>e'. open_entry st' name p = Some e'
            \<and> (if should_sync (tp_policy tp) (pe_appends e + 1) (millis_since_sync e tick)
               then pe_appends e' = 0 \<and> log_kept (lg_max (pe_log e')) (off + 1)
                 (pe_log e', part_dir name p (snd st')) (fst (C name p)) (snd (C name p) @ [stamped off key val ts now_ns])
               else pe_appends e' = pe_appends e + 1)"
          unfolding Inr po sum.case prod.case by auto
        moreover have "\<exists>e :: part_entry. log_kept (lg_max (pe_log e)) (off + 1) (pe_log e, part_dir name p (snd st')) (fst (C name p))
            (snd (C name p) @ [stamped off key val ts now_ns])" if "tp_policy (fst st) = SYNC_EVERY_RECORD"
        proof -
          have "should_sync (tp_policy tp) (pe_appends e + 1) (millis_since_sync e tick)"
            using that pol calculation(3) by simp
          with A'(4) show ?thesis by auto
        qed
        ultimately show ?thesis using Inr po own by auto
      qed
    qed
  qed
qed

section \<open>Reading\<close>

lemma the_topic_ok:
  assumes ok: "topics_ok own C st" and t: "the_topic own name tick st = (res, st')"
  shows "(\<exists>e. res = Inl e \<and> st' = st)
    \<or> (\<exists>ot. res = Inr ot \<and> is_valid_name name \<and> topics_ok own C st'
        \<and> map_of (tp_open (fst st')) name = Some ot
        \<and> metas (snd st) name = Some (Inr (ot_partitions ot))
        \<and> metas (snd st') = metas (snd st)
        \<and> tp_next (fst st') = tp_next (fst st) \<and> tp_policy (fst st') = tp_policy (fst st))"
proof (cases "is_valid_name name")
  case False
  then show ?thesis using t
    by (auto simp: the_topic_def is_valid_name_def split: sum.splits)
next
  case True
  then have val: "validate_name name = Inr ()" by (simp add: valid_name_iff)
  show ?thesis
  proof (cases "map_of (tp_open (fst st)) name")
    case (Some ot)
    obtain tp rt where st: "st = (tp, rt)" by (cases st)
    with topics_okD(4) [OF ok [unfolded st], of name ot] Some have
      "metas rt name = Some (Inr (ot_partitions ot))" by (simp add: open_ok_def)
    with Some t val ok True show ?thesis by (auto simp: the_topic_def st)
  next
    case None
    show ?thesis
    proof (cases "\<exists>n. read_meta name (snd st) = Inr (Some n)")
      case False
      with None t val show ?thesis by (auto simp: the_topic_def split: sum.splits option.splits)
    next
      case known: True
      then obtain n where n: "metas (snd st) name = Some (Inr n)"
        by (auto simp: read_meta_metas split: option.splits sum.splits)
      have "open_locked own name None tick st = (res, st')"
        using None t val known by (auto simp: the_topic_def)
      from open_locked_cases [OF ok True this] show ?thesis
      proof
        assume "\<exists>ot n. res = Inr ot \<and> topics_ok own C st' \<and> map_of (tp_open (fst st')) name = Some ot
          \<and> (\<forall>m. metas (snd st) name = Some (Inr m) \<longrightarrow> ot_partitions ot = m)
          \<and> metas (snd st') = (metas (snd st))(name := Some (Inr (ot_partitions ot)))
          \<and> tp_policy (fst st') = tp_policy (fst st) \<and> tp_next (fst st') = tp_next (fst st)
          \<and> (\<forall>p e. map_of (ot_local ot) p = Some e \<longrightarrow> pe_appends e = 0)"
        then obtain ot where o: "res = Inr ot" "topics_ok own C st'" "map_of (tp_open (fst st')) name = Some ot"
          "ot_partitions ot = n" "metas (snd st') = (metas (snd st))(name := Some (Inr (ot_partitions ot)))"
          "tp_policy (fst st') = tp_policy (fst st)" "tp_next (fst st') = tp_next (fst st)"
          using n by blast
        moreover have "metas (snd st') = metas (snd st)" unfolding o(5) using n o(4) by (simp add: fun_upd_idem_iff)
        ultimately show ?thesis using True n by blast
      qed blast
    qed
  qed
qed

text \<open>When the topic is there, it is found.\<close>

lemma the_topic_found:
  assumes ok: "topics_ok own C st" and name: "is_valid_name name"
    and meta: "metas (snd st) name = Some (Inr n)"
  shows "\<exists>ot st'. the_topic own name tick st = (Inr ot, st') \<and> ot_partitions ot = n"
proof -
  obtain tp rt where st: "st = (tp, rt)" by (cases st)
  have val: "validate_name name = Inr ()" using name by (simp add: valid_name_iff)
  show ?thesis
  proof (cases "map_of (tp_open tp) name")
    case (Some ot)
    with topics_okD(4) [OF ok [unfolded st], of name ot] meta val show ?thesis
      by (simp add: the_topic_def st open_ok_def)
  next
    case None
    have rm: "read_meta name rt = Inr (Some n)" using meta by (simp add: st read_meta_metas)
    have "map_of rt name \<noteq> Some Plain_File"
      using meta by (auto simp: st dest: metas_dir)
    from open_locked_ok [OF ok [unfolded st] name rm this, of None tick] None val rm show ?thesis
      by (auto simp: the_topic_def st open_count_def)
  qed
qed

text \<open>When it is not, the error says why.\<close>

definition topic_error :: "string \<Rightarrow> (string \<Rightarrow> int result option) \<Rightarrow> py_error" where
  "topic_error name m =
     (if \<not> is_valid_name name then ValueError
      else (case m name of Some (Inl e) \<Rightarrow> e | _ \<Rightarrow> UnknownTopic))"

lemma the_topic_refused:
  assumes ok: "topics_ok own C st" and no: "\<not> (\<exists>n. is_valid_name name \<and> metas (snd st) name = Some (Inr n))"
  shows "the_topic own name tick st = (Inl (topic_error name (metas (snd st))), st)"
proof -
  have "\<And>ot. map_of (tp_open (fst st)) name = Some ot \<Longrightarrow> metas (snd st) name = Some (Inr (ot_partitions ot))"
    using topics_okD(4) [of own C "fst st" "snd st" name] ok by (auto simp: open_ok_def)
  then have "\<not> is_valid_name name \<or> map_of (tp_open (fst st)) name = None"
    using no by (cases "map_of (tp_open (fst st)) name") auto
  moreover have "\<not> is_valid_name name \<Longrightarrow> validate_name name = Inl ValueError"
    by (auto simp: is_valid_name_def validate_name_def split: if_split_asm)
  ultimately show ?thesis using no
    by (auto simp: the_topic_def topic_error_def valid_name_iff read_meta_metas split: option.splits sum.splits)
qed

lemma local_keys:
  assumes "open_ok own C rt name ot"
  shows "(\<exists>e. map_of (ot_local ot) p = Some e) \<longleftrightarrow> own name p \<and> 0 \<le> p \<and> p < ot_partitions ot"
proof -
  have "map fst (ot_local ot) = filter (own name) [0 .. ot_partitions ot - 1]"
    using assms by (simp add: open_ok_def)
  then have keys: "fst ` set (ot_local ot) = set (filter (own name) [0 .. ot_partitions ot - 1])"
    by (metis list.set_map)
  have "(\<exists>e. map_of (ot_local ot) p = Some e) \<longleftrightarrow> p \<in> fst ` set (ot_local ot)"
    by (metis map_of_eq_None_iff not_None_eq)
  then show ?thesis unfolding keys by auto
qed

lemma topic_read_ok:
  assumes ok: "topics_ok own C st" and name: "is_valid_name name"
    and meta: "metas (snd st) name = Some (Inr n)"
    and p: "0 \<le> p" "p < n" "own name p" and off: "fst (C name p) \<le> off"
  shows "\<exists>st'. topic_read_from own name off p tick st
      = (Inr (drop (nat (off - fst (C name p))) (snd (C name p)), None), st')
    \<and> topics_ok own C st' \<and> metas (snd st') = metas (snd st)"
proof -
  obtain ot st' where t: "the_topic own name tick st = (Inr ot, st')" "ot_partitions ot = n"
    using the_topic_found [OF ok name meta] by blast
  obtain tp rt where st': "st' = (tp, rt)" by (cases st')
  from the_topic_ok [OF ok t(1)] have o: "topics_ok own C st'" "map_of (tp_open tp) name = Some ot"
    "metas (snd st') = metas (snd st)"
    by (auto simp: st')
  note O = topics_okD(4) [OF o(1) [unfolded st'] o(2)]
  obtain e where e: "map_of (ot_local ot) p = Some e" using local_keys [OF O] p t(2) by auto
  then have "log_holds (pe_log e, part_dir name p rt) (fst (C name p)) (snd (C name p))"
    using O by (auto simp: open_ok_def entry_ok_def)
  from fetch_holds [OF this off] have
    "log_read_from (pe_log e) off (part_dir name p rt) = Inr (drop (nat (off - fst (C name p))) (snd (C name p)), None)"
    by (simp add: fetch_def)
  moreover have "check_partition ot p = Inr e" using e p t(2) by (simp add: check_partition_def)
  ultimately show ?thesis using t(1) o(1,3) by (simp add: topic_read_from_def topic_get_def st')
qed

section \<open>Closing and opening again\<close>

definition closable :: "contents \<Rightarrow> (string \<times> int \<times> part_entry) list \<Rightarrow> tstate \<Rightarrow> bool" where
  "closable C es st \<longleftrightarrow> distinct (map (\<lambda>(n, p, e). (n, p)) es)
     \<and> (\<forall>(n, p, e) \<in> set es. map_of (tp_open (fst st)) n \<noteq> None \<and> entry_ok (C n p) e (part_dir n p (snd st)))
     \<and> (\<forall>n p. on_disk (C n p) (part_dir n p (snd st)))"

lemma put_entry_part_dir:
  "map_of (tp_open (fst st)) name \<noteq> None \<Longrightarrow>
   part_dir n q (snd (put_entry name p e d st)) = (if n = name \<and> q = p then d else part_dir n q (snd st))"
  by (auto simp: put_entry_def split: prod.split option.split)

lemma put_entry_open:
  "map_of (tp_open (fst (put_entry name p e d st))) n = None \<longleftrightarrow> map_of (tp_open (fst st)) n = None"
  by (auto simp: put_entry_def split: prod.split option.split)

lemma put_entry_config [simp]:
  "tp_default (fst (put_entry name p e d st)) = tp_default (fst st)"
  "tp_max (fst (put_entry name p e d st)) = tp_max (fst st)"
  by (auto simp: put_entry_def split: prod.split option.split)

lemma closable_step:
  assumes cl: "closable C ((name, p, e) # es) st" and c: "log_close (pe_log e) (part_dir name p (snd st)) = (res, lg, d)"
  shows "res = Inr ()" "closable C es (put_entry name p (e\<lparr>pe_log := lg\<rparr>) d st)"
proof -
  let ?d = "part_dir name p (snd st)" and ?st = "put_entry name p (e\<lparr>pe_log := lg\<rparr>) d st"
  from cl have opn: "map_of (tp_open (fst st)) name \<noteq> None" and e: "entry_ok (C name p) e ?d"
    and disk: "on_disk (C name p) ?d" and dist: "(name, p) \<notin> (\<lambda>(n, p, e). (n, p)) ` set es"
    by (auto simp: closable_def)
  obtain qs q where l: "log_ok (pe_log e) qs q ?d" "C name p = (log_base (pe_log e), concat qs @ q)" "healthy ?d"
    using e on_disk_healthy [OF disk] by (auto simp: entry_ok_def log_holds_def prod_eq_iff)
  note k = log_close_ok [OF l(1) c]
  show "res = Inr ()" using k l(3) by blast
  have "healthy d"
  proof -
    from log_okE [OF l(1)] obtain ss a where s: "lg_segments (pe_log e) = ss @ [a]"
      "list_all2 (sealed_ok (lg_max (pe_log e)) ?d) ss qs" "seg_ok a q ?d" by metis
    have "\<forall>s \<in> set ss. sg_closed s"
      using s(2) by (auto simp: list_all2_conv_all_nth in_set_conv_nth sealed_ok_def)
    then obtain r a' where "seg_close a ?d = (r, a', d)"
      using c s(1) by (auto simp: log_close_def close_segments_snoc split: prod.splits)
    with seg_close_ok [OF s(3) this] l(3) show ?thesis by (simp add: only_touches_def)
  qed
  with on_disk_of_log [of lg qs q d] k l(2) have disk': "on_disk (C name p) d" by simp
  show "closable C es ?st"
    unfolding closable_def
  proof (intro conjI)
    show "distinct (map (\<lambda>(n, p, e). (n, p)) es)" using cl by (simp add: closable_def)
    show "\<forall>n q. on_disk (C n q) (part_dir n q (snd ?st))"
      using cl disk' by (simp add: closable_def put_entry_part_dir [OF opn])
    show "\<forall>(n, q, f) \<in> set es. map_of (tp_open (fst ?st)) n \<noteq> None \<and> entry_ok (C n q) f (part_dir n q (snd ?st))"
    proof clarify
      fix n q f assume f: "(n, q, f) \<in> set es"
      then have "(n, q) \<noteq> (name, p)" using dist by force
      moreover have "map_of (tp_open (fst st)) n \<noteq> None" "entry_ok (C n q) f (part_dir n q (snd st))"
        using cl f by (auto simp: closable_def)
      ultimately show "map_of (tp_open (fst ?st)) n \<noteq> None \<and> entry_ok (C n q) f (part_dir n q (snd ?st))"
        using put_entry_open [of name p _ d st n] by (auto simp: put_entry_part_dir [OF opn])
    qed
  qed
qed

lemma close_entries_ok:
  assumes "closable C es st"
  shows "\<exists>st'. close_entries es st = ([], st') \<and> (\<forall>n p. on_disk (C n p) (part_dir n p (snd st')))
    \<and> metas (snd st') = metas (snd st) \<and> tp_max (fst st') = tp_max (fst st)"
  using assms
proof (induction es arbitrary: st)
  case (Cons x es)
  obtain name p e where x: "x = (name, p, e)" by (metis prod_cases3)
  obtain res lg d where c: "log_close (pe_log e) (part_dir name p (snd st)) = (res, lg, d)" by (metis prod_cases3)
  note k = closable_step [OF Cons.prems [unfolded x] c]
  from Cons.IH [OF k(2)] c k(1) show ?case by (auto simp: x)
qed (auto simp: closable_def)

lemma every_partition_closable:
  assumes ok: "topics_ok own C st"
  shows "closable C (every_partition (fst st)) st"
proof -
  obtain tp rt where st: "st = (tp, rt)" by (cases st)
  note D = topics_okD [OF ok [unfolded st]]
  have mem: "map_of (tp_open tp) n = Some ot \<and> map_of (ot_local ot) p = Some e"
    if "(n, ot) \<in> set (tp_open tp)" "(p, e) \<in> set (ot_local ot)" for n ot p e
  proof -
    have m: "map_of (tp_open tp) n = Some ot" using D(5) that(1) by (rule map_of_is_SomeI)
    have "distinct (map fst (ot_local ot))" using D(4) [OF m] by (simp add: open_ok_def)
    with m that(2) show ?thesis by (simp add: map_of_is_SomeI)
  qed
  have "distinct (map (\<lambda>(n, p, e). (n, p)) (concat (map (\<lambda>(name, ot). map (\<lambda>(p, e). (name, p, e)) (ot_local ot)) ops)))"
    if "distinct (map fst ops)" "set ops \<subseteq> set (tp_open tp)" for ops
    using that
  proof (induction ops)
    case (Cons x ops)
    obtain name ot where x: "x = (name, ot)" by (cases x)
    have "distinct (map fst (ot_local ot))"
      using Cons.prems D(4,5) by (auto simp: x open_ok_def dest: map_of_is_SomeI)
    then have "distinct (map (\<lambda>(n, p, e). (n, p)) (map (\<lambda>(p, e). (name, p, e)) (ot_local ot)))"
      by (auto simp: distinct_map inj_on_def case_prod_beta)
    with Cons show ?case by (force simp: x)
  qed simp
  then have "distinct (map (\<lambda>(n, p, e). (n, p)) (every_partition tp))"
    using D(5) by (simp add: every_partition_def)
  moreover have "\<forall>(n, p, e) \<in> set (every_partition tp). map_of (tp_open tp) n \<noteq> None
      \<and> entry_ok (C n p) e (part_dir n p rt)"
    using mem D(4) by (fastforce simp: every_partition_def open_ok_def)
  ultimately show ?thesis using D(3) by (simp add: closable_def st)
qed

lemma topics_close_ok:
  assumes ok: "topics_ok own C st" and close: "topics_close st = (res, st')"
  shows "res = Inr () \<and> topics_ok own' C st' \<and> tp_open (fst st') = []
    \<and> metas (snd st') = metas (snd st)"
proof -
  from close_entries_ok [OF every_partition_closable [OF ok]] obtain st1 where
    c: "close_entries (every_partition (fst st)) st = ([], st1)" "\<forall>n p. on_disk (C n p) (part_dir n p (snd st1))"
      "metas (snd st1) = metas (snd st)" "tp_max (fst st1) = tp_max (fst st)"
    by blast
  with close have "res = Inr ()" "st' = ((fst st1)\<lparr>tp_open := []\<rparr>, snd st1)"
    by (auto simp: topics_close_def split: prod.splits)
  moreover have "0 < tp_max (fst st)" "tp_max (fst st) \<le> MAX_U32 + 1"
    using ok by (auto simp: topics_ok_def)
  ultimately show ?thesis using c by (simp add: topics_ok_def)
qed

section \<open>Appending to a topic that exists\<close>

text \<open>Where \<open>append\<close> sends a record of a topic of \<open>n\<close> partitions.\<close>

definition destination :: "topics \<Rightarrow> int \<Rightarrow> bytes option \<Rightarrow> int option \<Rightarrow> int" where
  "destination tp n key part =
     (case part of Some q \<Rightarrow> q
      | None \<Rightarrow> (case key of Some k \<Rightarrow> uint (crc32 k 0) mod n | None \<Rightarrow> tp_next tp mod n))"

lemma topic_append_existing:
  assumes ok: "topics_ok own C st" and name: "is_valid_name name"
    and meta: "metas (snd st) name = Some (Inr n)" and n: "1 \<le> n"
    and app: "topic_append own name key val ts part now_ns tick st = (res, st')"
  obtains ot tp rt nxt where "the_topic own name tick st = (Inr ot, (tp, rt))" "ot_partitions ot = n"
    "tp_next tp = tp_next (fst st)"
    "(case check_partition ot (destination (fst st) n key part) of
        Inl e \<Rightarrow> (Inl e, (tp\<lparr>tp_next := nxt\<rparr>, rt))
      | Inr e \<Rightarrow> append_entry name (destination (fst st) n key part) e key val ts now_ns tick
          (tp\<lparr>tp_next := nxt\<rparr>, rt)) = (res, st')"
proof -
  have val: "validate_name name = Inr ()" using name by (simp add: valid_name_iff)
  from the_topic_found [OF ok name meta] obtain ot tp rt where
    t: "the_topic own name tick st = (Inr ot, (tp, rt))" "ot_partitions ot = n" by (metis prod.collapse)
  from the_topic_ok [OF ok t(1)] have nx: "tp_next tp = tp_next (fst st)" by simp
  have opn: "(case map_of (tp_open (fst st)) name of Some ot \<Rightarrow> (Inr ot, st)
      | None \<Rightarrow> open_locked own name None tick st) = (Inr ot, (tp, rt))"
    using t(1) val meta by (auto simp: the_topic_def read_meta_metas split: option.splits)
  obtain chosen nxt where ch: "(case part of None \<Rightarrow> partition_for (tp_next tp) key (ot_partitions ot)
      | Some p \<Rightarrow> (Inr p, tp_next tp)) = (chosen, nxt)" by (meson surj_pair)
  have "chosen = Inr (destination (fst st) n key part)"
    using ch n nx t(2) by (auto simp: destination_def partition_for_def split: option.splits)
  with app show ?thesis
    by (intro that [OF t nx, of nxt]) (simp add: topic_append_def val opn ch Let_def)
qed

lemma topic_append_decides:
  assumes ok: "topics_ok own C st" and name: "is_valid_name name"
    and meta: "metas (snd st) name = Some (Inr n)" and n: "1 \<le> n"
    and app: "topic_append own name key val ts part now_ns tick st = (res, st')"
    and p: "p = destination (fst st) n key part"
    and off: "off = fst (C name p) + int (length (snd (C name p)))"
  shows "if \<not> (0 \<le> p \<and> p < n) then res = Inl ValueError \<and> topics_ok own C st'
    else if \<not> own name p then res = Inl PartitionNotLocal \<and> topics_ok own C st'
    else if encodable (stamped off key val ts now_ns) then res = Inr (p, off)
      \<and> topics_ok own (put_contents name p (fst (C name p), snd (C name p) @ [stamped off key val ts now_ns]) C) st'
    else (\<exists>e \<in> {ValueError, StructError}. encode (stamped off key val ts now_ns) = Inl e \<and> res = Inl e) \<and> topics_ok own C st'"
proof -
  obtain ot tp rt nxt where
    t: "the_topic own name tick st = (Inr ot, (tp, rt))" "ot_partitions ot = n"
    and a: "(case check_partition ot p of Inl e \<Rightarrow> (Inl e, (tp\<lparr>tp_next := nxt\<rparr>, rt))
      | Inr e \<Rightarrow> append_entry name p e key val ts now_ns tick (tp\<lparr>tp_next := nxt\<rparr>, rt)) = (res, st')"
    by (rule topic_append_existing [OF ok name meta n app, folded p])
  from the_topic_ok [OF ok t(1)] have o: "topics_ok own C (tp\<lparr>tp_next := nxt\<rparr>, rt)"
    "map_of (tp_open tp) name = Some ot" by auto
  from o(1) have "topics_ok own C (tp, rt)" by simp
  note keys = local_keys [OF topics_okD(4) [OF this o(2)], of p, unfolded t(2)]
  show ?thesis
  proof (cases "0 \<le> p \<and> p < n \<and> own name p")
    case False
    then have "map_of (ot_local ot) p = None" using keys by auto
    with a False o(1) t(2) show ?thesis by (auto simp: check_partition_def split: if_split_asm)
  next
    case True
    then obtain e where e: "map_of (ot_local ot) p = Some e" using keys by blast
    then have "append_entry name p e key val ts now_ns tick (tp\<lparr>tp_next := nxt\<rparr>, rt) = (res, st')"
      using a True t(2) by (simp add: check_partition_def)
    moreover have "open_entry (tp\<lparr>tp_next := nxt\<rparr>, rt) name p = Some e"
      using o(2) e by (simp add: open_entry_def)
    ultimately have A: "case res of
      Inl err \<Rightarrow> topics_ok own C st' \<and> encode (stamped off key val ts now_ns) = Inl err
    | Inr (q, off') \<Rightarrow> q = p \<and> off' = off \<and> encodable (stamped off key val ts now_ns)
        \<and> topics_ok own (put_contents name p (fst (C name p), snd (C name p) @ [stamped off key val ts now_ns]) C) st'"
      using append_entry_ok [OF o(1), of name p e key val ts now_ns tick res st'] unfolding off
      by (cases res) (simp_all add: case_prod_beta)
    show ?thesis
    proof (cases res)
      case (Inl err)
      then have "encode (stamped off key val ts now_ns) = Inl err" using A by simp
      moreover from encode_refusal [OF this] have "err \<in> {ValueError, StructError}" "\<not> encodable (stamped off key val ts now_ns)"
        by simp_all
      ultimately show ?thesis using Inl A True by simp
    next
      case (Inr po)
      then have "po = (p, off)" using A by (cases po) simp
      with A True Inr show ?thesis by simp
    qed
  qed
qed

lemma topic_append_keeps_meta:
  assumes ok: "topics_ok own C st" and name: "is_valid_name name"
    and meta: "metas (snd st) name = Some (Inr n)" and n: "1 \<le> n"
    and app: "topic_append own name key val ts part now_ns tick st = (res, st')"
  shows "metas (snd st') = metas (snd st)"
proof -
  obtain ot tp rt nxt where
    t: "the_topic own name tick st = (Inr ot, (tp, rt))"
    and a: "(case check_partition ot (destination (fst st) n key part) of Inl e \<Rightarrow> (Inl e, (tp\<lparr>tp_next := nxt\<rparr>, rt))
      | Inr e \<Rightarrow> append_entry name (destination (fst st) n key part) e key val ts now_ns tick
          (tp\<lparr>tp_next := nxt\<rparr>, rt)) = (res, st')"
    by (rule topic_append_existing [OF ok name meta n app])
  have "metas (snd st') = metas rt"
  proof (cases "check_partition ot (destination (fst st) n key part)")
    case (Inl e)
    with a show ?thesis by auto
  next
    case (Inr e)
    with a have "snd st' = snd (snd (append_entry name (destination (fst st) n key part) e key val ts now_ns tick
          (tp\<lparr>tp_next := nxt\<rparr>, rt)))" by simp
    then show ?thesis by (simp add: append_entry_meta)
  qed
  with the_topic_ok [OF ok t] show ?thesis by simp
qed

lemma topic_append_opens:
  assumes ok: "topics_ok own C st" and name: "is_valid_name name"
    and meta: "metas (snd st) name = Some (Inr n)" and n: "1 \<le> n"
    and app: "topic_append own name key val ts part now_ns tick st = (Inr (p, off), st')"
  shows "open_entry st' name p \<noteq> None"
proof -
  let ?q = "destination (fst st) n key part"
  obtain ot tp rt nxt where
    t: "the_topic own name tick st = (Inr ot, (tp, rt))"
    and a: "(case check_partition ot ?q of Inl e \<Rightarrow> (Inl e, (tp\<lparr>tp_next := nxt\<rparr>, rt))
      | Inr e \<Rightarrow> append_entry name ?q e key val ts now_ns tick (tp\<lparr>tp_next := nxt\<rparr>, rt)) = (Inr (p, off), st')"
    by (rule topic_append_existing [OF ok name meta n app])
  from the_topic_ok [OF ok t] have o: "topics_ok own C (tp\<lparr>tp_next := nxt\<rparr>, rt)" "map_of (tp_open tp) name = Some ot"
    by simp_all
  obtain e where e: "check_partition ot ?q = Inr e" using a by (cases "check_partition ot ?q") auto
  then have "open_entry (tp\<lparr>tp_next := nxt\<rparr>, rt) name ?q = Some e"
    using o(2) by (simp add: open_entry_def check_partition_ok)
  from append_entry_ok [OF o(1) this, of key val ts now_ns tick "Inr (p, off)" st'] a e show ?thesis by auto
qed

section \<open>Syncing\<close>

text \<open>Every record of an open partition is safe from a power cut.\<close>

definition entry_durable :: "offset \<times> log_record list \<Rightarrow> part_entry \<Rightarrow> dir \<Rightarrow> bool" where
  "entry_durable c e d \<longleftrightarrow>
     log_kept (lg_max (pe_log e)) (fst c + int (length (snd c))) (pe_log e, d) (fst c) (snd c)"

lemma entry_sync_ok:
  assumes e: "entry_ok c e d" and h: "healthy d"
  shows "\<exists>lg d'. log_sync (pe_log e) d = (Inr (), lg, d') \<and> on_disk c d'
    \<and> entry_ok c (mark_synced tick (e\<lparr>pe_log := lg\<rparr>)) d'
    \<and> entry_durable c (mark_synced tick (e\<lparr>pe_log := lg\<rparr>)) d'"
proof -
  obtain qs q where l: "log_ok (pe_log e) qs q d" "live (pe_log e)" "log_base (pe_log e) = fst c"
    "concat qs @ q = snd c" using e by (auto simp: entry_ok_def log_holds_def)
  obtain lg d' where s: "log_sync (pe_log e) d = (Inr (), lg, d')" and h': "healthy d'"
    using log_sync_healthy [OF l(1,2) h] by blast
  note y = log_sync_ok [OF l(1) s]
  have nxt: "log_next lg = fst c + int (length (snd c))"
    using log_ok_records(2) [OF y(1)] y(2) l(3,4) by auto
  have "log_kept (lg_max lg) (log_next lg) (lg, d') (fst c) (snd c)"
    unfolding log_kept_def using y l h' by (intro exI [where x = qs] exI [where x = q]) auto
  moreover from on_disk_of_log [OF y(1) h'] have "on_disk c d'" using y(2) l(3,4) by simp
  ultimately show ?thesis using s e log_kept_holds
    by (auto simp: entry_ok_def entry_durable_def nxt mark_synced_def)
qed

lemma open_entry_put:
  assumes "open_entry st name p = Some e0"
  shows "open_entry (put_entry name p e d st) n q = (if n = name \<and> q = p then Some e else open_entry st n q)"
    "part_dir n q (snd (put_entry name p e d st)) = (if n = name \<and> q = p then d else part_dir n q (snd st))"
proof -
  obtain tp rt where st: "st = (tp, rt)" by (cases st)
  obtain ot where ot: "map_of (tp_open tp) name = Some ot" "map_of (ot_local ot) p = Some e0"
    using assms by (auto simp: st open_entry_iff)
  then show "open_entry (put_entry name p e d st) n q = (if n = name \<and> q = p then Some e else open_entry st n q)"
    by (auto simp: st put_entry_def open_entry_def)
  show "part_dir n q (snd (put_entry name p e d st)) = (if n = name \<and> q = p then d else part_dir n q (snd st))"
    using ot by (intro put_entry_part_dir) (simp add: st)
qed

lemma sync_entries_ok:
  assumes "topics_ok own C st" "distinct (map (\<lambda>(n, p, e). (n, p)) es)"
    and "\<forall>(n, p, e) \<in> set es. open_entry st n p = Some e"
    and "\<forall>n p e. open_entry st n p = Some e \<and> (n, p) \<notin> (\<lambda>(n, p, e). (n, p)) ` set es
      \<longrightarrow> entry_durable (C n p) e (part_dir n p (snd st))"
  shows "\<exists>st'. sync_entries tick es st = (Inr (), st') \<and> topics_ok own C st' \<and> metas (snd st') = metas (snd st)
    \<and> (\<forall>n p. open_entry st' n p = None \<longleftrightarrow> open_entry st n p = None)
    \<and> (\<forall>n p e. open_entry st' n p = Some e \<longrightarrow> entry_durable (C n p) e (part_dir n p (snd st')))"
  using assms
proof (induction es arbitrary: st)
  case (Cons x es)
  obtain name p e where x: "x = (name, p, e)" by (metis prod_cases3)
  obtain tp rt where st: "st = (tp, rt)" by (cases st)
  have opn: "open_entry st name p = Some e" using Cons.prems(3) by (simp add: x)
  then obtain ot where ot: "map_of (tp_open tp) name = Some ot" "map_of (ot_local ot) p = Some e"
    by (auto simp: st open_entry_iff)
  note D = topics_okD [OF Cons.prems(1) [unfolded st]]
  have e: "entry_ok (C name p) e (part_dir name p rt)" "healthy (part_dir name p rt)"
    using D(4) [OF ot(1)] ot(2) D(3) [of name p] by (auto simp: open_ok_def on_disk_def)
  from entry_sync_ok [OF this, of tick] obtain lg d where
    s: "log_sync (pe_log e) (part_dir name p rt) = (Inr (), lg, d)" "on_disk (C name p) d"
      "entry_ok (C name p) (mark_synced tick (e\<lparr>pe_log := lg\<rparr>)) d"
      "entry_durable (C name p) (mark_synced tick (e\<lparr>pe_log := lg\<rparr>)) d" by blast
  let ?e = "mark_synced tick (e\<lparr>pe_log := lg\<rparr>)"
  let ?st = "put_entry name p ?e d st"
  from put_entry_ok [OF Cons.prems(1) opn s(3,2)] have ok: "topics_ok own C ?st" by simp
  note P = open_entry_put [OF opn, where e = ?e and d = d]
  have keys: "(name, p) \<notin> (\<lambda>(n, p, e). (n, p)) ` set es" using Cons.prems(2) by (auto simp: x)
  have "\<forall>(n, q, f) \<in> set es. open_entry ?st n q = Some f"
    using Cons.prems(3) keys by (force simp: P)
  moreover have "\<forall>n q f. open_entry ?st n q = Some f \<and> (n, q) \<notin> (\<lambda>(n, p, e). (n, p)) ` set es
      \<longrightarrow> entry_durable (C n q) f (part_dir n q (snd ?st))"
    using Cons.prems(4) s(4) by (auto simp: P x)
  moreover have "distinct (map (\<lambda>(n, p, e). (n, p)) es)" using Cons.prems(2) by simp
  ultimately obtain st' where "sync_entries tick es ?st = (Inr (), st')" "topics_ok own C st'"
    "metas (snd st') = metas (snd ?st)" "\<forall>n p. open_entry st' n p = None \<longleftrightarrow> open_entry ?st n p = None"
    "\<forall>n p e. open_entry st' n p = Some e \<longrightarrow> entry_durable (C n p) e (part_dir n p (snd st'))"
    using Cons.IH [OF ok] by blast
  moreover have "open_entry ?st n q = None \<longleftrightarrow> open_entry st n q = None" for n q by (simp add: P opn)
  ultimately show ?case using s(1) by (auto simp: x st)
qed simp

lemma every_partition_open:
  assumes ok: "topics_ok own C st"
  shows "(n, p, e) \<in> set (every_partition (fst st)) \<longleftrightarrow> open_entry st n p = Some e"
proof -
  obtain tp rt where st: "st = (tp, rt)" by (cases st)
  note D = topics_okD [OF ok [unfolded st]]
  have loc: "distinct (map fst (ot_local ot))" if "map_of (tp_open tp) n = Some ot" for ot
    using D(4) [OF that] by (simp add: open_ok_def)
  have "(n, p, e) \<in> set (every_partition tp) \<longleftrightarrow> (\<exists>ot. (n, ot) \<in> set (tp_open tp) \<and> (p, e) \<in> set (ot_local ot))"
    by (force simp: every_partition_def)
  also have "\<dots> \<longleftrightarrow> (\<exists>ot. map_of (tp_open tp) n = Some ot \<and> map_of (ot_local ot) p = Some e)"
    using D(5) loc by (metis map_of_eq_Some_iff)
  finally show ?thesis by (simp add: st open_entry_iff)
qed

lemma topics_sync_ok:
  assumes ok: "topics_ok own C st"
  shows "\<exists>st'. topics_sync tick st = (Inr (), st') \<and> topics_ok own C st' \<and> metas (snd st') = metas (snd st)
    \<and> (\<forall>n p. open_entry st' n p = None \<longleftrightarrow> open_entry st n p = None)
    \<and> (\<forall>n p e. open_entry st' n p = Some e \<longrightarrow> entry_durable (C n p) e (part_dir n p (snd st')))"
  unfolding topics_sync_def
proof (rule sync_entries_ok [OF ok])
  show "distinct (map (\<lambda>(n, p, e). (n, p)) (every_partition (fst st)))"
    using every_partition_closable [OF ok] by (simp add: closable_def)
  show "\<forall>(n, p, e) \<in> set (every_partition (fst st)). open_entry st n p = Some e"
    using every_partition_open [OF ok] by blast
  show "\<forall>n p e. open_entry st n p = Some e \<and> (n, p) \<notin> (\<lambda>(n, p, e). (n, p)) ` set (every_partition (fst st))
      \<longrightarrow> entry_durable (C n p) e (part_dir n p (snd st))"
    using every_partition_open [OF ok] by (force simp: image_iff)
qed

text \<open>What is durable is there after a power cut.\<close>

lemma kept_power_cut:
  assumes "log_kept (lg_max lg) (b + int (length rs)) (lg, d) b rs" "power_cut d d'" "0 < mx" "mx \<le> MAX_U32 + 1"
  shows "\<exists>lg' d''. log_open mx d' = (Inr lg', d'') \<and> log_holds (lg', d'') b rs"
proof -
  from assms(1) obtain qs p where k: "log_ok lg qs p d" "log_base lg = b" "concat qs @ p = rs" "healthy d"
    "durable lg p d (b + int (length rs))" by (auto simp: log_kept_def)
  from log_power_cut [OF k(1,5) assms(2) k(4) assms(3,4)] obtain lg' d'' m where
    l: "log_open mx d' = (Inr lg', d'')" "log_ok lg' qs (take m p) d''" "live lg'" "log_base lg' = b"
      "b + int (length rs) \<le> b + int (length (concat qs @ take m p))" using k(2) by metis
  have "take m p = p" using l(5) k(3) by (auto simp: min_def split: if_split_asm)
  then show ?thesis using l k(3) by (auto simp: log_holds_def)
qed

section \<open>A new instance over a data root\<close>

lemma fresh_topics_ok:
  assumes "topics_init k pol mx = Inr tp" "0 < mx" "mx \<le> MAX_U32 + 1" "\<forall>n p. on_disk (C n p) (part_dir n p rt)"
  shows "topics_ok own C (tp, rt)" "tp_policy tp = pol" "tp_default tp = k" "tp_next tp = 0"
  using assms by (auto simp: topics_init_def topics_ok_def partitioner_init_def split: if_split_asm)

lemma topics_ok_on_disk: "topics_ok own C st \<Longrightarrow> on_disk (C n p) (part_dir n p (snd st))"
  by (auto simp: topics_ok_def)

lemma topic_create_ok:
  assumes ok: "topics_ok own C st" and name: "is_valid_name name" and not_file: "map_of (snd st) name \<noteq> Some Plain_File"
    and meta: "\<And>e. metas (snd st) name \<noteq> Some (Inl e)"
    and m: "m = (case metas (snd st) name of Some (Inr n) \<Rightarrow> n
        | _ \<Rightarrow> (case partitions of Some k \<Rightarrow> if k = 0 then tp_default (fst st) else k | None \<Rightarrow> tp_default (fst st)))"
  shows "\<exists>st'. topic_create own name partitions tick st = (Inr m, st') \<and> topics_ok own C st'
    \<and> metas (snd st') = (metas (snd st))(name := Some (Inr m)) \<and> tp_policy (fst st') = tp_policy (fst st)
    \<and> tp_next (fst st') = tp_next (fst st)"
proof -
  obtain tp rt where st: "st = (tp, rt)" by (cases st)
  have val: "validate_name name = Inr ()" using name by (simp add: valid_name_iff)
  show ?thesis
  proof (cases "map_of (tp_open tp) name")
    case (Some ot)
    with topics_okD(4) [OF ok [unfolded st], of name ot] have "metas rt name = Some (Inr (ot_partitions ot))"
      by (simp add: open_ok_def)
    then show ?thesis using Some ok m val by (auto simp: st topic_create_def fun_upd_idem_iff)
  next
    case None
    obtain me where me: "read_meta name rt = Inr me" "me = (case metas rt name of Some (Inr n) \<Rightarrow> Some n | _ \<Rightarrow> None)"
      using meta by (auto simp: st read_meta_metas split: option.splits sum.splits)
    have "open_count tp me partitions = m"
      using m meta by (auto simp: open_count_def me(2) st split: option.splits sum.splits)
    moreover have "map_of rt name \<noteq> Some Plain_File" using not_file by (simp add: st)
    ultimately show ?thesis using open_locked_ok [OF ok [unfolded st] name me(1), of partitions tick] None val
      by (auto simp: st topic_create_def)
  qed
qed

section \<open>Every outcome of a read\<close>

lemma topic_read_decides:
  assumes ok: "topics_ok own C st" and rd: "topic_read_from own name off p tick st = (res, st')"
  shows "topics_ok own C st' \<and> metas (snd st') = metas (snd st)
    \<and> res = (if \<not> is_valid_name name then Inl ValueError
       else (case metas (snd st) name of
           None \<Rightarrow> Inl UnknownTopic
         | Some (Inl e) \<Rightarrow> Inl e
         | Some (Inr n) \<Rightarrow>
             if \<not> (0 \<le> p \<and> p < n) then Inl ValueError
             else if \<not> own name p then Inl PartitionNotLocal
             else if off < fst (C name p) then Inl OffsetOutOfRange
             else Inr (drop (nat (off - fst (C name p))) (snd (C name p)), None)))"
proof (cases "\<exists>n. is_valid_name name \<and> metas (snd st) name = Some (Inr n)")
  case False
  with rd ok the_topic_refused [OF ok False] show ?thesis
    by (auto simp: topic_read_from_def topic_get_def topic_error_def split: option.splits sum.splits)
next
  case True
  then obtain n where n: "is_valid_name name" "metas (snd st) name = Some (Inr n)" by blast
  from the_topic_found [OF ok n] obtain ot tp rt where
    t: "the_topic own name tick st = (Inr ot, (tp, rt))" "ot_partitions ot = n" by (metis prod.collapse)
  from the_topic_ok [OF ok t(1)] have o: "topics_ok own C (tp, rt)" "map_of (tp_open tp) name = Some ot"
    "metas rt = metas (snd st)" by auto
  note O = topics_okD(4) [OF o(1,2)]
  note keys = local_keys [OF O, of p, unfolded t(2)]
  have st': "st' = (tp, rt)" using rd t(1) by (simp add: topic_read_from_def topic_get_def)
  have res: "res = bind_result (check_partition ot p) (\<lambda>e. log_read_from (pe_log e) off (part_dir name p rt))"
    using rd t(1) by (cases "check_partition ot p") (auto simp: topic_read_from_def topic_get_def)
  show ?thesis
  proof (cases "0 \<le> p \<and> p < n \<and> own name p")
    case False
    then have "map_of (ot_local ot) p = None" using keys by auto
    with False t(2) n o st' res show ?thesis by (auto simp: check_partition_def)
  next
    case here: True
    then obtain e where e: "map_of (ot_local ot) p = Some e" using keys by blast
    then have h: "log_holds (pe_log e, part_dir name p rt) (fst (C name p)) (snd (C name p))"
      using O by (auto simp: open_ok_def entry_ok_def)
    then obtain qs q where l: "log_ok (pe_log e) qs q (part_dir name p rt)" "log_base (pe_log e) = fst (C name p)"
      by (auto simp: log_holds_def)
    have "log_read_from (pe_log e) off (part_dir name p rt) = (if off < fst (C name p) then Inl OffsetOutOfRange
        else Inr (drop (nat (off - fst (C name p))) (snd (C name p)), None))"
      using fetch_holds [OF h, of off] log_read_below [of off "pe_log e" "part_dir name p rt"] l
      by (auto simp: fetch_def)
    moreover have "check_partition ot p = Inr e" using e here t(2) by (simp add: check_partition_def)
    ultimately show ?thesis using res st' o n here by simp
  qed
qed

lemma foreign_numbers_exact:
  assumes "\<forall>n \<in> set ns. py_isdigit n \<longrightarrow> (\<exists>p \<ge> 0. n = int_text p)"
  shows "\<exists>ps. foreign_numbers own ns = Inr ps \<and> set ps = {p. 0 \<le> p \<and> int_text p \<in> set ns \<and> \<not> own p}
    \<and> (distinct ns \<longrightarrow> distinct ps)"
  using assms
proof (induction ns)
  case (Cons n ns)
  then obtain ps where ps: "foreign_numbers own ns = Inr ps"
    "set ps = {p. 0 \<le> p \<and> int_text p \<in> set ns \<and> \<not> own p}" "distinct ns \<longrightarrow> distinct ps" by auto
  show ?case
  proof (cases "py_isdigit n")
    case False
    then have "0 \<le> p \<Longrightarrow> int_text p \<noteq> n" for p by (auto simp: py_isdigit_int_text)
    with False ps show ?thesis by auto
  next
    case True
    then obtain p where p: "0 \<le> p" "n = int_text p" using Cons.prems by auto
    have "int_text q = n \<longleftrightarrow> q = p" for q using p by (simp add: int_text_inj)
    with True ps p show ?thesis by auto
  qed
qed simp

section \<open>Properties\<close>

text \<open>
  Property C31. A name cannot leave the data root: an accepted one has no slash and no NUL, is not
  empty, \<open>.\<close> or \<open>..\<close>, and at most 200 characters long; with any other, every operation that takes a
  name raises \<open>ValueError\<close> and changes nothing.
\<close>

theorem names_confined:
  "(is_valid_name name \<longrightarrow> CHR ''/'' \<notin> set name \<and> CHR 0x00 \<notin> set name \<and> name \<notin> {[], ''.'', ''..''}
      \<and> length name \<le> 200)
   \<and> (\<not> is_valid_name name \<longrightarrow>
      topic_exists name (snd st) = Inl ValueError
    \<and> topic_create own name partitions tick st = (Inl ValueError, st)
    \<and> topic_route own name key tick st = (Inl ValueError, st)
    \<and> topic_get own name p tick st = (Inl ValueError, st)
    \<and> topic_append own name key val ts part now_ns tick st = (Inl ValueError, st)
    \<and> topic_read_from own name off p tick st = (Inl ValueError, st))"
proof (intro conjI impI)
  assume "\<not> is_valid_name name"
  then have val: "validate_name name = Inl ValueError"
    by (auto simp: is_valid_name_def validate_name_def split: if_split_asm)
  then show "topic_exists name (snd st) = Inl ValueError"
    "topic_create own name partitions tick st = (Inl ValueError, st)"
    "topic_route own name key tick st = (Inl ValueError, st)"
    "topic_get own name p tick st = (Inl ValueError, st)"
    "topic_append own name key val ts part now_ns tick st = (Inl ValueError, st)"
    "topic_read_from own name off p tick st = (Inl ValueError, st)"
    by (simp_all add: topic_exists_def topic_create_def topic_route_def topic_get_def topic_append_def
        topic_read_from_def the_topic_def)
qed (auto simp: is_valid_name_def validate_name_def allowed_char_def MAX_NAME_LENGTH_def Let_def
    split: if_split_asm)

text \<open>
  Property C7. What an append to a topic of \<open>n\<close> partitions does, whatever the request: the record goes
  to the partition named, or the key's, or the next in turn; out of range is \<open>ValueError\<close>, someone
  else's is \<open>PartitionNotLocal\<close>; otherwise, if the format can hold it, it is acknowledged with that
  partition and its next offset, and then every partition of every topic holds what it held and this
  one the record more. An append that raises leaves every record as it was.
\<close>

theorem append_decided:
  assumes "topics_ok own C st" and "is_valid_name name" and "metas (snd st) name = Some (Inr n)" and "1 \<le> n"
    and "topic_append own name key val ts part now_ns tick st = (res, st')"
    and "p = destination (fst st) n key part" and "off = fst (C name p) + int (length (snd (C name p)))"
  shows "if \<not> (0 \<le> p \<and> p < n) then res = Inl ValueError \<and> topics_ok own C st'
    else if \<not> own name p then res = Inl PartitionNotLocal \<and> topics_ok own C st'
    else if encodable (stamped off key val ts now_ns) then res = Inr (p, off)
      \<and> topics_ok own (put_contents name p (fst (C name p), snd (C name p) @ [stamped off key val ts now_ns]) C) st'
    else (\<exists>e \<in> {ValueError, StructError}. encode (stamped off key val ts now_ns) = Inl e \<and> res = Inl e) \<and> topics_ok own C st'"
  by (rule topic_append_decides [OF assms])


text \<open>
  Nothing is lost in a restart: closing succeeds, and a new instance over the same root,
  with any defaults, segment size, policy and share of the partitions, reads from every partition it
  owns exactly the records from the offset asked for, of a topic it may not have opened before.
\<close>

theorem restart_keeps_topics:
  assumes "topics_ok own C st" and "topics_close st = (res, st1)"
    and "topics_init k pol mx = Inr tp" and "0 < mx" and "mx \<le> MAX_U32 + 1"
    and "is_valid_name name" and "metas (snd st) name = Some (Inr n)"
    and "0 \<le> p" and "p < n" and "own' name p" and "fst (C name p) \<le> off"
  shows "res = Inr () \<and> topic_exists name (snd st1) = Inr True
    \<and> fst (topic_read_from own' name off p tick (tp, snd st1))
      = Inr (drop (nat (off - fst (C name p))) (snd (C name p)), None)"
proof -
  from topics_close_ok [OF assms(1,2), of own'] have
    c: "res = Inr ()" "topics_ok own' C st1" "metas (snd st1) name = Some (Inr n)" using assms(7) by auto
  have "\<forall>n p. on_disk (C n p) (part_dir n p (snd st1))" using topics_ok_on_disk [OF c(2)] by blast
  from fresh_topics_ok(1) [OF assms(3-5) this] have "topics_ok own' C (tp, snd st1)" .
  from topic_read_ok [OF this assms(6) _ assms(8-11), of tick] c assms(6) show ?thesis
    by (auto simp: topic_exists_def valid_name_iff meta_is_file_metas)
qed

text \<open>
  Property C30. The number of partitions of a topic is decided once: \<open>create\<close> on a topic that exists
  answers its number whatever number is asked for, and on a new one the number asked for (the default
  for none); every later \<open>create\<close>, of this or another instance over the same metadata, answers the
  same. No record is touched.
\<close>

theorem create_never_repartitions:
  assumes "topics_ok own C st" and "is_valid_name name" and "map_of (snd st) name \<noteq> Some Plain_File"
    and "\<And>e. metas (snd st) name \<noteq> Some (Inl e)" and "topic_create own name k tick st = (res, st1)"
    and "topics_ok own' C' st2" and "metas (snd st2) name = metas (snd st1) name"
    and "topic_create own' name k' tick' st2 = (res', st3)"
  shows "topics_ok own C st1 \<and> topics_ok own' C' st3 \<and> (\<exists>m. res = Inr m \<and> res' = Inr m
    \<and> m = (case metas (snd st) name of Some (Inr n) \<Rightarrow> n
        | _ \<Rightarrow> (case k of Some j \<Rightarrow> if j = 0 then tp_default (fst st) else j | None \<Rightarrow> tp_default (fst st))))"
proof -
  define m where "m = (case metas (snd st) name of Some (Inr n) \<Rightarrow> n
        | _ \<Rightarrow> (case k of Some j \<Rightarrow> if j = 0 then tp_default (fst st) else j | None \<Rightarrow> tp_default (fst st)))"
  from topic_create_ok [OF assms(1-4) m_def, of tick] assms(5) have
    1: "res = Inr m" "topics_ok own C st1" and upd: "metas (snd st1) = (metas (snd st))(name := Some (Inr m))" by auto
  have 3: "metas (snd st1) name = Some (Inr m)" using fun_cong [OF upd, of name] by simp
  have 2: "map_of (snd st2) name \<noteq> Some Plain_File" "\<And>e. metas (snd st2) name \<noteq> Some (Inl e)"
    using 3 assms(7) by (auto dest: metas_dir)
  have "m = (case metas (snd st2) name of Some (Inr n) \<Rightarrow> n
        | _ \<Rightarrow> (case k' of Some j \<Rightarrow> if j = 0 then tp_default (fst st2) else j | None \<Rightarrow> tp_default (fst st2)))"
    using 3 assms(7) by simp
  from topic_create_ok [OF assms(6,2) 2 this, of tick'] assms(8) have
    "res' = Inr m" "topics_ok own' C' st3" by auto
  with 1 show ?thesis by (simp add: m_def)
qed

text \<open>
  Property C15. What a read answers, in every case: a bad name or a number out of range is
  \<open>ValueError\<close>, a topic that is not there \<open>UnknownTopic\<close>, a partition of someone else
  \<open>PartitionNotLocal\<close>, an offset before the log \<open>OffsetOutOfRange\<close>, and otherwise exactly the records
  from the offset on. A read creates no topic and changes no record.
\<close>

theorem read_decided:
  assumes "topics_ok own C st" and "topic_read_from own name off p tick st = (res, st')"
  shows "topics_ok own C st' \<and> metas (snd st') = metas (snd st)
    \<and> res = (if \<not> is_valid_name name then Inl ValueError
       else (case metas (snd st) name of
           None \<Rightarrow> Inl UnknownTopic
         | Some (Inl e) \<Rightarrow> Inl e
         | Some (Inr n) \<Rightarrow>
             if \<not> (0 \<le> p \<and> p < n) then Inl ValueError
             else if \<not> own name p then Inl PartitionNotLocal
             else if off < fst (C name p) then Inl OffsetOutOfRange
             else Inr (drop (nat (off - fst (C name p))) (snd (C name p)), None)))"
  by (rule topic_read_decides [OF assms])

text \<open>
  \<open>sync\<close> makes everything that is open safe: it succeeds on devices that work, and
  whatever a power cut then leaves of the files of an open partition opens as a log of all its records.
\<close>

theorem sync_makes_durable:
  assumes "topics_ok own C st" and "topics_sync tick st = (res, st')" and "open_entry st name p \<noteq> None"
    and "power_cut (part_dir name p (snd st')) d" and "0 < mx" and "mx \<le> MAX_U32 + 1"
  shows "res = Inr () \<and> topics_ok own C st' \<and> (\<exists>lg d'. log_open mx d = (Inr lg, d')
    \<and> log_read_from lg (fst (C name p)) d' = Inr (snd (C name p), None))"
proof -
  from topics_sync_ok [OF assms(1), of tick] assms(2) have
    s0: "res = Inr ()" "topics_ok own C st'" "open_entry st' name p = None \<longleftrightarrow> open_entry st name p = None"
      "\<And>e. open_entry st' name p = Some e \<Longrightarrow> entry_durable (C name p) e (part_dir name p (snd st'))"
    by simp_all
  obtain e where "open_entry st' name p = Some e" using s0(3) assms(3) by blast
  note s = s0(1,2) s0(4) [OF this]
  from kept_power_cut [OF s(3) [unfolded entry_durable_def] assms(4-6)] obtain lg d' where
    "log_open mx d = (Inr lg, d')" and h: "log_holds (lg, d') (fst (C name p)) (snd (C name p))" by blast
  with fetch_holds [OF h, of "fst (C name p)"] s show ?thesis by (simp add: fetch_def)
qed

text \<open>
  \<open>foreign_partitions\<close> lists, in order, exactly the partition directories this instance
  does not own, provided the directories whose names are digits are named as partitions are.
\<close>

theorem foreign_partitions_exact:
  assumes "map_of rt name = Some (Topic_Dir t)" and "distinct (map fst (td_dirs t))"
    and "\<forall>n \<in> fst ` set (td_dirs t). py_isdigit n \<longrightarrow> (\<exists>p \<ge> 0. n = int_text p)"
  shows "\<exists>ps. foreign_partitions own name rt = Inr ps \<and> sorted ps \<and> distinct ps
    \<and> set ps = {p. 0 \<le> p \<and> int_text p \<in> fst ` set (td_dirs t) \<and> \<not> own name p}"
proof -
  have "\<forall>n \<in> set (map fst (td_dirs t)). py_isdigit n \<longrightarrow> (\<exists>p \<ge> 0. n = int_text p)" using assms(3) by simp
  from foreign_numbers_exact [OF this, of "own name"] obtain ps where
    "foreign_numbers (own name) (map fst (td_dirs t)) = Inr ps"
    "set ps = {p. 0 \<le> p \<and> int_text p \<in> set (map fst (td_dirs t)) \<and> \<not> own name p}"
    "distinct (map fst (td_dirs t)) \<longrightarrow> distinct ps" by blast
  then show ?thesis using assms(1,2) by (simp add: foreign_partitions_def)
qed

section \<open>A concrete store\<close>

text \<open>A topic \<open>a\<close> of two partitions in an empty root, both owned.\<close>

definition all_mine :: "string \<Rightarrow> int \<Rightarrow> bool" where
  "all_mine name p = True"

definition empty_contents :: contents where
  "empty_contents name p = (0, [])"

abbreviation sample_topics :: topics where
  "sample_topics \<equiv> \<lparr>tp_default = 1, tp_policy = SYNC_EVERY_RECORD, tp_max = 1024, tp_next = 0, tp_open = []\<rparr>"

lemma sample_init: "topics_init 1 SYNC_EVERY_RECORD 1024 = Inr sample_topics"
  by (simp add: topics_init_def partitioner_init_def)

lemma empty_root: "topics_ok all_mine empty_contents (sample_topics, [])"
  by (rule fresh_topics_ok(1) [OF sample_init])
    (simp_all add: MAX_U32_def on_disk_def healthy_def empty_contents_def part_dir_def topic_at_def no_topic_def)

lemma name_a [simp]: "is_valid_name ''a''"
  by (simp add: is_valid_name_def validate_name_def MAX_NAME_LENGTH_def allowed_char_def Let_def)

lemma sample_create:
  obtains st where "topic_create all_mine ''a'' (Some 2) 0 (sample_topics, []) = (Inr 2, st)"
    "topics_ok all_mine empty_contents st" "metas (snd st) ''a'' = Some (Inr 2)"
    "tp_policy (fst st) = SYNC_EVERY_RECORD" "tp_next (fst st) = 0"
proof -
  have "map_of (snd (sample_topics, [])) ''a'' \<noteq> Some Plain_File" "\<And>e. metas (snd (sample_topics, [])) ''a'' \<noteq> Some (Inl e)"
    "2 = (case metas (snd (sample_topics, [])) ''a'' of Some (Inr n) \<Rightarrow> n
        | _ \<Rightarrow> (case Some 2 of Some k \<Rightarrow> if k = 0 then tp_default (fst (sample_topics, [])) else k
               | None \<Rightarrow> tp_default (fst (sample_topics, []))))"
    by (simp_all add: topic_at_def no_topic_def)
  from topic_create_ok [OF empty_root name_a this, of 0]
  obtain st where st: "topic_create all_mine ''a'' (Some 2) 0 (sample_topics, []) = (Inr 2, st)"
    "topics_ok all_mine empty_contents st" "metas (snd st) = (metas [])(''a'' := Some (Inr 2))"
    "tp_policy (fst st) = SYNC_EVERY_RECORD" "tp_next (fst st) = 0" by auto
  from fun_cong [OF st(3), of "''a''"] have "metas (snd st) ''a'' = Some (Inr 2)" by simp
  with st show ?thesis by (intro that [of st])
qed

abbreviation sample_stamped :: log_record where
  "sample_stamped \<equiv> stamped 0 None (Some [97]) (Some 5) 0"

lemma sample_encodable: "encodable sample_stamped"
  using sample_fits [of 0] by (simp add: stamp_def sample_message_def in_i64_def)

lemma sample_append:
  obtains st st' where "topic_create all_mine ''a'' (Some 2) 0 (sample_topics, []) = (Inr 2, st)"
    "topics_ok all_mine empty_contents st" "metas (snd st) ''a'' = Some (Inr 2)" "tp_policy (fst st) = SYNC_EVERY_RECORD"
    "topic_append all_mine ''a'' None (Some [97]) (Some 5) None 0 0 st = (Inr (0, 0), st')"
    "topics_ok all_mine (put_contents ''a'' 0 (0, [sample_stamped]) empty_contents) st'"
    "metas (snd st') ''a'' = Some (Inr 2)"
proof -
  obtain st where st: "topic_create all_mine ''a'' (Some 2) 0 (sample_topics, []) = (Inr 2, st)"
    "topics_ok all_mine empty_contents st" "metas (snd st) ''a'' = Some (Inr 2)"
    "tp_policy (fst st) = SYNC_EVERY_RECORD" "tp_next (fst st) = 0" by (rule sample_create)
  obtain res st' where a: "topic_append all_mine ''a'' None (Some [97]) (Some 5) None 0 0 st = (res, st')"
    by (meson surj_pair)
  have "0 = destination (fst st) 2 None None" by (simp add: destination_def st(5))
  from topic_append_decides [OF st(2) name_a st(3) _ a this, of 0] sample_encodable
  have k: "res = Inr (0, 0)" "topics_ok all_mine (put_contents ''a'' 0 (0, [sample_stamped]) empty_contents) st'"
    by (simp_all add: all_mine_def empty_contents_def)
  moreover have "metas (snd st') ''a'' = Some (Inr 2)"
    using fun_cong [OF topic_append_keeps_meta [OF st(2) name_a st(3) _ a], of "''a''"] st(3) by simp
  ultimately show ?thesis using st a by (intro that) auto
qed

section \<open>Witnesses\<close>

theorem names_confined_witness:
  "CHR ''/'' \<notin> set ''a'' \<and> topic_create all_mine ''../x'' None 0 (sample_topics, []) = (Inl ValueError, (sample_topics, []))"
proof -
  have "\<not> is_valid_name ''../x''" by (simp add: is_valid_name_def validate_name_def allowed_char_def MAX_NAME_LENGTH_def)
  with names_confined [of "''../x''" "(sample_topics, [])" all_mine None 0 None 0 None None None 0 0]
    names_confined [of "''a''" "(sample_topics, [])" all_mine None 0 None 0 None None None 0 0]
  show ?thesis by simp
qed

theorem append_decided_witness:
  "\<exists>st st'. topic_create all_mine ''a'' (Some 2) 0 (sample_topics, []) = (Inr 2, st)
    \<and> topic_append all_mine ''a'' None (Some [97]) (Some 5) (Some 1) 0 0 st = (Inr (1, 0), st')
    \<and> topics_ok all_mine (put_contents ''a'' 1 (0, [sample_stamped]) empty_contents) st'"
proof -
  obtain st where st: "topic_create all_mine ''a'' (Some 2) 0 (sample_topics, []) = (Inr 2, st)"
    "topics_ok all_mine empty_contents st" "metas (snd st) ''a'' = Some (Inr 2)" by (rule sample_create)
  obtain res st' where a: "topic_append all_mine ''a'' None (Some [97]) (Some 5) (Some 1) 0 0 st = (res, st')"
    by (meson surj_pair)
  have "1 = destination (fst st) 2 None (Some 1)" by (simp add: destination_def)
  from append_decided [OF st(2) name_a st(3) _ a this, of 0] sample_encodable
  have "res = Inr (1, 0)" "topics_ok all_mine (put_contents ''a'' 1 (0, [sample_stamped]) empty_contents) st'"
    by (simp_all add: all_mine_def empty_contents_def)
  with st(1) a show ?thesis by blast
qed


theorem restart_keeps_topics_witness:
  "\<exists>st st' st1. topic_create all_mine ''a'' (Some 2) 0 (sample_topics, []) = (Inr 2, st)
    \<and> topic_append all_mine ''a'' None (Some [97]) (Some 5) None 0 0 st = (Inr (0, 0), st')
    \<and> topics_close st' = (Inr (), st1)
    \<and> fst (topic_read_from all_mine ''a'' 0 0 0 (sample_topics, snd st1)) = Inr ([sample_stamped], None)"
proof -
  obtain st st' where s: "topic_create all_mine ''a'' (Some 2) 0 (sample_topics, []) = (Inr 2, st)"
    "topics_ok all_mine empty_contents st" "metas (snd st) ''a'' = Some (Inr 2)"
    "topic_append all_mine ''a'' None (Some [97]) (Some 5) None 0 0 st = (Inr (0, 0), st')"
    "topics_ok all_mine (put_contents ''a'' 0 (0, [sample_stamped]) empty_contents) st'"
    "metas (snd st') ''a'' = Some (Inr 2)" by (rule sample_append)
  obtain res st1 where c: "topics_close st' = (res, st1)" by (meson surj_pair)
  from restart_keeps_topics [OF s(5) c sample_init _ _ name_a s(6), of 0 all_mine 0 0] have
    "res = Inr ()" "fst (topic_read_from all_mine ''a'' 0 0 0 (sample_topics, snd st1)) = Inr ([sample_stamped], None)"
    by (simp_all add: MAX_U32_def all_mine_def)
  with s(1,4) c show ?thesis by blast
qed

theorem create_never_repartitions_witness:
  "\<exists>st. topic_create all_mine ''a'' (Some 2) 0 (sample_topics, []) = (Inr 2, st)
    \<and> fst (topic_create all_mine ''a'' (Some 7) 0 st) = Inr 2"
proof -
  obtain st where st: "topic_create all_mine ''a'' (Some 2) 0 (sample_topics, []) = (Inr 2, st)"
    "topics_ok all_mine empty_contents st" by (rule sample_create)
  obtain res st3 where c: "topic_create all_mine ''a'' (Some 7) 0 st = (res, st3)" by (meson surj_pair)
  have "map_of (snd (sample_topics, [])) ''a'' \<noteq> Some Plain_File"
    "\<And>e. metas (snd (sample_topics, [])) ''a'' \<noteq> Some (Inl e)" by (simp_all add: topic_at_def no_topic_def)
  from create_never_repartitions [OF empty_root name_a this st(1,2) refl c] st(1) c show ?thesis by auto
qed

theorem read_decided_witness:
  "\<exists>st. topic_create all_mine ''a'' (Some 2) 0 (sample_topics, []) = (Inr 2, st)
    \<and> fst (topic_read_from all_mine ''a'' 0 1 0 st) = Inr ([], None)
    \<and> fst (topic_read_from all_mine ''a'' 0 2 0 st) = Inl ValueError"
proof -
  obtain st where st: "topic_create all_mine ''a'' (Some 2) 0 (sample_topics, []) = (Inr 2, st)"
    "topics_ok all_mine empty_contents st" "metas (snd st) ''a'' = Some (Inr 2)" by (rule sample_create)
  obtain res st1 where 1: "topic_read_from all_mine ''a'' 0 1 0 st = (res, st1)" by (meson surj_pair)
  obtain res' st2 where 2: "topic_read_from all_mine ''a'' 0 2 0 st = (res', st2)" by (meson surj_pair)
  from read_decided [OF st(2) 1] read_decided [OF st(2) 2] st 1 2 show ?thesis
    by (auto simp: all_mine_def empty_contents_def)
qed

theorem sync_makes_durable_witness:
  "\<exists>st st' st1 d lg d'. topic_create all_mine ''a'' (Some 2) 0 (sample_topics, []) = (Inr 2, st)
    \<and> topic_append all_mine ''a'' None (Some [97]) (Some 5) None 0 0 st = (Inr (0, 0), st')
    \<and> topics_sync 0 st' = (Inr (), st1) \<and> power_cut (part_dir ''a'' 0 (snd st1)) d
    \<and> log_open 64 d = (Inr lg, d') \<and> log_read_from lg 0 d' = Inr ([sample_stamped], None)"
proof -
  obtain st st' where s: "topic_create all_mine ''a'' (Some 2) 0 (sample_topics, []) = (Inr 2, st)"
    "topics_ok all_mine empty_contents st" "metas (snd st) ''a'' = Some (Inr 2)"
    "topic_append all_mine ''a'' None (Some [97]) (Some 5) None 0 0 st = (Inr (0, 0), st')"
    "topics_ok all_mine (put_contents ''a'' 0 (0, [sample_stamped]) empty_contents) st'"
    "metas (snd st') ''a'' = Some (Inr 2)" by (rule sample_append)
  have opn: "open_entry st' ''a'' 0 \<noteq> None" by (rule topic_append_opens [OF s(2) name_a s(3) _ s(4)]) simp
  obtain st1 where y: "topics_sync 0 st' = (Inr (), st1)"
    "topics_ok all_mine (put_contents ''a'' 0 (0, [sample_stamped]) empty_contents) st1"
    using topics_sync_ok [OF s(5), of 0] by blast
  from topics_ok_on_disk [OF y(2), of "''a''" 0] have "healthy (part_dir ''a'' 0 (snd st1))" by (simp add: on_disk_def)
  note cut = power_cut_exists [OF this]
  from sync_makes_durable [OF s(5) y(1) opn cut, of 64] have
    "\<exists>lg d'. log_open 64 (map (\<lambda>(q, f). (q, f\<lparr>fl_data := take (fl_synced f) (fl_data f)\<rparr>)) (part_dir ''a'' 0 (snd st1)))
      = (Inr lg, d') \<and> log_read_from lg 0 d' = Inr ([sample_stamped], None)"
    by (simp add: MAX_U32_def)
  with s(1,4) y(1) cut show ?thesis by blast
qed

theorem foreign_partitions_exact_witness:
  "\<exists>ps. foreign_partitions (\<lambda>name p. p \<noteq> 3) ''a'' [(''a'', Topic_Dir \<lparr>td_meta = Some (Inr 6), td_dirs = [(''3'', []), (''1'', [])]\<rparr>)] = Inr ps
    \<and> set ps = {3}"
proof -
  let ?t = "\<lparr>td_meta = Some (Inr 6), td_dirs = [(''3'', []), (''1'', [])]\<rparr> :: topic_dir"
  have n: "int_text 3 = ''3''" "int_text 1 = ''1''" by code_simp+
  have "\<exists>p \<ge> 0. ''3'' = int_text p" "\<exists>p \<ge> 0. ''1'' = int_text p"
    using n by (metis zero_le_numeral, metis zero_le_one)
  then have "\<forall>m \<in> fst ` set (td_dirs ?t). py_isdigit m \<longrightarrow> (\<exists>p \<ge> 0. m = int_text p)" by simp
  moreover have "map_of [(''a'', Topic_Dir ?t)] ''a'' = Some (Topic_Dir ?t)" "distinct (map fst (td_dirs ?t))"
    by simp_all
  ultimately have "\<exists>ps. foreign_partitions (\<lambda>name p. p \<noteq> 3) ''a'' [(''a'', Topic_Dir ?t)] = Inr ps \<and> sorted ps \<and> distinct ps
      \<and> set ps = {p. 0 \<le> p \<and> int_text p \<in> fst ` set (td_dirs ?t) \<and> \<not> p \<noteq> 3}"
    by (intro foreign_partitions_exact)
  moreover have "{p. 0 \<le> p \<and> int_text p \<in> fst ` set (td_dirs ?t) \<and> \<not> p \<noteq> 3} = {3}" using n by auto
  ultimately show ?thesis by metis
qed

end
