(* ===== verification/Tail.thy ===== *)
theory Tail
  imports Prelude
begin

text \<open>
  \<open>broker/tail.py\<close>: who is woken when a record is appended. An \<open>asyncio.Event\<close> is a number; the events
  that were set are remembered, since a waiter looks at its event after the dictionary has forgotten it.
\<close>

type_synonym event = nat
type_synonym part_key = "string \<times> int"

record tail =
  tl_events :: "(part_key \<times> event) list"
  tl_closed :: bool
  tl_set :: "event list"
  tl_next :: event

definition tail_init :: tail where
  "tail_init = \<lparr>tl_events = [], tl_closed = False, tl_set = [], tl_next = 0\<rparr>"

text \<open>\<open>setdefault\<close>: the event of the key, a new one if there is none.\<close>

definition tail_subscribe :: "part_key \<Rightarrow> tail \<Rightarrow> event \<times> tail" where
  "tail_subscribe k tw =
     (case map_of (tl_events tw) k of
        Some e \<Rightarrow> (e, tw)
      | None \<Rightarrow> (tl_next tw, tw\<lparr>tl_events := al_set k (tl_next tw) (tl_events tw), tl_next := tl_next tw + 1\<rparr>))"

definition tail_notify :: "part_key \<Rightarrow> tail \<Rightarrow> tail" where
  "tail_notify k tw =
     (case map_of (tl_events tw) k of
        None \<Rightarrow> tw
      | Some e \<Rightarrow> tw\<lparr>tl_events := al_del k (tl_events tw), tl_set := e # tl_set tw\<rparr>)"

definition tail_close :: "tail \<Rightarrow> tail" where
  "tail_close tw = tw\<lparr>tl_closed := True, tl_set := map snd (tl_events tw) @ tl_set tw, tl_events := []\<rparr>"

section \<open>What the operations do to waiters\<close>

text \<open>\<open>armed tw k e\<close>: the next notification of \<open>k\<close> sets \<open>e\<close>.\<close>

definition armed :: "tail \<Rightarrow> part_key \<Rightarrow> event \<Rightarrow> bool" where
  "armed tw k e \<longleftrightarrow> map_of (tl_events tw) k = Some e"

lemma armed_subscribe:
  "armed (snd (tail_subscribe k tw)) k' e \<longleftrightarrow>
     (if k' = k \<and> map_of (tl_events tw) k = None then e = tl_next tw else armed tw k' e)"
  by (auto simp: tail_subscribe_def armed_def split: option.split)

lemma armed_notify: "armed (tail_notify k tw) k' e \<longleftrightarrow> k' \<noteq> k \<and> armed tw k' e"
  by (auto simp: tail_notify_def armed_def split: option.split)

lemma armed_close [simp]: "\<not> armed (tail_close tw) k e"
  by (simp add: armed_def tail_close_def)

lemma subscribe_armed: "tail_subscribe k tw = (e, tw') \<Longrightarrow> armed tw' k e"
  by (auto simp: tail_subscribe_def armed_def split: option.splits)

lemma subscribe_keeps:
  assumes "tail_subscribe k tw = (e, tw')"
  shows "armed tw k' e' \<Longrightarrow> armed tw' k' e'" "tl_set tw' = tl_set tw" "tl_closed tw' = tl_closed tw"
  using assms by (auto simp: tail_subscribe_def armed_def split: option.splits)

lemma notify_wakes: "armed tw k e \<Longrightarrow> e \<in> set (tl_set (tail_notify k tw))"
  by (simp add: armed_def tail_notify_def)

lemma notify_keeps:
  "k \<noteq> k' \<Longrightarrow> armed tw k' e' \<Longrightarrow> armed (tail_notify k tw) k' e'"
  "e' \<in> set (tl_set tw) \<Longrightarrow> e' \<in> set (tl_set (tail_notify k tw))"
  "tl_closed (tail_notify k tw) = tl_closed tw"
  by (auto simp: armed_def tail_notify_def split: option.splits)

lemma close_wakes:
  "armed tw k e \<Longrightarrow> e \<in> set (tl_set (tail_close tw))"
  "e \<in> set (tl_set tw) \<Longrightarrow> e \<in> set (tl_set (tail_close tw))"
  "tl_closed (tail_close tw)"
  by (auto simp: armed_def tail_close_def dest!: map_of_SomeD intro: rev_image_eqI)

section \<open>Invariant\<close>

text \<open>Keys are distinct, events in the dictionary are not set, and no two keys share one.\<close>

definition tail_ok :: "tail \<Rightarrow> bool" where
  "tail_ok tw \<longleftrightarrow> (\<forall>k e. armed tw k e \<longrightarrow> e < tl_next tw \<and> e \<notin> set (tl_set tw)
          \<and> (\<forall>k'. armed tw k' e \<longrightarrow> k' = k))
     \<and> distinct (map fst (tl_events tw)) \<and> (\<forall>e \<in> set (tl_set tw). e < tl_next tw)"

lemma tail_ok_init [simp]: "tail_ok tail_init"
  by (simp add: tail_ok_def tail_init_def armed_def)

lemma tail_ok_subscribe:
  assumes "tail_ok tw"
  shows "tail_ok (snd (tail_subscribe k tw))"
proof -
  have "distinct (map fst (tl_events (snd (tail_subscribe k tw))))"
    "tl_set (snd (tail_subscribe k tw)) = tl_set tw"
    "tl_next (snd (tail_subscribe k tw)) = (if map_of (tl_events tw) k = None then tl_next tw + 1 else tl_next tw)"
    using assms by (auto simp: tail_ok_def tail_subscribe_def split: option.split)
  with assms show ?thesis unfolding tail_ok_def armed_subscribe by (cases k) (auto intro: less_SucI)
qed

lemma distinct_al_del: "distinct (map fst xs) \<Longrightarrow> distinct (map fst (al_del k xs))"
  by (auto simp: al_del_def distinct_map inj_on_def)

lemma tail_ok_notify:
  assumes "tail_ok tw"
  shows "tail_ok (tail_notify k tw)"
proof -
  have "distinct (map fst (tl_events (tail_notify k tw)))" "tl_next (tail_notify k tw) = tl_next tw"
    using assms by (auto simp: tail_ok_def tail_notify_def distinct_al_del split: option.split)
  moreover have "set (tl_set (tail_notify k tw)) = set (tl_set tw) \<union> {e. armed tw k e}"
    by (auto simp: tail_notify_def armed_def split: option.split)
  ultimately show ?thesis using assms unfolding tail_ok_def armed_notify by (cases k) fastforce
qed

lemma tail_ok_close:
  assumes "tail_ok tw"
  shows "tail_ok (tail_close tw)"
proof -
  have "e < tl_next tw" if "(k, e) \<in> set (tl_events tw)" for k e
    using assms that by (cases k) (auto simp: tail_ok_def armed_def dest!: map_of_is_SomeI)
  then show ?thesis using assms by (auto simp: tail_ok_def) (auto simp: tail_close_def)
qed

end
