(* ===== verification/Store.thy ===== *)
theory Store
  imports Topics Tail
begin

text \<open>
  \<open>broker/store.py\<close>: the one \<open>Topic\<close> object of a broker process, its \<open>Tail\<close>, and whether the broker may
  serve. \<open>own\<close> is the predicate the ring gives to the topics. What runs in a worker thread is one step,
  since the topic's and the logs' locks order such calls.
\<close>

record store =
  so_topics :: topics
  so_tail :: tail
  so_ready :: bool
  so_allow :: bool
  so_orphans :: "(string \<times> int list) list"

type_synonym store_state = "store \<times> root"

definition store_init :: "int \<Rightarrow> sync_policy \<Rightarrow> int \<Rightarrow> bool \<Rightarrow> store result" where
  "store_init partitions pol mx allow =
     bind_result (topics_init partitions pol mx) (\<lambda>tp.
       Inr \<lparr>so_topics = tp, so_tail = tail_init, so_ready = False, so_allow = allow, so_orphans = []\<rparr>)"

text \<open>A call on the topics in a worker thread.\<close>

definition in_topics :: "(tstate \<Rightarrow> 'a result \<times> tstate) \<Rightarrow> store_state \<Rightarrow> 'a result \<times> store_state" where
  "in_topics f s =
     (case f (so_topics (fst s), snd s) of (res, (tp, rt)) \<Rightarrow> (res, ((fst s)\<lparr>so_topics := tp\<rparr>, rt)))"

section \<open>Opening and closing\<close>

fun create_all :: "(string \<Rightarrow> int \<Rightarrow> bool) \<Rightarrow> rat \<Rightarrow> string list \<Rightarrow> tstate \<Rightarrow> unit result \<times> tstate" where
  "create_all own tick [] st = (Inr (), st)"
| "create_all own tick (name # names) st =
     (case topic_create own name None tick st of
        (Inl e, st1) \<Rightarrow> (Inl e, st1)
      | (Inr n, st1) \<Rightarrow> create_all own tick names st1)"

fun find_orphans :: "(string \<Rightarrow> int \<Rightarrow> bool) \<Rightarrow> string list \<Rightarrow> root \<Rightarrow> (string \<times> int list) list result" where
  "find_orphans own [] rt = Inr []"
| "find_orphans own (name # names) rt =
     bind_result (foreign_partitions own name rt) (\<lambda>ps.
       bind_result (find_orphans own names rt) (\<lambda>found.
         Inr (if ps \<noteq> [] then (name, ps) # found else found)))"

definition store_open :: "(string \<Rightarrow> int \<Rightarrow> bool) \<Rightarrow> rat \<Rightarrow> store_state \<Rightarrow> unit result \<times> store_state" where
  "store_open own tick s =
     (let names = topic_names (snd s)
      in case in_topics (create_all own tick names) s of
           (Inl e, s1) \<Rightarrow> (Inl e, s1)
         | (Inr u, (so, rt)) \<Rightarrow>
             (case find_orphans own names rt of
                Inl e \<Rightarrow> (Inl e, (so, rt))
              | Inr found \<Rightarrow>
                  let so1 = so\<lparr>so_orphans := found\<rparr>
                  in if found \<noteq> [] \<and> \<not> so_allow so1 then (Inr (), (so1, rt))
                     else (Inr (), (so1\<lparr>so_ready := True\<rparr>, rt))))"

definition store_close :: "store_state \<Rightarrow> unit result \<times> store_state" where
  "store_close s =
     (case s of (so, rt) \<Rightarrow>
        in_topics topics_close (so\<lparr>so_ready := False, so_tail := tail_close (so_tail so)\<rparr>, rt))"

section \<open>Operations\<close>

definition store_names :: "store_state \<Rightarrow> string list" where
  "store_names s = topic_names (snd s)"

definition store_create ::
  "(string \<Rightarrow> int \<Rightarrow> bool) \<Rightarrow> string \<Rightarrow> int option \<Rightarrow> rat \<Rightarrow> store_state \<Rightarrow> int result \<times> store_state" where
  "store_create own name partitions tick = in_topics (topic_create own name partitions tick)"

definition store_partitions_of :: "(string \<Rightarrow> int \<Rightarrow> bool) \<Rightarrow> string \<Rightarrow> rat \<Rightarrow> store_state \<Rightarrow> int result \<times> store_state" where
  "store_partitions_of own name tick = in_topics (partitions_of own name tick)"

definition store_local_partitions ::
  "(string \<Rightarrow> int \<Rightarrow> bool) \<Rightarrow> string \<Rightarrow> rat \<Rightarrow> store_state \<Rightarrow> int list result \<times> store_state" where
  "store_local_partitions own name tick = in_topics (local_partitions own name tick)"

definition store_route ::
  "(string \<Rightarrow> int \<Rightarrow> bool) \<Rightarrow> string \<Rightarrow> bytes option \<Rightarrow> rat \<Rightarrow> store_state \<Rightarrow> int result \<times> store_state" where
  "store_route own name key tick = in_topics (topic_route own name key tick)"

text \<open>The two steps of \<open>append\<close>: the write in the worker thread, the notification on the event loop.\<close>

definition store_write ::
  "(string \<Rightarrow> int \<Rightarrow> bool) \<Rightarrow> string \<Rightarrow> bytes option \<Rightarrow> bytes option \<Rightarrow> int option \<Rightarrow> int option
    \<Rightarrow> int \<Rightarrow> rat \<Rightarrow> store_state \<Rightarrow> (int \<times> offset) result \<times> store_state" where
  "store_write own name key val ts part now_ns tick =
     in_topics (topic_append own name key val ts part now_ns tick)"

definition store_notify :: "part_key \<Rightarrow> store_state \<Rightarrow> store_state" where
  "store_notify k s = ((fst s)\<lparr>so_tail := tail_notify k (so_tail (fst s))\<rparr>, snd s)"

definition store_append ::
  "(string \<Rightarrow> int \<Rightarrow> bool) \<Rightarrow> string \<Rightarrow> bytes option \<Rightarrow> bytes option \<Rightarrow> int option \<Rightarrow> int option
    \<Rightarrow> int \<Rightarrow> rat \<Rightarrow> store_state \<Rightarrow> (int \<times> offset) result \<times> store_state" where
  "store_append own name key val ts part now_ns tick s =
     (case store_write own name key val ts part now_ns tick s of
        (Inl e, s1) \<Rightarrow> (Inl e, s1)
      | (Inr (p, off), s1) \<Rightarrow> (Inr (p, off), store_notify (name, p) s1))"

text \<open>
  \<open>read\<close>: the records of the generator until it ends, raises, or \<open>limit\<close> of them are there. With the
  last one wanted in hand the generator is not asked again, so what it would raise is not seen.
\<close>

definition take_batch :: "int \<Rightarrow> reading \<Rightarrow> log_record list result" where
  "take_batch limit rd =
     (case rd of (rs, err) \<Rightarrow>
        if 0 < limit \<and> limit \<le> int (length rs) then Inr (take (nat limit) rs)
        else (case err of None \<Rightarrow> Inr rs | Some e \<Rightarrow> Inl e))"

definition store_read ::
  "(string \<Rightarrow> int \<Rightarrow> bool) \<Rightarrow> string \<Rightarrow> offset \<Rightarrow> int \<Rightarrow> int \<Rightarrow> rat \<Rightarrow> store_state
    \<Rightarrow> log_record list result \<times> store_state" where
  "store_read own name off p limit tick s =
     (case in_topics (topic_read_from own name off p tick) s of
        (res, s1) \<Rightarrow> (bind_result res (take_batch limit), s1))"

section \<open>Invariant\<close>

definition store_ok :: "(string \<Rightarrow> int \<Rightarrow> bool) \<Rightarrow> contents \<Rightarrow> store_state \<Rightarrow> bool" where
  "store_ok own C s \<longleftrightarrow> topics_ok own C (so_topics (fst s), snd s) \<and> tail_ok (so_tail (fst s))"

lemma store_okD:
  assumes "store_ok own C (so, rt)"
  shows "topics_ok own C (so_topics so, rt)" "tail_ok (so_tail so)"
  using assms by (simp_all add: store_ok_def)

lemma in_topics_ok:
  assumes "f (so_topics (fst s), snd s) = (r, st')" "topics_ok own C st'" "tail_ok (so_tail (fst s))"
  shows "in_topics f s = (r, ((fst s)\<lparr>so_topics := fst st'\<rparr>, snd st'))"
    "store_ok own C (snd (in_topics f s))"
  using assms by (auto simp: in_topics_def store_ok_def split: prod.split)

lemma in_topics_tail [simp]: "so_tail (fst (snd (in_topics f s))) = so_tail (fst s)"
  "so_allow (fst (snd (in_topics f s))) = so_allow (fst s)" "so_ready (fst (snd (in_topics f s))) = so_ready (fst s)"
  by (auto simp: in_topics_def split: prod.split)

lemma store_notify_ok: "store_ok own C s \<Longrightarrow> store_ok own C (store_notify k s)"
  by (simp add: store_ok_def store_notify_def tail_ok_notify)

section \<open>Opening\<close>

lemma open_locked_keeps_open:
  "map_of (tp_open (fst st)) n \<noteq> None \<Longrightarrow> map_of (tp_open (fst (snd (open_locked own name k tick st)))) n \<noteq> None"
  by (simp add: open_locked_def Let_def case_prod_beta split: sum.split)

lemma topic_create_cases:
  assumes ok: "topics_ok own C st" and op: "topic_create own name k tick st = (res, st')"
  shows "topics_ok own C st' \<and> (\<forall>n. map_of (tp_open (fst st)) n \<noteq> None \<longrightarrow> map_of (tp_open (fst st')) n \<noteq> None)
    \<and> (metas (snd st) name \<noteq> None \<longrightarrow> metas (snd st') = metas (snd st))
    \<and> (\<forall>m. res = Inr m \<longrightarrow> map_of (tp_open (fst st')) name \<noteq> None)"
proof (cases "is_valid_name name \<and> map_of (tp_open (fst st)) name = None")
  case False
  then have "st' = st \<and> (\<forall>m. res = Inr m \<longrightarrow> map_of (tp_open (fst st)) name \<noteq> None)"
    using op by (auto simp: topic_create_def is_valid_name_def split: sum.splits option.splits)
  with ok show ?thesis by simp
next
  case True
  then obtain r where o: "open_locked own name k tick st = (r, st')" "res = Inl (projl r) \<or> (\<exists>ot. r = Inr ot)"
    using op by (auto simp: topic_create_def valid_name_iff split: sum.splits prod.splits)
  have keep: "map_of (tp_open (fst st)) n \<noteq> None \<Longrightarrow> map_of (tp_open (fst st')) n \<noteq> None" for n
    using open_locked_keeps_open [of st n own name k tick] o(1) by simp
  have valid: "is_valid_name name" using True by blast
  from open_locked_cases [OF ok valid o(1)] consider
      (fails) e where "r = Inl e" "st' = st"
    | (opens) ot where "r = Inr ot" "topics_ok own C st'" "map_of (tp_open (fst st')) name = Some ot"
        "\<And>m. metas (snd st) name = Some (Inr m) \<Longrightarrow> ot_partitions ot = m"
        "metas (snd st') = (metas (snd st))(name := Some (Inr (ot_partitions ot)))"
    by (elim disjE exE conjE) simp_all
  then show ?thesis
  proof cases
    case fails
    with o op True ok show ?thesis by (auto simp: topic_create_def valid_name_iff)
  next
    case opens
    have "metas (snd st') = metas (snd st)" if "metas (snd st) name \<noteq> None"
    proof -
      have "metas (snd st) name \<noteq> Some (Inl e)" for e
        using o(1) opens(1) by (cases st) (auto simp: open_locked_def read_meta_metas)
      then have "\<exists>m. metas (snd st) name = Some (Inr m)" using that by (metis not_None_eq sum.exhaust)
      then have "metas (snd st) name = Some (Inr (ot_partitions ot))" using opens(4) by auto
      then show ?thesis unfolding opens(5) by (simp add: fun_upd_idem_iff)
    qed
    with opens keep show ?thesis by auto
  qed
qed

lemma create_all_ok:
  assumes "topics_ok own C st" "create_all own tick names st = (res, st')"
    and "\<forall>name \<in> set names. metas (snd st) name \<noteq> None"
  shows "topics_ok own C st' \<and> metas (snd st') = metas (snd st)
    \<and> (\<forall>n. map_of (tp_open (fst st)) n \<noteq> None \<longrightarrow> map_of (tp_open (fst st')) n \<noteq> None)
    \<and> (res = Inr () \<longrightarrow> (\<forall>name \<in> set names. map_of (tp_open (fst st')) name \<noteq> None))"
  using assms
proof (induction names arbitrary: st)
  case (Cons name names)
  obtain r st1 where c: "topic_create own name None tick st = (r, st1)" by (meson surj_pair)
  note k = topic_create_cases [OF Cons.prems(1) c]
  have metas1: "metas (snd st1) = metas (snd st)" using k Cons.prems(3) by simp
  show ?case
  proof (cases r)
    case (Inl e)
    then have "res = Inl e" "st' = st1" using Cons.prems(2) c by auto
    with k metas1 show ?thesis by simp
  next
    case (Inr n)
    then have "create_all own tick names st1 = (res, st')" using Cons.prems(2) c by simp
    moreover have "\<forall>name \<in> set names. metas (snd st1) name \<noteq> None"
      using Cons.prems(3) fun_cong [OF metas1] by simp
    ultimately show ?thesis using Cons.IH [of st1] k metas1 Inr by auto
  qed
qed simp

lemma find_orphans_exact:
  assumes "find_orphans own names rt = Inr found" "distinct names"
  shows "map_of found name = Some ps \<longleftrightarrow> name \<in> set names \<and> foreign_partitions own name rt = Inr ps \<and> ps \<noteq> []"
    and "name \<in> set names \<Longrightarrow> \<exists>qs. foreign_partitions own name rt = Inr qs"
  using assms
proof (induction names arbitrary: found)
  case (Cons n names)
  { case 1
    from "1.prems" obtain qs found' where q: "foreign_partitions own n rt = Inr qs" "find_orphans own names rt = Inr found'"
      "found = (if qs \<noteq> [] then (n, qs) # found' else found')"
      by (auto split: if_split_asm)
    have "map_of found' name = Some ps \<longleftrightarrow> name \<in> set names \<and> foreign_partitions own name rt = Inr ps \<and> ps \<noteq> []"
      using Cons.IH(1) [OF q(2)] "1.prems" by simp
    then show ?case using q "1.prems" by auto }
  { case 2
    then show ?case using Cons.IH(2) by auto }
qed simp_all

text \<open>The names \<open>open\<close> recovers have metadata and are listed once.\<close>

lemma topic_names_meta: "name \<in> set (topic_names rt) \<Longrightarrow> is_valid_name name \<and> metas rt name \<noteq> None"
  by (auto simp: topic_names_def meta_is_file_metas)

lemma distinct_topic_names: "distinct (map fst rt) \<Longrightarrow> distinct (topic_names rt)"
  by (simp add: topic_names_def)

lemma store_open_decides:
  assumes ok: "store_ok own C s" and fresh: "\<not> so_ready (fst s)" and dist: "distinct (map fst (snd s))"
    and op: "store_open own tick s = (res, s')"
  shows "store_ok own C s' \<and> metas (snd s') = metas (snd s) \<and> (res \<noteq> Inr () \<longrightarrow> \<not> so_ready (fst s'))
    \<and> (res = Inr () \<longrightarrow>
        (\<forall>name \<in> set (topic_names (snd s)). map_of (tp_open (so_topics (fst s'))) name \<noteq> None
            \<and> (\<exists>ps. foreign_partitions own name (snd s') = Inr ps))
      \<and> (\<forall>name ps. map_of (so_orphans (fst s')) name = Some ps \<longleftrightarrow>
            name \<in> set (topic_names (snd s)) \<and> foreign_partitions own name (snd s') = Inr ps \<and> ps \<noteq> [])
      \<and> (so_ready (fst s') \<longleftrightarrow> so_allow (fst s) \<or> so_orphans (fst s') = []))"
proof -
  obtain so rt where s: "s = (so, rt)" by (cases s)
  note D = store_okD [OF ok [unfolded s]]
  let ?names = "topic_names rt"
  obtain r tp' rt' where c: "create_all own tick ?names (so_topics so, rt) = (r, (tp', rt'))" by (metis prod_cases3)
  have "\<forall>name \<in> set ?names. metas (snd (so_topics so, rt)) name \<noteq> None" using topic_names_meta by simp
  note k = create_all_ok [OF D(1) c this]
  have it: "in_topics (create_all own tick ?names) s = (r, (so\<lparr>so_topics := tp'\<rparr>, rt'))"
    using c by (simp add: in_topics_def s)
  have ok': "store_ok own C (so\<lparr>so_topics := tp'\<rparr>, rt')" using k D(2) by (simp add: store_ok_def)
  show ?thesis
  proof (cases r)
    case (Inl e)
    then have "res = Inl e" "s' = (so\<lparr>so_topics := tp'\<rparr>, rt')"
      using op it by (auto simp: store_open_def Let_def s)
    with ok' k fresh show ?thesis by (simp add: s)
  next
    case (Inr u)
    show ?thesis
    proof (cases "find_orphans own ?names rt'")
      case (Inl e)
      then have "res = Inl e" "s' = (so\<lparr>so_topics := tp'\<rparr>, rt')"
        using op it Inr by (auto simp: store_open_def Let_def s)
      with ok' k fresh show ?thesis by (simp add: s)
    next
      case found: (Inr found)
      have "distinct ?names" using dist by (simp add: s distinct_topic_names)
      note f = find_orphans_exact [OF found this]
      have "res = Inr ()" "s' = (so\<lparr>so_topics := tp', so_orphans := found,
          so_ready := (if found \<noteq> [] \<and> \<not> so_allow so then so_ready so else True)\<rparr>, rt')"
        using op it Inr found by (auto simp: store_open_def Let_def s split: if_split_asm)
      with ok' k f fresh Inr show ?thesis by (auto simp: s store_ok_def)
    qed
  qed
qed

section \<open>Reading and writing\<close>

definition batch_of :: "int \<Rightarrow> log_record list \<Rightarrow> log_record list" where
  "batch_of limit rs = (if 0 < limit then take (nat limit) rs else rs)"

lemma take_batch_all [simp]: "take_batch limit (rs, None) = Inr (batch_of limit rs)"
  by (simp add: take_batch_def batch_of_def)

lemma store_read_decides:
  assumes ok: "store_ok own C s" and rd: "store_read own name off p limit tick s = (res, s')"
  shows "store_ok own C s' \<and> metas (snd s') = metas (snd s) \<and> so_tail (fst s') = so_tail (fst s)
    \<and> res = (if \<not> is_valid_name name then Inl ValueError
       else (case metas (snd s) name of
           None \<Rightarrow> Inl UnknownTopic
         | Some (Inl e) \<Rightarrow> Inl e
         | Some (Inr n) \<Rightarrow>
             if \<not> (0 \<le> p \<and> p < n) then Inl ValueError
             else if \<not> own name p then Inl PartitionNotLocal
             else if off < fst (C name p) then Inl OffsetOutOfRange
             else Inr (batch_of limit (drop (nat (off - fst (C name p))) (snd (C name p))))))"
proof -
  obtain so rt where s: "s = (so, rt)" by (cases s)
  note D = store_okD [OF ok [unfolded s]]
  obtain r tp' rt' where c: "topic_read_from own name off p tick (so_topics so, rt) = (r, (tp', rt'))"
    by (metis prod_cases3)
  note k = topic_read_decides [OF D(1) c]
  have "res = bind_result r (take_batch limit)" "s' = (so\<lparr>so_topics := tp'\<rparr>, rt')"
    using rd c by (auto simp: store_read_def in_topics_def s)
  with k D(2) show ?thesis by (auto simp: s store_ok_def split: option.split sum.split)
qed

lemma store_write_ok:
  assumes ok: "store_ok own C s" and wr: "store_write own name key val ts part now_ns tick s = (res, s')"
  shows "so_tail (fst s') = so_tail (fst s) \<and> (case res of
      Inl e \<Rightarrow> store_ok own C s'
    | Inr (p, off) \<Rightarrow> (\<exists>n. metas (snd s') name = Some (Inr n) \<and> 0 \<le> p \<and> p < n \<and> own name p
          \<and> (case part of Some q \<Rightarrow> p = q | None \<Rightarrow> (\<forall>k. key = Some k \<longrightarrow> p = uint (crc32 k 0) mod n)))
        \<and> off = fst (C name p) + int (length (snd (C name p)))
        \<and> store_ok own (put_contents name p (fst (C name p), snd (C name p) @ [stamped off key val ts now_ns]) C) s')"
proof -
  obtain so rt where s: "s = (so, rt)" by (cases s)
  note D = store_okD [OF ok [unfolded s]]
  obtain r tp' rt' where c: "topic_append own name key val ts part now_ns tick (so_topics so, rt) = (r, (tp', rt'))"
    by (metis prod_cases3)
  have "res = r" "s' = (so\<lparr>so_topics := tp'\<rparr>, rt')"
    using wr c by (auto simp: store_write_def in_topics_def s)
  with topic_append_ok [OF D(1) c] D(2) show ?thesis by (auto simp: s store_ok_def split: sum.splits)
qed

section \<open>Properties\<close>

text \<open>
  Property C20. A broker serves only if it may. After \<open>open\<close> it is ready exactly if recovery raised
  nothing and no topic has a partition directory here that belongs to someone else, or the operator
  allows it; every topic on disk is then open, with all its records. If \<open>open\<close> returns without making
  it ready, \<open>orphans\<close> names every such directory.
\<close>

theorem ready_iff_no_orphans:
  assumes "store_ok own C s" and "\<not> so_ready (fst s)" and "distinct (map fst (snd s))"
    and "store_open own tick s = (res, s')"
  shows "store_ok own C s' \<and> metas (snd s') = metas (snd s)
    \<and> (so_ready (fst s') \<longleftrightarrow> res = Inr () \<and>
        (so_allow (fst s) \<or> (\<forall>name \<in> set (topic_names (snd s)). foreign_partitions own name (snd s') = Inr [])))
    \<and> (so_ready (fst s') \<longrightarrow> (\<forall>name \<in> set (topic_names (snd s)). map_of (tp_open (so_topics (fst s'))) name \<noteq> None))
    \<and> (res = Inr () \<and> \<not> so_ready (fst s') \<longrightarrow> (\<forall>name ps. map_of (so_orphans (fst s')) name = Some ps \<longleftrightarrow>
        name \<in> set (topic_names (snd s)) \<and> foreign_partitions own name (snd s') = Inr ps \<and> ps \<noteq> []))"
proof -
  note k = store_open_decides [OF assms]
  let ?orphans = "so_orphans (fst s')" and ?names = "set (topic_names (snd s))"
  have "?orphans = [] \<longleftrightarrow> (\<forall>name \<in> ?names. foreign_partitions own name (snd s') = Inr [])" if r: "res = Inr ()"
  proof
    assume none: "?orphans = []"
    show "\<forall>name \<in> ?names. foreign_partitions own name (snd s') = Inr []"
    proof
      fix name assume n: "name \<in> ?names"
      then obtain ps where ps: "foreign_partitions own name (snd s') = Inr ps" using k r by blast
      moreover have "ps = []" using k r n ps none by fastforce
      ultimately show "foreign_partitions own name (snd s') = Inr []" by simp
    qed
  next
    assume all: "\<forall>name \<in> ?names. foreign_partitions own name (snd s') = Inr []"
    show "?orphans = []"
    proof (cases ?orphans)
      case (Cons x xs)
      then have "map_of ?orphans (fst x) = Some (snd x)" by (cases x) simp
      then show ?thesis using k r all by fastforce
    qed
  qed
  with k show ?thesis by blast
qed

text \<open>A broker that owns nothing, with partition 3 of topic \<open>a\<close> on its disk.\<close>

definition nothing_mine :: "string \<Rightarrow> int \<Rightarrow> bool" where
  "nothing_mine name p = False"

abbreviation orphan_root :: root where
  "orphan_root \<equiv> [(''a'', Topic_Dir \<lparr>td_meta = Some (Inr 6), td_dirs = [(''3'', [])]\<rparr>)]"

abbreviation sample_store :: store where
  "sample_store \<equiv> \<lparr>so_topics = sample_topics, so_tail = tail_init, so_ready = False, so_allow = False, so_orphans = []\<rparr>"

lemma orphan_root_ok: "store_ok nothing_mine empty_contents (sample_store, orphan_root)"
proof -
  have "topics_ok nothing_mine empty_contents (sample_topics, orphan_root)"
    by (rule fresh_topics_ok(1) [OF sample_init])
      (simp_all add: MAX_U32_def on_disk_def healthy_def empty_contents_def part_dir_def topic_at_def no_topic_def)
  then show ?thesis by (simp add: store_ok_def)
qed

lemma orphan_root_names: "topic_names orphan_root = [''a'']"
  by (simp add: topic_names_def meta_is_file_def topic_at_def)

lemma orphan_root_foreign: "foreign_partitions nothing_mine ''a'' orphan_root = Inr [3]"
proof -
  have "int_text 3 = ''3''" by code_simp
  then have "py_isdigit ''3''" "py_int ''3'' = Some 3" using py_isdigit_int_text [of 3] py_int_int_text [of 3] by simp_all
  then show ?thesis by (simp add: foreign_partitions_def nothing_mine_def)
qed

lemma orphan_root_create:
  "\<exists>tp. topic_create nothing_mine ''a'' None 0 (sample_topics, orphan_root) = (Inr 6, (tp, orphan_root))"
  using name_a by (simp add: valid_name_iff topic_create_def open_locked_def read_meta_def topic_at_def
      nothing_mine_def Let_def)

theorem ready_iff_no_orphans_witness:
  "\<exists>s'. store_open nothing_mine 0 (sample_store, orphan_root) = (Inr (), s') \<and> \<not> so_ready (fst s')
    \<and> map_of (so_orphans (fst s')) ''a'' = Some [3]"
proof -
  obtain tp where "topic_create nothing_mine ''a'' None 0 (sample_topics, orphan_root) = (Inr 6, (tp, orphan_root))"
    using orphan_root_create by blast
  then have o: "store_open nothing_mine 0 (sample_store, orphan_root)
      = (Inr (), (sample_store\<lparr>so_topics := tp, so_orphans := [(''a'', [3])]\<rparr>, orphan_root))"
    by (simp add: store_open_def orphan_root_names in_topics_def orphan_root_foreign)
  from ready_iff_no_orphans [OF orphan_root_ok _ _ o] o show ?thesis
    by (simp add: orphan_root_names orphan_root_foreign)
qed

end
