(* ===== verification/Live_Tail.thy ===== *)
theory Live_Tail
  imports Store
begin

text \<open>
  \<open>Consume(follow=true)\<close> of \<open>broker/handler.py\<close> and the appends it runs beside, as a step relation. A step
  is what runs without an \<open>await\<close>: on the event loop up to the next one, or one call in a worker thread.
  The streams take them in any order, with writes, notifications, new streams, cancellations and the
  shutdown in between.
\<close>

definition BATCH :: int where
  "BATCH = 500"

text \<open>Where a stream is in the loop: what it awaits, or what runs next.\<close>

datatype pc =
    Subscribing
  | Fetching event
  | Sending event "log_record list" nat
  | Waiting event
  | Ended

record stream =
  sm_key :: part_key
  sm_start :: offset
  sm_offset :: offset
  sm_sent :: "log_record list"
  sm_pc :: pc

definition stream_init :: "part_key \<Rightarrow> offset \<Rightarrow> stream" where
  "stream_init k off = \<lparr>sm_key = k, sm_start = off, sm_offset = off, sm_sent = [], sm_pc = Subscribing\<rparr>"

definition next_offset :: "offset \<Rightarrow> log_record list \<Rightarrow> offset" where
  "next_offset off batch = (if batch = [] then off else rec_offset (last batch) + 1)"

text \<open>Once a batch is sent: again if it was full, the end if the broker is closing, else wait.\<close>

definition after_batch :: "bool \<Rightarrow> event \<Rightarrow> log_record list \<Rightarrow> pc" where
  "after_batch closing e batch =
     (if int (length batch) = BATCH then Subscribing else if closing then Ended else Waiting e)"

definition after_wait :: "bool \<Rightarrow> pc" where
  "after_wait closing = (if closing then Ended else Subscribing)"

text \<open>The broker: its store, the appends written and not yet notified, and the streams.\<close>

record world =
  wd_state :: store_state
  wd_pending :: "part_key list"
  wd_streams :: "stream list"

abbreviation wd_tail :: "world \<Rightarrow> tail" where
  "wd_tail w \<equiv> so_tail (fst (wd_state w))"

definition set_tail :: "tail \<Rightarrow> store_state \<Rightarrow> store_state" where
  "set_tail tw s = ((fst s)\<lparr>so_tail := tw\<rparr>, snd s)"

text \<open>\<open>Store.close\<close> has two steps, the second in a worker thread.\<close>

definition close_tail :: "store_state \<Rightarrow> store_state" where
  "close_tail s = ((fst s)\<lparr>so_ready := False, so_tail := tail_close (so_tail (fst s))\<rparr>, snd s)"

lemma store_close_steps: "store_close s = in_topics topics_close (close_tail s)"
  by (cases s) (simp add: store_close_def close_tail_def)

datatype label = Progress | Timeout | Outside

text \<open>
  A step is progress of a stream or a notification, or the 30 seconds' timeout of a wait, or comes from
  outside: clients and the operator.
\<close>

inductive live_step :: "(string \<Rightarrow> int \<Rightarrow> bool) \<Rightarrow> world \<Rightarrow> label \<Rightarrow> world \<Rightarrow> bool" for own where
  connect: "live_step own w Outside (w\<lparr>wd_streams := wd_streams w @ [stream_init k off]\<rparr>)"
| cancel: "i < length (wd_streams w) \<Longrightarrow>
    live_step own w Outside (w\<lparr>wd_streams := (wd_streams w)[i := (wd_streams w ! i)\<lparr>sm_pc := Ended\<rparr>]\<rparr>)"
| subscribe: "\<lbrakk>i < length (wd_streams w); s = wd_streams w ! i; sm_pc s = Subscribing;
    tail_subscribe (sm_key s) (wd_tail w) = (e, tw)\<rbrakk> \<Longrightarrow>
    live_step own w Progress (w\<lparr>wd_state := set_tail tw (wd_state w),
      wd_streams := (wd_streams w)[i := s\<lparr>sm_pc := Fetching e\<rparr>]\<rparr>)"
| fetch: "\<lbrakk>i < length (wd_streams w); s = wd_streams w ! i; sm_pc s = Fetching e; sm_key s = (name, p);
    store_read own name (sm_offset s) p BATCH tick (wd_state w) = (Inr batch, st)\<rbrakk> \<Longrightarrow>
    live_step own w Progress (w\<lparr>wd_state := st, wd_streams := (wd_streams w)[i := s\<lparr>sm_pc := Sending e batch 0\<rparr>]\<rparr>)"
| fetch_error: "\<lbrakk>i < length (wd_streams w); s = wd_streams w ! i; sm_pc s = Fetching e; sm_key s = (name, p);
    store_read own name (sm_offset s) p BATCH tick (wd_state w) = (Inl err, st)\<rbrakk> \<Longrightarrow>
    live_step own w Progress (w\<lparr>wd_state := st, wd_streams := (wd_streams w)[i := s\<lparr>sm_pc := Ended\<rparr>]\<rparr>)"
| send: "\<lbrakk>i < length (wd_streams w); s = wd_streams w ! i; sm_pc s = Sending e batch j; j < length batch\<rbrakk> \<Longrightarrow>
    live_step own w Progress (w\<lparr>wd_streams := (wd_streams w)
      [i := s\<lparr>sm_sent := sm_sent s @ [batch ! j], sm_pc := Sending e batch (j + 1)\<rparr>]\<rparr>)"
| sent: "\<lbrakk>i < length (wd_streams w); s = wd_streams w ! i; sm_pc s = Sending e batch (length batch)\<rbrakk> \<Longrightarrow>
    live_step own w Progress (w\<lparr>wd_streams := (wd_streams w)[i := s\<lparr>sm_offset := next_offset (sm_offset s) batch,
      sm_pc := after_batch (tl_closed (wd_tail w)) e batch\<rparr>]\<rparr>)"
| wake: "\<lbrakk>i < length (wd_streams w); s = wd_streams w ! i; sm_pc s = Waiting e; e \<in> set (tl_set (wd_tail w))\<rbrakk> \<Longrightarrow>
    live_step own w Progress (w\<lparr>wd_streams := (wd_streams w)[i := s\<lparr>sm_pc := after_wait (tl_closed (wd_tail w))\<rparr>]\<rparr>)"
| timeout: "\<lbrakk>i < length (wd_streams w); s = wd_streams w ! i; sm_pc s = Waiting e\<rbrakk> \<Longrightarrow>
    live_step own w Timeout (w\<lparr>wd_streams := (wd_streams w)[i := s\<lparr>sm_pc := after_wait (tl_closed (wd_tail w))\<rparr>]\<rparr>)"
| stored: "store_write own name key val ts part now_ns tick (wd_state w) = (Inr (p, off), st) \<Longrightarrow>
    live_step own w Outside (w\<lparr>wd_state := st, wd_pending := (name, p) # wd_pending w\<rparr>)"
| store_error: "store_write own name key val ts part now_ns tick (wd_state w) = (Inl err, st) \<Longrightarrow>
    live_step own w Outside (w\<lparr>wd_state := st\<rparr>)"
| notify: "k \<in> set (wd_pending w) \<Longrightarrow>
    live_step own w Progress (w\<lparr>wd_state := store_notify k (wd_state w), wd_pending := remove1 k (wd_pending w)\<rparr>)"
| shut: "live_step own w Outside (w\<lparr>wd_state := close_tail (wd_state w)\<rparr>)"
| close_logs: "in_topics topics_close (wd_state w) = (res, st) \<Longrightarrow>
    live_step own w Outside (w\<lparr>wd_state := st\<rparr>)"

inductive live_run :: "(string \<Rightarrow> int \<Rightarrow> bool) \<Rightarrow> world \<Rightarrow> world \<Rightarrow> bool" for own where
  start: "live_run own w w"
| more: "live_run own w w1 \<Longrightarrow> live_step own w1 l w2 \<Longrightarrow> live_run own w w2"

inductive_cases progressE: "live_step own w Progress w'"

definition world_start :: "store_state \<Rightarrow> world" where
  "world_start s = \<lparr>wd_state = s, wd_pending = [], wd_streams = []\<rparr>"

section \<open>The records from an offset on\<close>

definition from_offset :: "offset \<times> log_record list \<Rightarrow> offset \<Rightarrow> log_record list" where
  "from_offset c off = drop (nat (off - fst c)) (snd c)"

lemma from_offset_snoc: "prefix (from_offset (b, rs) off) (from_offset (b, rs @ [r]) off)"
  by (simp add: from_offset_def)

lemma from_offset_step:
  assumes "fst c \<le> off" "prefix xs (from_offset c off)"
  shows "from_offset c (off + int (length xs)) = drop (length xs) (from_offset c off)"
proof -
  have "nat (off + int (length xs) - fst c) = length xs + nat (off - fst c)" using assms(1) by linarith
  then show ?thesis by (simp add: from_offset_def)
qed

text \<open>The offsets of a partition's records count up from its base.\<close>

lemma contents_sequential:
  assumes "store_ok own C s"
  shows "sequential (fst (C n p)) (snd (C n p))"
proof -
  have "on_disk (C n p) (part_dir n p (snd s))"
    using assms by (simp add: store_ok_def) (metis snd_conv topics_ok_on_disk)
  then show ?thesis by (rule on_disk_sequential)
qed

lemma next_offset_batch:
  assumes seq: "sequential (fst c) (snd c)" and le: "fst c \<le> off"
    and batch: "prefix batch (from_offset c off)"
  shows "next_offset off batch = off + int (length batch)"
proof (cases "batch = []")
  case False
  let ?i = "nat (off - fst c) + (length batch - 1)"
  obtain rest where rest: "from_offset c off = batch @ rest" using batch by (auto simp: prefix_def)
  have len: "length batch \<le> length (snd c) - nat (off - fst c)"
    using arg_cong [OF rest, of length] by (simp add: from_offset_def)
  then have i: "?i < length (snd c)" using False by (cases batch) auto
  have "last batch = from_offset c off ! (length batch - 1)"
    using False by (simp add: rest nth_append last_conv_nth)
  also have "\<dots> = snd c ! ?i" using i by (simp add: from_offset_def)
  finally have "rec_offset (last batch) = fst c + int ?i" using sequential_nth [OF seq i] by simp
  then show ?thesis using False le by (cases batch) (simp_all add: next_offset_def)
qed (simp add: next_offset_def)

section \<open>The invariant of a stream\<close>

text \<open>The event a stream holds will be set by the next notification, or is set.\<close>

definition hooked :: "tail \<Rightarrow> part_key \<Rightarrow> event \<Rightarrow> bool" where
  "hooked tw k e \<longleftrightarrow> armed tw k e \<or> e \<in> set (tl_set tw)"

text \<open>A stream that is behind \<open>off\<close> has its event set or a notification under way.\<close>

definition covered :: "offset \<times> log_record list \<Rightarrow> tail \<Rightarrow> part_key list \<Rightarrow> part_key \<Rightarrow> event \<Rightarrow> offset \<Rightarrow> bool" where
  "covered c tw pend k e off \<longleftrightarrow> e \<in> set (tl_set tw) \<or> k \<in> set pend \<or> fst c + int (length (snd c)) \<le> off"

text \<open>
  What was sent are the records from the offset asked for, and the stream's offset is after them; a batch
  being sent comes next.
\<close>

fun pc_ok :: "offset \<times> log_record list \<Rightarrow> tail \<Rightarrow> part_key list \<Rightarrow> stream \<Rightarrow> pc \<Rightarrow> bool" where
  "pc_ok c tw pend s Subscribing \<longleftrightarrow> sm_offset s = sm_start s + int (length (sm_sent s))"
| "pc_ok c tw pend s (Fetching e) \<longleftrightarrow> sm_offset s = sm_start s + int (length (sm_sent s)) \<and> hooked tw (sm_key s) e"
| "pc_ok c tw pend s (Sending e batch j) \<longleftrightarrow> (\<exists>pre. sm_sent s = pre @ take j batch
      \<and> sm_offset s = sm_start s + int (length pre) \<and> j \<le> length batch
      \<and> fst c \<le> sm_start s \<and> prefix (pre @ batch) (from_offset c (sm_start s))
      \<and> hooked tw (sm_key s) e
      \<and> (int (length batch) \<noteq> BATCH \<longrightarrow> covered c tw pend (sm_key s) e (sm_offset s + int (length batch))))"
| "pc_ok c tw pend s (Waiting e) \<longleftrightarrow> sm_offset s = sm_start s + int (length (sm_sent s))
      \<and> hooked tw (sm_key s) e \<and> covered c tw pend (sm_key s) e (sm_offset s) \<and> (tl_closed tw \<longrightarrow> e \<in> set (tl_set tw))"
| "pc_ok c tw pend s Ended \<longleftrightarrow> True"

definition stream_ok :: "offset \<times> log_record list \<Rightarrow> tail \<Rightarrow> part_key list \<Rightarrow> stream \<Rightarrow> bool" where
  "stream_ok c tw pend s \<longleftrightarrow> prefix (sm_sent s) (from_offset c (sm_start s))
     \<and> (sm_sent s = [] \<or> fst c \<le> sm_start s) \<and> pc_ok c tw pend s (sm_pc s)"

abbreviation contents_at :: "contents \<Rightarrow> part_key \<Rightarrow> offset \<times> log_record list" where
  "contents_at C k \<equiv> C (fst k) (snd k)"

definition world_ok :: "(string \<Rightarrow> int \<Rightarrow> bool) \<Rightarrow> contents \<Rightarrow> world \<Rightarrow> bool" where
  "world_ok own C w \<longleftrightarrow> store_ok own C (wd_state w)
     \<and> (\<forall>s \<in> set (wd_streams w). stream_ok (contents_at C (sm_key s)) (wd_tail w) (wd_pending w) s)"

section \<open>What keeps it\<close>

lemma pc_ok_mono:
  assumes "pc_ok c tw pend s x"
    and "\<And>e. hooked tw (sm_key s) e \<Longrightarrow> hooked tw' (sm_key s) e"
    and "\<And>e off. hooked tw (sm_key s) e \<Longrightarrow> covered c tw pend (sm_key s) e off \<Longrightarrow> covered c' tw' pend' (sm_key s) e off"
    and "fst c' = fst c" and "prefix (snd c) (snd c')"
    and "\<And>e. hooked tw (sm_key s) e \<Longrightarrow> (tl_closed tw \<longrightarrow> e \<in> set (tl_set tw)) \<Longrightarrow> tl_closed tw' \<Longrightarrow> e \<in> set (tl_set tw')"
  shows "pc_ok c' tw' pend' s x"
proof -
  have p: "prefix (from_offset c off) (from_offset c' off)" for off
    using assms(4,5) by (auto simp: from_offset_def prefix_def)
  show ?thesis
  proof (cases x)
    case (Sending e batch j)
    with assms(1) obtain pre where pre: "sm_sent s = pre @ take j batch"
      "sm_offset s = sm_start s + int (length pre)" "j \<le> length batch" "fst c \<le> sm_start s"
      "prefix (pre @ batch) (from_offset c (sm_start s))" "hooked tw (sm_key s) e"
      "int (length batch) \<noteq> BATCH \<longrightarrow> covered c tw pend (sm_key s) e (sm_offset s + int (length batch))" by auto
    have "prefix (pre @ batch) (from_offset c' (sm_start s))" using pre(5) p prefix_order.trans by blast
    with pre assms(2,3,4) show ?thesis unfolding Sending pc_ok.simps by (intro exI [where x = pre]) auto
  next
    case (Waiting e)
    with assms(1,2,3,6) show ?thesis by auto
  next
    case (Fetching e)
    with assms(1,2) show ?thesis by auto
  qed (use assms(1) in auto)
qed

lemma stream_ok_mono:
  assumes "stream_ok c tw pend s"
    and "\<And>e. hooked tw (sm_key s) e \<Longrightarrow> hooked tw' (sm_key s) e"
    and "\<And>e off. hooked tw (sm_key s) e \<Longrightarrow> covered c tw pend (sm_key s) e off \<Longrightarrow> covered c' tw' pend' (sm_key s) e off"
    and "fst c' = fst c" and "prefix (snd c) (snd c')"
    and "\<And>e. hooked tw (sm_key s) e \<Longrightarrow> (tl_closed tw \<longrightarrow> e \<in> set (tl_set tw)) \<Longrightarrow> tl_closed tw' \<Longrightarrow> e \<in> set (tl_set tw')"
  shows "stream_ok c' tw' pend' s"
proof -
  have p: "prefix (from_offset c (sm_start s)) (from_offset c' (sm_start s))"
    using assms(4,5) by (auto simp: from_offset_def prefix_def)
  have s: "prefix (sm_sent s) (from_offset c (sm_start s))" "sm_sent s = [] \<or> fst c \<le> sm_start s"
    "pc_ok c tw pend s (sm_pc s)" using assms(1) by (simp_all add: stream_ok_def)
  show ?thesis unfolding stream_ok_def
  proof (intro conjI)
    show "prefix (sm_sent s) (from_offset c' (sm_start s))" using s(1) p by (rule prefix_order.trans)
    show "sm_sent s = [] \<or> fst c' \<le> sm_start s" using s(2) assms(4) by simp
    show "pc_ok c' tw' pend' s (sm_pc s)" by (rule pc_ok_mono [OF s(3) assms(2-6)])
  qed
qed

section \<open>Every step keeps it\<close>

lemma world_ok_update:
  assumes "store_ok own C (wd_state w)" "stream_ok (contents_at C (sm_key s')) (wd_tail w) (wd_pending w) s'"
    and "\<And>s. s \<in> set ss \<Longrightarrow> stream_ok (contents_at C (sm_key s)) (wd_tail w) (wd_pending w) s"
    and "wd_streams w = ss[i := s']"
  shows "world_ok own C w"
  using assms set_update_subset_insert [of ss i s'] unfolding world_ok_def by auto

lemma world_okD:
  assumes "world_ok own C w"
  shows "store_ok own C (wd_state w)"
    "s \<in> set (wd_streams w) \<Longrightarrow> stream_ok (contents_at C (sm_key s)) (wd_tail w) (wd_pending w) s"
  using assms by (auto simp: world_ok_def)

lemma set_tail_simps [simp]:
  "so_tail (fst (set_tail tw s)) = tw" "snd (set_tail tw s) = snd s" "so_topics (fst (set_tail tw s)) = so_topics (fst s)"
  by (simp_all add: set_tail_def)

lemma tail_subscribe_hooked:
  assumes "tail_subscribe k tw = (e, tw')"
  shows "hooked tw' k e" "hooked tw k' e' \<Longrightarrow> hooked tw' k' e'" "tl_set tw' = tl_set tw" "tl_closed tw' = tl_closed tw"
  using subscribe_armed [OF assms] subscribe_keeps [OF assms] unfolding hooked_def by simp_all blast

lemma subscribe_step:
  assumes ok: "world_ok own C w" and i: "i < length (wd_streams w)" "s = wd_streams w ! i" "sm_pc s = Subscribing"
    and sub: "tail_subscribe (sm_key s) (wd_tail w) = (e, tw)"
  shows "world_ok own C (w\<lparr>wd_state := set_tail tw (wd_state w), wd_streams := (wd_streams w)[i := s\<lparr>sm_pc := Fetching e\<rparr>]\<rparr>)"
proof (rule world_ok_update [where ss = "wd_streams w" and i = i and s' = "s\<lparr>sm_pc := Fetching e\<rparr>"])
  note H = tail_subscribe_hooked [OF sub]
  have "tail_ok tw" using tail_ok_subscribe [of "wd_tail w" "sm_key s"] world_okD(1) [OF ok] sub by (simp add: store_ok_def)
  then show "store_ok own C (wd_state (w\<lparr>wd_state := set_tail tw (wd_state w), wd_streams := (wd_streams w)[i := s\<lparr>sm_pc := Fetching e\<rparr>]\<rparr>))"
    using world_okD(1) [OF ok] by (simp add: store_ok_def)
  have "stream_ok (contents_at C (sm_key s)) (wd_tail w) (wd_pending w) s" using world_okD(2) [OF ok] i by simp
  then show "stream_ok (contents_at C (sm_key (s\<lparr>sm_pc := Fetching e\<rparr>)))
      (wd_tail (w\<lparr>wd_state := set_tail tw (wd_state w), wd_streams := (wd_streams w)[i := s\<lparr>sm_pc := Fetching e\<rparr>]\<rparr>))
      (wd_pending (w\<lparr>wd_state := set_tail tw (wd_state w), wd_streams := (wd_streams w)[i := s\<lparr>sm_pc := Fetching e\<rparr>]\<rparr>))
      (s\<lparr>sm_pc := Fetching e\<rparr>)"
    using i(3) H(1) by (simp add: stream_ok_def)
  fix r assume "r \<in> set (wd_streams w)"
  from world_okD(2) [OF ok this] show "stream_ok (contents_at C (sm_key r))
      (wd_tail (w\<lparr>wd_state := set_tail tw (wd_state w), wd_streams := (wd_streams w)[i := s\<lparr>sm_pc := Fetching e\<rparr>]\<rparr>))
      (wd_pending (w\<lparr>wd_state := set_tail tw (wd_state w), wd_streams := (wd_streams w)[i := s\<lparr>sm_pc := Fetching e\<rparr>]\<rparr>)) r"
    by (rule stream_ok_mono) (auto simp: H covered_def)
qed simp

text \<open>A step that only moves one stream.\<close>

lemma stream_step:
  assumes ok: "world_ok own C w" and s: "stream_ok (contents_at C k) (wd_tail w) (wd_pending w) s" "sm_key s = k"
  shows "\<exists>C. world_ok own C (w\<lparr>wd_streams := (wd_streams w)[i := s]\<rparr>)"
  by (rule exI, rule world_ok_update [where ss = "wd_streams w" and i = i and s' = s])
    (use s world_okD [OF ok] in auto)

text \<open>A step of the store that leaves contents and tail alone keeps every stream.\<close>

lemma store_step:
  assumes ok: "world_ok own C w" and "store_ok own C st" "so_tail (fst st) = wd_tail w"
  shows "world_ok own C (w\<lparr>wd_state := st\<rparr>)"
  using assms by (simp add: world_ok_def)

lemma fetch_batch:
  assumes ok: "world_ok own C w" and s: "s \<in> set (wd_streams w)" "sm_pc s = Fetching e" "sm_key s = (name, p)"
    and rd: "store_read own name (sm_offset s) p BATCH tick (wd_state w) = (Inr batch, st)"
  shows "stream_ok (contents_at C (sm_key s)) (wd_tail w) (wd_pending w) (s\<lparr>sm_pc := Sending e batch 0\<rparr>)"
proof -
  let ?c = "C name p"
  from world_okD(2) [OF ok s(1)] s(2,3) have
    k: "prefix (sm_sent s) (from_offset ?c (sm_start s))" "sm_sent s = [] \<or> fst ?c \<le> sm_start s"
      "sm_offset s = sm_start s + int (length (sm_sent s))" "hooked (wd_tail w) (name, p) e"
    by (simp_all add: stream_ok_def)
  from store_read_decides [OF world_okD(1) [OF ok] rd] have
    b: "fst ?c \<le> sm_offset s" "batch = take 500 (from_offset ?c (sm_offset s))"
    by (auto simp: batch_of_def BATCH_def from_offset_def split: if_split_asm option.splits sum.splits)
  have le: "fst ?c \<le> sm_start s" using k(2,3) b(1) by auto
  have nxt: "from_offset ?c (sm_offset s) = drop (length (sm_sent s)) (from_offset ?c (sm_start s))"
    unfolding k(3) by (rule from_offset_step [OF le k(1)])
  have "prefix batch (from_offset ?c (sm_offset s))" by (simp add: b(2) take_is_prefix)
  then have "prefix (sm_sent s @ batch) (from_offset ?c (sm_start s))" using k(1) by (auto simp: nxt prefix_def)
  moreover have "covered ?c (wd_tail w) (wd_pending w) (name, p) e (sm_offset s + int (length batch))"
    if "int (length batch) \<noteq> BATCH"
  proof -
    have "length batch = length (from_offset ?c (sm_offset s))" using that by (auto simp: b(2) BATCH_def)
    then show ?thesis using b(1) by (auto simp: from_offset_def covered_def)
  qed
  ultimately show ?thesis using k s(3) le by (simp add: stream_ok_def)
qed

lemma sent_step:
  assumes ok: "world_ok own C w" and s: "s \<in> set (wd_streams w)" "sm_pc s = Sending e batch (length batch)"
  shows "stream_ok (contents_at C (sm_key s)) (wd_tail w) (wd_pending w)
    (s\<lparr>sm_offset := next_offset (sm_offset s) batch, sm_pc := after_batch (tl_closed (wd_tail w)) e batch\<rparr>)"
proof -
  let ?c = "contents_at C (sm_key s)"
  from world_okD(2) [OF ok s(1)] s(2) obtain pre where
    k: "sm_sent s = pre @ batch" "sm_offset s = sm_start s + int (length pre)" "fst ?c \<le> sm_start s"
      "prefix (pre @ batch) (from_offset ?c (sm_start s))" "hooked (wd_tail w) (sm_key s) e"
      "int (length batch) \<noteq> BATCH \<longrightarrow> covered ?c (wd_tail w) (wd_pending w) (sm_key s) e (sm_offset s + int (length batch))"
    by (auto simp: stream_ok_def)
  have pre: "prefix pre (from_offset ?c (sm_start s))" using k(4) by (auto simp: prefix_def)
  have "prefix batch (from_offset ?c (sm_offset s))"
    using k(4) unfolding k(2) from_offset_step [OF k(3) pre] by (auto simp: prefix_def)
  moreover have "fst ?c \<le> sm_offset s" using k(2,3) by simp
  ultimately have nxt: "next_offset (sm_offset s) batch = sm_offset s + int (length batch)"
    using next_offset_batch [OF contents_sequential [OF world_okD(1) [OF ok]]] by blast
  show ?thesis
    using k nxt by (auto simp: stream_ok_def after_batch_def)
qed

lemma send_step:
  assumes ok: "world_ok own C w" and s: "s \<in> set (wd_streams w)" "sm_pc s = Sending e batch j" "j < length batch"
  shows "stream_ok (contents_at C (sm_key s)) (wd_tail w) (wd_pending w)
    (s\<lparr>sm_sent := sm_sent s @ [batch ! j], sm_pc := Sending e batch (j + 1)\<rparr>)"
proof -
  let ?c = "contents_at C (sm_key s)"
  from world_okD(2) [OF ok s(1)] s(2) obtain pre where
    k: "sm_sent s = pre @ take j batch" "sm_offset s = sm_start s + int (length pre)" "fst ?c \<le> sm_start s"
      "prefix (pre @ batch) (from_offset ?c (sm_start s))" "hooked (wd_tail w) (sm_key s) e"
      "int (length batch) \<noteq> BATCH \<longrightarrow> covered ?c (wd_tail w) (wd_pending w) (sm_key s) e (sm_offset s + int (length batch))"
    by (auto simp: stream_ok_def)
  have sent: "take (Suc j) batch = take j batch @ [batch ! j]"
    using s(3) by (simp add: take_Suc_conv_app_nth)
  have "prefix (pre @ take (Suc j) batch) (pre @ batch)" by (simp add: take_is_prefix)
  then have "prefix (pre @ take (Suc j) batch) (from_offset ?c (sm_start s))"
    using k(4) by (rule prefix_order.trans)
  then show ?thesis using k s(3) unfolding stream_ok_def by (auto simp: sent intro!: exI [of _ pre])
qed

lemma woken_step:
  assumes "world_ok own C w" "s \<in> set (wd_streams w)" "sm_pc s = Waiting e"
  shows "stream_ok (contents_at C (sm_key s)) (wd_tail w) (wd_pending w) (s\<lparr>sm_pc := after_wait cl\<rparr>)"
  using world_okD(2) [OF assms(1,2)] assms(3) by (auto simp: stream_ok_def after_wait_def)

lemma ended_step:
  assumes "world_ok own C w" "s \<in> set (wd_streams w)"
  shows "stream_ok (contents_at C (sm_key s)) (wd_tail w) (wd_pending w) (s\<lparr>sm_pc := Ended\<rparr>)"
  using world_okD(2) [OF assms] by (simp add: stream_ok_def)

lemma stored_step:
  assumes ok: "world_ok own C w"
    and wr: "store_write own name key val ts part now_ns tick (wd_state w) = (Inr (p, off), st)"
  shows "world_ok own (put_contents name p (fst (C name p), snd (C name p) @ [stamped off key val ts now_ns]) C)
    (w\<lparr>wd_state := st, wd_pending := (name, p) # wd_pending w\<rparr>)"
proof -
  note k = store_write_ok [OF world_okD(1) [OF ok] wr]
  let ?C = "put_contents name p (fst (C name p), snd (C name p) @ [stamped off key val ts now_ns]) C"
  have "stream_ok (contents_at ?C (sm_key s)) (wd_tail w) ((name, p) # wd_pending w) s" if "s \<in> set (wd_streams w)" for s
    by (rule stream_ok_mono [OF world_okD(2) [OF ok that]]) (auto simp: covered_def)
  moreover have "store_ok own ?C st" "so_tail (fst st) = wd_tail w" using k [unfolded sum.case prod.case] by blast+
  ultimately show ?thesis unfolding world_ok_def by simp
qed

lemma notify_hooked: "hooked tw k e \<Longrightarrow> e \<in> set (tl_set (tail_notify k tw))"
  using notify_wakes [of tw k e] notify_keeps(2) [of e tw k] by (auto simp: hooked_def)

lemma notify_hooked_other: "hooked tw k' e \<Longrightarrow> hooked (tail_notify k tw) k' e"
  using notify_hooked [of tw k e] notify_keeps(1) [of k k' tw e] by (cases "k = k'") (auto simp: hooked_def)

lemma notify_step:
  assumes ok: "world_ok own C w"
  shows "world_ok own C (w\<lparr>wd_state := store_notify k (wd_state w), wd_pending := remove1 k (wd_pending w)\<rparr>)"
proof -
  let ?tw = "tail_notify k (wd_tail w)"
  have "stream_ok (contents_at C (sm_key s)) ?tw (remove1 k (wd_pending w)) s" if "s \<in> set (wd_streams w)" for s
  proof (rule stream_ok_mono [OF world_okD(2) [OF ok that]])
    fix e off
    assume h: "hooked (wd_tail w) (sm_key s) e"
      and c: "covered (contents_at C (sm_key s)) (wd_tail w) (wd_pending w) (sm_key s) e off"
    show "covered (contents_at C (sm_key s)) ?tw (remove1 k (wd_pending w)) (sm_key s) e off"
    proof (cases "k = sm_key s")
      case True
      with h show ?thesis using notify_hooked [of "wd_tail w" k e] by (simp add: covered_def)
    next
      case False
      with c notify_keeps(2) [of e "wd_tail w" k] show ?thesis by (auto simp: covered_def in_set_remove1)
    qed
  qed (use notify_hooked_other notify_keeps in auto)
  then show ?thesis using store_notify_ok [OF world_okD(1) [OF ok]] by (simp add: world_ok_def store_notify_def)
qed

lemma shut_step:
  assumes ok: "world_ok own C w"
  shows "world_ok own C (w\<lparr>wd_state := close_tail (wd_state w)\<rparr>)"
proof -
  have h: "e \<in> set (tl_set (tail_close (wd_tail w)))" if "hooked (wd_tail w) k e" for k e
    using that close_wakes(1) [of "wd_tail w" k e] close_wakes(2) [of e "wd_tail w"] by (auto simp: hooked_def)
  have "stream_ok (contents_at C (sm_key s)) (tail_close (wd_tail w)) (wd_pending w) s" if "s \<in> set (wd_streams w)" for s
    by (rule stream_ok_mono [OF world_okD(2) [OF ok that]]) (use h in \<open>auto simp: covered_def hooked_def\<close>)
  then show ?thesis using world_okD(1) [OF ok]
    by (simp add: world_ok_def close_tail_def store_ok_def tail_ok_close)
qed

lemma close_logs_step:
  assumes ok: "world_ok own C w" and cl: "in_topics topics_close (wd_state w) = (res, st)"
  shows "world_ok own C (w\<lparr>wd_state := st\<rparr>)"
proof -
  obtain so rt where s: "wd_state w = (so, rt)" by (cases "wd_state w")
  obtain r tp' rt' where c: "topics_close (so_topics so, rt) = (r, (tp', rt'))" by (metis prod_cases3)
  note D = store_okD [OF world_okD(1) [OF ok, unfolded s]]
  have "st = (so\<lparr>so_topics := tp'\<rparr>, rt')" using cl c by (simp add: in_topics_def s)
  moreover from topics_close_ok [OF D(1) c, of own] have "topics_ok own C (tp', rt')" by simp
  ultimately show ?thesis using D(2) by (intro store_step [OF ok]) (simp_all add: store_ok_def s)
qed

lemma live_step_keeps:
  assumes "live_step own w l w'" "world_ok own C w"
  shows "\<exists>C'. world_ok own C' w'"
  using assms
proof (induction rule: live_step.induct)
  case (connect w k off)
  have "stream_ok (contents_at C k) (wd_tail w) (wd_pending w) (stream_init k off)"
    by (simp add: stream_ok_def stream_init_def)
  with connect show ?case by (auto simp: world_ok_def stream_init_def)
next
  case (cancel i w)
  then have "wd_streams w ! i \<in> set (wd_streams w)" by simp
  from stream_step [OF cancel(2) ended_step [OF cancel(2) this]] show ?case by simp
next
  case (subscribe i w s e tw)
  then show ?case using subscribe_step [OF subscribe(5,1-4)] by blast
next
  case (fetch i w s e name p tick batch st)
  then have m: "s \<in> set (wd_streams w)" by simp
  note r = store_read_decides [OF world_okD(1) [OF fetch(6)] fetch(5)]
  from store_step [OF fetch(6), of st] r have ok: "world_ok own C (w\<lparr>wd_state := st\<rparr>)" by simp
  have "stream_ok (contents_at C (sm_key s)) (wd_tail (w\<lparr>wd_state := st\<rparr>)) (wd_pending (w\<lparr>wd_state := st\<rparr>))
      (s\<lparr>sm_pc := Sending e batch 0\<rparr>)"
    using fetch_batch [OF fetch(6) m fetch(3-5)] r by simp
  from stream_step [OF ok this] show ?case by simp
next
  case (fetch_error i w s e name p tick err st)
  then have m: "s \<in> set (wd_streams (w\<lparr>wd_state := st\<rparr>))" by simp
  from store_step [OF fetch_error(6), of st] store_read_decides [OF world_okD(1) [OF fetch_error(6)] fetch_error(5)]
  have ok: "world_ok own C (w\<lparr>wd_state := st\<rparr>)" by simp
  from stream_step [OF ok ended_step [OF ok m]] show ?case by simp
next
  case (send i w s e batch j)
  then have m: "s \<in> set (wd_streams w)" by simp
  from stream_step [OF send(5) send_step [OF send(5) m send(3,4)]] show ?case by simp
next
  case (sent i w s e batch)
  then have m: "s \<in> set (wd_streams w)" by simp
  from stream_step [OF sent(4) sent_step [OF sent(4) m sent(3)]] show ?case by simp
next
  case (wake i w s e)
  then have m: "s \<in> set (wd_streams w)" by simp
  from stream_step [OF wake(5) woken_step [OF wake(5) m wake(3)]] show ?case by simp
next
  case (timeout i w s e)
  then have m: "s \<in> set (wd_streams w)" by simp
  from stream_step [OF timeout(4) woken_step [OF timeout(4) m timeout(3)]] show ?case by simp
next
  case (stored name key val ts part now_ns tick w p off st)
  then show ?case using stored_step [OF stored(2,1)] by blast
next
  case (store_error name key val ts part now_ns tick w err st)
  from store_write_ok [OF world_okD(1) [OF store_error(2)] store_error(1)]
  show ?case using store_step [OF store_error(2), of st] by auto
next
  case (notify k w)
  then show ?case using notify_step by blast
next
  case (shut w)
  then show ?case using shut_step by blast
next
  case (close_logs w res st)
  then show ?case using close_logs_step by blast
qed

lemma live_run_ok:
  assumes "live_run own w w'" "world_ok own C w"
  shows "\<exists>C'. world_ok own C' w'"
  using assms
proof (induction rule: live_run.induct)
  case (more w w1 l w2)
  then show ?case using live_step_keeps by blast
qed blast

lemma world_start_ok: "store_ok own C s \<Longrightarrow> world_ok own C (world_start s)"
  by (simp add: world_ok_def world_start_def)

section \<open>Properties\<close>

text \<open>
  Property C16. What a live stream has sent is exact at every moment, however its steps interleave with
  appends, other streams and the shutdown: reading the partition now from the offset the client asked
  for gives the records it has sent, in order and without gap or repetition, and then those still to come.
\<close>

theorem stream_sends_exactly:
  assumes "store_ok own C s0" and "live_run own (world_start s0) w" and "s \<in> set (wd_streams w)"
    and "store_read own (fst (sm_key s)) (sm_start s) (snd (sm_key s)) 0 tick (wd_state w) = (Inr rs, st)"
  shows "prefix (sm_sent s) rs"
proof -
  from live_run_ok [OF assms(2) world_start_ok [OF assms(1)]] obtain C' where ok: "world_ok own C' w" by blast
  have "rs = from_offset (contents_at C' (sm_key s)) (sm_start s)"
    using store_read_decides [OF world_okD(1) [OF ok] assms(4)]
    by (auto simp: batch_of_def from_offset_def split: if_split_asm option.splits sum.splits)
  with world_okD(2) [OF ok assms(3)] show ?thesis by (simp add: stream_ok_def)
qed

text \<open>
  Property C17. No wake-up is lost: if a stream waits while there are records after its offset, its event
  is set, or a notification is under way that sets it. The timeout is never what saves a stream.
\<close>

theorem no_lost_wakeup:
  assumes "store_ok own C s0" and "live_run own (world_start s0) w" and "s \<in> set (wd_streams w)"
    and "sm_pc s = Waiting e"
    and "store_read own (fst (sm_key s)) (sm_offset s) (snd (sm_key s)) 0 tick (wd_state w) = (Inr (r # rs), st)"
  shows "e \<in> set (tl_set (wd_tail w))
    \<or> (sm_key s \<in> set (wd_pending w) \<and> e \<in> set (tl_set (tail_notify (sm_key s) (wd_tail w))))"
proof -
  from live_run_ok [OF assms(2) world_start_ok [OF assms(1)]] obtain C' where ok: "world_ok own C' w" by blast
  let ?c = "contents_at C' (sm_key s)"
  have rs: "r # rs = from_offset ?c (sm_offset s)"
    using store_read_decides [OF world_okD(1) [OF ok] assms(5)]
    by (auto simp: batch_of_def from_offset_def split: if_split_asm option.splits sum.splits)
  then have "\<not> fst ?c + int (length (snd ?c)) \<le> sm_offset s"
    using arg_cong [OF rs, of length] by (auto simp: from_offset_def)
  with world_okD(2) [OF ok assms(3)] assms(4) show ?thesis
    using notify_hooked by (auto simp: stream_ok_def covered_def)
qed

text \<open>
  Property C18. When a broker comes to rest, every live stream has everything: in a state where no stream
  and no notification can make progress without an append from outside or a timeout, each stream that has
  not ended has sent all the records of its partition from the offset asked for on, if there are any.
\<close>

theorem rest_means_delivered:
  assumes "store_ok own C s0" and "live_run own (world_start s0) w" and "\<And>w'. \<not> live_step own w Progress w'"
    and "s \<in> set (wd_streams w)" and "sm_pc s \<noteq> Ended"
    and "store_read own (fst (sm_key s)) (sm_start s) (snd (sm_key s)) 0 tick (wd_state w) = (Inr rs, st)"
  shows "sm_sent s = rs"
proof -
  from live_run_ok [OF assms(2) world_start_ok [OF assms(1)]] obtain C' where ok: "world_ok own C' w" by blast
  let ?c = "contents_at C' (sm_key s)"
  obtain i where i: "i < length (wd_streams w)" "s = wd_streams w ! i" using assms(4) by (metis in_set_conv_nth)
  obtain e where e: "sm_pc s = Waiting e"
  proof (cases "sm_pc s")
    case Subscribing
    then show ?thesis using live_step.subscribe [OF i Subscribing] assms(3) by (metis surj_pair)
  next
    case (Fetching e)
    obtain name p where k: "sm_key s = (name, p)" by (cases "sm_key s")
    obtain res st where r: "store_read own name (sm_offset s) p BATCH 0 (wd_state w) = (res, st)" by (meson surj_pair)
    show ?thesis
      using live_step.fetch [OF i Fetching k] live_step.fetch_error [OF i Fetching k] r assms(3)
      by (cases res) blast+
  next
    case (Sending e batch j)
    from world_okD(2) [OF ok assms(4)] Sending have "j \<le> length batch" by (auto simp: stream_ok_def)
    then show ?thesis
      using live_step.send [OF i Sending] live_step.sent [OF i, of e batch] Sending assms(3)
      by (cases "j < length batch") auto
  qed (use assms(5) that in auto)
  have "e \<notin> set (tl_set (wd_tail w))" using live_step.wake [OF i e] assms(3) by blast
  moreover have "wd_pending w = []" using live_step.notify [of _ w] assms(3) by (cases "wd_pending w") auto
  ultimately have caught: "fst ?c + int (length (snd ?c)) \<le> sm_offset s"
    "sm_offset s = sm_start s + int (length (sm_sent s))" "prefix (sm_sent s) (from_offset ?c (sm_start s))"
    using world_okD(2) [OF ok assms(4)] e by (auto simp: stream_ok_def covered_def)
  have rs: "fst ?c \<le> sm_start s" "rs = from_offset ?c (sm_start s)"
    using store_read_decides [OF world_okD(1) [OF ok] assms(6)]
    by (auto simp: batch_of_def from_offset_def split: if_split_asm option.splits sum.splits)
  have "length (from_offset ?c (sm_start s)) \<le> length (sm_sent s)"
    using caught(1,2) rs(1) by (auto simp: from_offset_def)
  then show ?thesis using caught(3) rs(2) by (auto simp: prefix_def)
qed

text \<open>
  Property C19. Shutdown leaves no stream parked: once \<open>Store.close\<close> has released the waiters, every
  stream that waits has its event set, and waking up ends it; none that subscribes later waits at all.
\<close>

theorem shutdown_releases_streams:
  assumes "store_ok own C s0" and "live_run own (world_start s0) w" and "tl_closed (wd_tail w)"
    and "s \<in> set (wd_streams w)"
  shows "(sm_pc s = Waiting e \<longrightarrow> e \<in> set (tl_set (wd_tail w)) \<and> after_wait (tl_closed (wd_tail w)) = Ended)
    \<and> (sm_pc s = Sending e batch (length batch) \<longrightarrow>
        after_batch (tl_closed (wd_tail w)) e batch \<in> {Subscribing, Ended})"
proof -
  from live_run_ok [OF assms(2) world_start_ok [OF assms(1)]] obtain C' where ok: "world_ok own C' w" by blast
  from world_okD(2) [OF ok assms(4)] assms(3) show ?thesis
    by (auto simp: stream_ok_def after_wait_def after_batch_def)
qed

section \<open>Concrete runs\<close>

text \<open>A stream on a partition with at most one record follows it to the end and waits.\<close>

lemma follow_idle:
  assumes ok: "store_ok own C s0" and tail: "so_tail (fst s0) = tail_init"
    and here: "is_valid_name name" "metas (snd s0) name = Some (Inr n)" "0 \<le> p" "p < n" "own name p"
    and C: "C name p = (0, rs)" "length rs \<le> 1"
  obtains w where "live_run own (world_start s0) w" "store_ok own C (wd_state w)"
    "metas (snd (wd_state w)) = metas (snd s0)"
    "wd_streams w = [\<lparr>sm_key = (name, p), sm_start = 0, sm_offset = int (length rs), sm_sent = rs, sm_pc = Waiting 0\<rparr>]"
    "wd_pending w = []" "tl_set (wd_tail w) = []" "\<not> tl_closed (wd_tail w)"
proof -
  let ?k = "(name, p)" and ?s = "stream_init (name, p) 0"
  obtain e tw where sub: "tail_subscribe ?k tail_init = (e, tw)" by (meson surj_pair)
  then have tw: "e = 0" "tl_set tw = []" "\<not> tl_closed tw" by (auto simp: tail_subscribe_def tail_init_def)
  define w1 where "w1 = (world_start s0)\<lparr>wd_streams := [?s]\<rparr>"
  define s2 where "s2 = ?s\<lparr>sm_pc := Fetching 0\<rparr>"
  define w2 where "w2 = w1\<lparr>wd_state := set_tail tw s0, wd_streams := [s2]\<rparr>"
  have 1: "live_step own (world_start s0) Outside w1"
    using live_step.connect [of own "world_start s0" ?k 0] by (simp add: w1_def world_start_def)
  have 2: "live_step own w1 Progress w2"
    using live_step.subscribe [of 0 w1 ?s e tw own] sub tw(1) tail
    by (simp add: w2_def w1_def s2_def stream_init_def world_start_def)
  have "tail_ok tw" using tail_ok_subscribe [OF tail_ok_init, of ?k] sub by simp
  then have ok2: "store_ok own C (wd_state w2)" using ok by (simp add: store_ok_def w2_def)
  obtain res st where rd: "store_read own name 0 p BATCH 0 (wd_state w2) = (res, st)" by (meson surj_pair)
  note r = store_read_decides [OF ok2 rd]
  have r': "res = Inr rs" "store_ok own C st" "so_tail (fst st) = tw" "metas (snd st) = metas (snd s0)"
    using r here C by (auto simp: w2_def batch_of_def BATCH_def)
  define s3 where "s3 = s2\<lparr>sm_pc := Sending 0 rs 0\<rparr>"
  define w3 where "w3 = w2\<lparr>wd_state := st, wd_streams := [s3]\<rparr>"
  have 3: "live_step own w2 Progress w3"
    using live_step.fetch [of 0 w2 s2 0 name p own 0 rs st] rd r'(1)
    by (simp add: w3_def s3_def w2_def s2_def stream_init_def)
  define s4 where "s4 = s3\<lparr>sm_sent := rs, sm_pc := Sending 0 rs (length rs)\<rparr>"
  define w4 where "w4 = w3\<lparr>wd_streams := [s4]\<rparr>"
  have 4: "live_run own (world_start s0) w4"
  proof (cases rs)
    case Nil
    then have "w4 = w3" by (simp add: w4_def s4_def w3_def s3_def s2_def stream_init_def)
    with 1 2 3 show ?thesis by (metis live_run.intros)
  next
    case (Cons r rest)
    then have rs: "rs = [r]" using C(2) by simp
    have "live_step own w3 Progress w4"
      using live_step.send [of 0 w3 s3 0 rs 0 own]
      by (simp add: w4_def s4_def w3_def s3_def s2_def stream_init_def rs)
    with 1 2 3 show ?thesis by (metis live_run.intros)
  qed
  have "sequential 0 rs" using contents_sequential [OF ok, of name p] C(1) by simp
  then have nxt: "next_offset 0 rs = int (length rs)" using C(2) by (cases rs) (auto simp: next_offset_def)
  define w5 where "w5 = w4\<lparr>wd_streams := [s4\<lparr>sm_offset := int (length rs), sm_pc := Waiting 0\<rparr>]\<rparr>"
  have "live_step own w4 Progress w5"
    using live_step.sent [of 0 w4 s4 0 rs own] nxt tw(3) r'(3) C(2)
    by (simp add: w5_def w4_def s4_def w3_def s3_def s2_def stream_init_def after_batch_def BATCH_def)
  with 4 have run: "live_run own (world_start s0) w5" by (rule live_run.more)
  show ?thesis
    by (rule that [OF run]) (use r' tw in \<open>simp_all add: w5_def w4_def w3_def w2_def w1_def s4_def s3_def s2_def
        stream_init_def world_start_def\<close>)
qed

lemma sample_one_record:
  obtains s0 where "store_ok all_mine (put_contents ''a'' 0 (0, [sample_stamped]) empty_contents) s0"
    "so_tail (fst s0) = tail_init" "metas (snd s0) ''a'' = Some (Inr 2)"
proof -
  obtain st' where "topics_ok all_mine (put_contents ''a'' 0 (0, [sample_stamped]) empty_contents) st'"
    "metas (snd st') ''a'' = Some (Inr 2)" by (rule sample_append)
  then show ?thesis
    by (intro that [of "(sample_store\<lparr>so_topics := fst st'\<rparr>, snd st')"]) (simp_all add: store_ok_def)
qed

lemma sample_no_record:
  obtains s0 where "store_ok all_mine empty_contents s0"
    "so_tail (fst s0) = tail_init" "metas (snd s0) ''a'' = Some (Inr 2)"
proof -
  obtain st where "topics_ok all_mine empty_contents st" "metas (snd st) ''a'' = Some (Inr 2)" by (rule sample_create)
  then show ?thesis
    by (intro that [of "(sample_store\<lparr>so_topics := fst st\<rparr>, snd st)"]) (simp_all add: store_ok_def)
qed

lemma sample_followed:
  obtains s0 w rs st where "store_ok all_mine (put_contents ''a'' 0 (0, [sample_stamped]) empty_contents) s0"
    "live_run all_mine (world_start s0) w"
    "wd_streams w = [\<lparr>sm_key = (''a'', 0), sm_start = 0, sm_offset = 1, sm_sent = [sample_stamped], sm_pc = Waiting 0\<rparr>]"
    "wd_pending w = []" "tl_set (wd_tail w) = []" "\<not> tl_closed (wd_tail w)"
    "store_read all_mine ''a'' 0 0 0 0 (wd_state w) = (Inr [sample_stamped], st)"
proof -
  let ?C = "put_contents ''a'' 0 (0, [sample_stamped]) empty_contents"
  obtain s0 where s0: "store_ok all_mine ?C s0" "so_tail (fst s0) = tail_init" "metas (snd s0) ''a'' = Some (Inr 2)"
    by (rule sample_one_record)
  obtain w where w: "live_run all_mine (world_start s0) w" "store_ok all_mine ?C (wd_state w)"
    "metas (snd (wd_state w)) = metas (snd s0)"
    "wd_streams w = [\<lparr>sm_key = (''a'', 0), sm_start = 0, sm_offset = int (length [sample_stamped]),
      sm_sent = [sample_stamped], sm_pc = Waiting 0\<rparr>]"
    "wd_pending w = []" "tl_set (wd_tail w) = []" "\<not> tl_closed (wd_tail w)"
    by (rule follow_idle [OF s0(1,2) name_a s0(3), of 0 "[sample_stamped]"]) (auto simp: all_mine_def)
  obtain res st where rd: "store_read all_mine ''a'' 0 0 0 0 (wd_state w) = (res, st)" by (meson surj_pair)
  have "res = Inr [sample_stamped]"
    using store_read_decides [OF w(2) rd] w(3) s0(3) by (simp add: all_mine_def batch_of_def)
  with rd w s0(1) show ?thesis by (intro that) auto
qed

theorem stream_sends_exactly_witness:
  "\<exists>s0 w st. live_run all_mine (world_start s0) w \<and> map sm_sent (wd_streams w) = [[sample_stamped]]
    \<and> store_read all_mine ''a'' 0 0 0 0 (wd_state w) = (Inr [sample_stamped], st)
    \<and> prefix (sm_sent (hd (wd_streams w))) [sample_stamped]"
proof -
  obtain s0 w st where *: "store_ok all_mine (put_contents ''a'' 0 (0, [sample_stamped]) empty_contents) s0"
    "live_run all_mine (world_start s0) w"
    "wd_streams w = [\<lparr>sm_key = (''a'', 0), sm_start = 0, sm_offset = 1, sm_sent = [sample_stamped], sm_pc = Waiting 0\<rparr>]"
    "store_read all_mine ''a'' 0 0 0 0 (wd_state w) = (Inr [sample_stamped], st)"
    by (rule sample_followed)
  from stream_sends_exactly [OF *(1,2), of "hd (wd_streams w)" 0 "[sample_stamped]" st] *
  have "prefix (sm_sent (hd (wd_streams w))) [sample_stamped]" "map sm_sent (wd_streams w) = [[sample_stamped]]" by simp_all
  with *(2,4) show ?thesis by (intro exI [where x = s0] exI [where x = w] exI [where x = st]) simp
qed

theorem rest_means_delivered_witness:
  "\<exists>s0 w st. live_run all_mine (world_start s0) w \<and> (\<forall>w'. \<not> live_step all_mine w Progress w')
    \<and> store_read all_mine ''a'' 0 0 0 0 (wd_state w) = (Inr [sample_stamped], st)
    \<and> sm_sent (hd (wd_streams w)) = [sample_stamped]"
proof -
  obtain s0 w st where *: "store_ok all_mine (put_contents ''a'' 0 (0, [sample_stamped]) empty_contents) s0"
    "live_run all_mine (world_start s0) w"
    "wd_streams w = [\<lparr>sm_key = (''a'', 0), sm_start = 0, sm_offset = 1, sm_sent = [sample_stamped], sm_pc = Waiting 0\<rparr>]"
    "wd_pending w = []" "tl_set (wd_tail w) = []"
    "store_read all_mine ''a'' 0 0 0 0 (wd_state w) = (Inr [sample_stamped], st)"
    by (rule sample_followed)
  have rest: "\<not> live_step all_mine w Progress w'" for w'
    using *(3-5) by (auto elim!: progressE)
  from rest_means_delivered [OF *(1,2) rest, of "hd (wd_streams w)" 0 "[sample_stamped]" st] *
  have "sm_sent (hd (wd_streams w)) = [sample_stamped]" by simp
  with *(2,6) rest show ?thesis by blast
qed

theorem shutdown_releases_streams_witness:
  "\<exists>s0 w. live_run all_mine (world_start s0) w \<and> tl_closed (wd_tail w)
    \<and> map sm_pc (wd_streams w) = [Waiting 0] \<and> 0 \<in> set (tl_set (wd_tail w))"
proof -
  obtain s0 w where *: "store_ok all_mine (put_contents ''a'' 0 (0, [sample_stamped]) empty_contents) s0"
    "live_run all_mine (world_start s0) w"
    "wd_streams w = [\<lparr>sm_key = (''a'', 0), sm_start = 0, sm_offset = 1, sm_sent = [sample_stamped], sm_pc = Waiting 0\<rparr>]"
    by (rule sample_followed)
  let ?w = "w\<lparr>wd_state := close_tail (wd_state w)\<rparr>"
  have run: "live_run all_mine (world_start s0) ?w" using *(2) live_step.shut by (rule live_run.more)
  have cl: "tl_closed (wd_tail ?w)" by (simp add: close_tail_def close_wakes(3))
  have "hd (wd_streams ?w) \<in> set (wd_streams ?w)" by (simp add: *(3))
  from shutdown_releases_streams [OF *(1) run cl this, of 0] *(3) run cl show ?thesis
    by (intro exI [where x = s0] exI [where x = ?w]) simp
qed

text \<open>A record arrives while the stream waits.\<close>

theorem no_lost_wakeup_witness:
  "\<exists>s0 w st. live_run all_mine (world_start s0) w \<and> map sm_pc (wd_streams w) = [Waiting 0]
    \<and> store_read all_mine ''a'' 0 0 0 0 (wd_state w) = (Inr [sample_stamped], st)
    \<and> 0 \<notin> set (tl_set (wd_tail w)) \<and> 0 \<in> set (tl_set (tail_notify (''a'', 0) (wd_tail w)))"
proof -
  let ?C = "put_contents ''a'' 0 (0, [sample_stamped]) empty_contents"
  obtain s0 where s0: "store_ok all_mine empty_contents s0" "so_tail (fst s0) = tail_init"
    "metas (snd s0) ''a'' = Some (Inr 2)" by (rule sample_no_record)
  obtain w where w: "live_run all_mine (world_start s0) w" "store_ok all_mine empty_contents (wd_state w)"
    "metas (snd (wd_state w)) = metas (snd s0)"
    "wd_streams w = [\<lparr>sm_key = (''a'', 0), sm_start = 0, sm_offset = int (length ([] :: log_record list)),
      sm_sent = [], sm_pc = Waiting 0\<rparr>]"
    "wd_pending w = []" "tl_set (wd_tail w) = []" "\<not> tl_closed (wd_tail w)"
    by (rule follow_idle [OF s0(1,2) name_a s0(3), of 0 "[]"]) (auto simp: all_mine_def empty_contents_def)
  obtain so rt where st: "wd_state w = (so, rt)" by (cases "wd_state w")
  note D = store_okD [OF w(2) [unfolded st]]
  obtain r tp' rt' where a: "topic_append all_mine ''a'' None (Some [97]) (Some 5) (Some 0) 0 0 (so_topics so, rt) = (r, (tp', rt'))"
    by (metis prod_cases3)
  have "metas (snd (so_topics so, rt)) ''a'' = Some (Inr 2)" using w(3) s0(3) by (simp add: st)
  from topic_append_decides [OF D(1) name_a this _ a, of 0 0] sample_encodable have
    r: "r = Inr (0, 0)" "topics_ok all_mine ?C (tp', rt')"
    by (simp_all add: destination_def all_mine_def empty_contents_def)
  from topic_append_keeps_meta [OF D(1) name_a \<open>metas (snd (so_topics so, rt)) ''a'' = Some (Inr 2)\<close> _ a]
  have metas: "metas rt' ''a'' = Some (Inr 2)" using w(3) s0(3) by (simp add: st)
  let ?st = "(so\<lparr>so_topics := tp'\<rparr>, rt')"
  let ?w = "w\<lparr>wd_state := ?st, wd_pending := (''a'', 0) # wd_pending w\<rparr>"
  have "store_write all_mine ''a'' None (Some [97]) (Some 5) (Some 0) 0 0 (wd_state w) = (Inr (0, 0), ?st)"
    using a r(1) by (simp add: store_write_def in_topics_def st)
  with w(1) have run: "live_run all_mine (world_start s0) ?w" by (rule live_run.more [OF _ live_step.stored])
  have ok: "store_ok all_mine ?C ?st" using r(2) D(2) by (simp add: store_ok_def)
  obtain res st where rd: "store_read all_mine ''a'' 0 0 0 0 ?st = (res, st)" by (meson surj_pair)
  have res: "res = Inr [sample_stamped]"
    using store_read_decides [OF ok rd] metas by (simp add: all_mine_def batch_of_def)
  have s: "hd (wd_streams ?w) \<in> set (wd_streams ?w)" "sm_pc (hd (wd_streams ?w)) = Waiting 0" by (simp_all add: w(4))
  have "store_read all_mine (fst (sm_key (hd (wd_streams ?w)))) (sm_offset (hd (wd_streams ?w)))
      (snd (sm_key (hd (wd_streams ?w)))) 0 0 (wd_state ?w) = (Inr [sample_stamped], st)"
    using rd res by (simp add: w(4))
  from no_lost_wakeup [OF s0(1) run s this] have
    "0 \<in> set (tl_set (tail_notify (''a'', 0) (wd_tail ?w)))" using w(4,6) st by auto
  moreover have "0 \<notin> set (tl_set (wd_tail ?w))" using w(6) st by simp
  moreover have "map sm_pc (wd_streams ?w) = [Waiting 0]" by (simp add: w(4))
  ultimately show ?thesis using run rd res
    by (intro exI [where x = s0] exI [where x = ?w] exI [where x = st]) simp
qed

end
