(* ===== verification/Handler.thy ===== *)
theory Handler
  imports Live_Tail Cluster_Ring
begin

text \<open>
  \<open>broker/handler.py\<close>: the gRPC methods as functions of the request and the store. An \<open>optional\<close> field of
  a message is an option (\<open>HasField\<close> asks whether it is there); \<open>context.abort\<close> and an exception that no
  handler catches (which gRPC reports as \<open>UNKNOWN\<close>) are the left values. \<open>bf\<close> is the ring's \<open>broker_for\<close>.
\<close>

section \<open>Messages\<close>

record produce_request =
  pq_topic :: string
  pq_key :: "bytes option"
  pq_value :: "bytes option"
  pq_timestamp :: "int option"
  pq_correlation :: "int option"
  pq_partition :: "int option"

record produce_response =
  pr_partition :: int
  pr_offset :: int
  pr_correlation :: "int option"

record consume_request =
  cq_topic :: string
  cq_partition :: int
  cq_offset :: int
  cq_follow :: bool
  cq_max_records :: int

record proto_record =
  po_offset :: int
  po_timestamp :: int
  po_key :: "bytes option"
  po_value :: "bytes option"

text \<open>Reading a field: its value, the type's default when it is not set.\<close>

definition has_field :: "'a option \<Rightarrow> bool" where
  "has_field f \<longleftrightarrow> f \<noteq> None"

definition field_value :: "'a \<Rightarrow> 'a option \<Rightarrow> 'a" where
  "field_value dflt f = (case f of None \<Rightarrow> dflt | Some v \<Rightarrow> v)"

definition req_key :: "produce_request \<Rightarrow> bytes option" where
  "req_key rq = (if has_field (pq_key rq) then Some (field_value [] (pq_key rq)) else None)"

definition req_value :: "produce_request \<Rightarrow> bytes option" where
  "req_value rq = (if has_field (pq_value rq) then Some (field_value [] (pq_value rq)) else None)"

definition req_timestamp :: "produce_request \<Rightarrow> int option" where
  "req_timestamp rq = (if has_field (pq_timestamp rq) then Some (field_value 0 (pq_timestamp rq)) else None)"

definition req_partition :: "produce_request \<Rightarrow> int option" where
  "req_partition rq = (if has_field (pq_partition rq) then Some (field_value 0 (pq_partition rq)) else None)"

definition to_proto :: "log_record \<Rightarrow> proto_record" where
  "to_proto r =
     (let m = \<lparr>po_offset = rec_offset r, po_timestamp = rec_timestamp r, po_key = None, po_value = None\<rparr>;
          m1 = (case rec_key r of None \<Rightarrow> m | Some k \<Rightarrow> m\<lparr>po_key := Some k\<rparr>)
      in (case rec_value r of None \<Rightarrow> m1 | Some v \<Rightarrow> m1\<lparr>po_value := Some v\<rparr>))"

lemma req_fields [simp]:
  "req_key rq = pq_key rq" "req_value rq = pq_value rq" "req_timestamp rq = pq_timestamp rq"
  "req_partition rq = pq_partition rq"
  by (auto simp: req_key_def req_value_def req_timestamp_def req_partition_def has_field_def field_value_def
      split: option.split)

lemma to_proto_fields [simp]:
  "po_offset (to_proto r) = rec_offset r" "po_timestamp (to_proto r) = rec_timestamp r"
  "po_key (to_proto r) = rec_key r" "po_value (to_proto r) = rec_value r"
  by (auto simp: to_proto_def Let_def split: option.split)

section \<open>Status\<close>

datatype rpc_error =
    Invalid_Argument py_error
  | Failed_Precondition int int string
  | Not_Found
  | Out_Of_Range
  | Unknown py_error

type_synonym 'a reply = "rpc_error + 'a"

text \<open>The predicate the store was built with. It asks about numbers from \<open>range\<close> and digits only.\<close>

definition ring_owns :: "'a broker_of \<Rightarrow> 'a ring_scheme \<Rightarrow> string \<Rightarrow> int \<Rightarrow> bool" where
  "ring_owns bf r name p \<longleftrightarrow> owns bf r name p = Inr True"

text \<open>The redirect: partition, owner and the owner's address.\<close>

definition redirect_to :: "'a broker_of \<Rightarrow> 'a ring_scheme \<Rightarrow> string \<Rightarrow> int \<Rightarrow> rpc_error" where
  "redirect_to bf r topic p =
     (case bf r topic p of
        Inl e \<Rightarrow> Unknown e
      | Inr owner \<Rightarrow> (case address_of r owner of
            Inl e \<Rightarrow> Unknown e
          | Inr a \<Rightarrow> Failed_Precondition p owner a))"

definition handler_redirect ::
  "'a broker_of \<Rightarrow> 'a ring_scheme \<Rightarrow> string \<Rightarrow> int option \<Rightarrow> produce_request \<Rightarrow> rat \<Rightarrow> store_state
    \<Rightarrow> rpc_error \<times> store_state" where
  "handler_redirect bf r topic part rq tick s =
     (case part of
        Some p \<Rightarrow> (redirect_to bf r topic p, s)
      | None \<Rightarrow>
          (case store_route (ring_owns bf r) topic (req_key rq) tick s of
             (Inl e, s1) \<Rightarrow> (Unknown e, s1)
           | (Inr p, s1) \<Rightarrow> (redirect_to bf r topic p, s1)))"

section \<open>Produce\<close>

definition handler_append ::
  "'a broker_of \<Rightarrow> 'a ring_scheme \<Rightarrow> produce_request \<Rightarrow> int \<Rightarrow> rat \<Rightarrow> store_state
    \<Rightarrow> (int \<times> offset) reply \<times> store_state" where
  "handler_append bf r rq now_ns tick s =
     (let part = req_partition rq
      in case store_append (ring_owns bf r) (pq_topic rq) (req_key rq) (req_value rq) (req_timestamp rq) part
              now_ns tick s of
           (Inr po, s1) \<Rightarrow> (Inr po, s1)
         | (Inl e, s1) \<Rightarrow>
             if e = PartitionNotLocal then
               (case handler_redirect bf r (pq_topic rq) part rq tick s1 of (err, s2) \<Rightarrow> (Inl err, s2))
             else if is_value_error e then (Inl (Invalid_Argument e), s1)
             else (Inl (Unknown e), s1))"

definition respond :: "produce_request \<Rightarrow> int \<times> offset \<Rightarrow> produce_response" where
  "respond rq po =
     (let m = \<lparr>pr_partition = fst po, pr_offset = snd po, pr_correlation = None\<rparr>
      in if has_field (pq_correlation rq) then m\<lparr>pr_correlation := Some (field_value 0 (pq_correlation rq))\<rparr> else m)"

definition produce ::
  "'a broker_of \<Rightarrow> 'a ring_scheme \<Rightarrow> produce_request \<Rightarrow> int \<Rightarrow> rat \<Rightarrow> store_state
    \<Rightarrow> produce_response reply \<times> store_state" where
  "produce bf r rq now_ns tick s =
     (case handler_append bf r rq now_ns tick s of
        (Inl e, s1) \<Rightarrow> (Inl e, s1)
      | (Inr po, s1) \<Rightarrow> (Inr (respond rq po), s1))"

text \<open>The stream: the responses sent, and the error that ended it, if one did. Each request has its clock readings.\<close>

fun produce_stream ::
  "'a broker_of \<Rightarrow> 'a ring_scheme \<Rightarrow> (produce_request \<times> int \<times> rat) list \<Rightarrow> store_state
    \<Rightarrow> (produce_response list \<times> rpc_error option) \<times> store_state" where
  "produce_stream bf r [] s = (([], None), s)"
| "produce_stream bf r ((rq, now_ns, tick) # rqs) s =
     (case handler_append bf r rq now_ns tick s of
        (Inl e, s1) \<Rightarrow> (([], Some e), s1)
      | (Inr po, s1) \<Rightarrow>
          (case produce_stream bf r rqs s1 of
             ((rs, err), s2) \<Rightarrow> ((respond rq po # rs, err), s2)))"

section \<open>Metadata\<close>

fun partition_entries :: "'a broker_of \<Rightarrow> 'a ring_scheme \<Rightarrow> string \<Rightarrow> int list \<Rightarrow> (int \<times> int \<times> string) list result" where
  "partition_entries bf r name [] = Inr []"
| "partition_entries bf r name (p # ps) =
     bind_result (bf r name p) (\<lambda>broker.
       bind_result (bind_result (bf r name p) (address_of r)) (\<lambda>addr.
         bind_result (partition_entries bf r name ps) (\<lambda>rest. Inr ((p, broker, addr) # rest))))"

type_synonym topic_metadata = "string \<times> (int \<times> int \<times> string) list"

fun describe_topics ::
  "'a broker_of \<Rightarrow> 'a ring_scheme \<Rightarrow> bool \<Rightarrow> string list \<Rightarrow> rat \<Rightarrow> store_state
    \<Rightarrow> topic_metadata list reply \<times> store_state" where
  "describe_topics bf r asked [] tick s = (Inr [], s)"
| "describe_topics bf r asked (name # names) tick s =
     (case store_partitions_of (ring_owns bf r) name tick s of
        (Inl e, s1) \<Rightarrow>
          if e = UnknownTopic then
            if asked then (Inl Not_Found, s1) else describe_topics bf r asked names tick s1
          else if is_value_error e then (Inl (Invalid_Argument e), s1)
          else (Inl (Unknown e), s1)
      | (Inr n, s1) \<Rightarrow>
          (case partition_entries bf r name [0 .. n - 1] of
             Inl e \<Rightarrow> (Inl (Unknown e), s1)
           | Inr es \<Rightarrow>
               (case describe_topics bf r asked names tick s1 of
                  (Inl e, s2) \<Rightarrow> (Inl e, s2)
                | (Inr ts, s2) \<Rightarrow> (Inr ((name, es) # ts), s2))))"

record metadata_response =
  mr_topics :: "topic_metadata list"
  mr_broker_count :: int
  mr_broker_id :: int

definition metadata ::
  "'a broker_of \<Rightarrow> 'a ring_scheme \<Rightarrow> string list \<Rightarrow> rat \<Rightarrow> store_state \<Rightarrow> metadata_response reply \<times> store_state" where
  "metadata bf r topics tick s =
     (let names = (if topics \<noteq> [] then topics else store_names s)
      in case describe_topics bf r (topics \<noteq> []) names tick s of
           (Inl e, s1) \<Rightarrow> (Inl e, s1)
         | (Inr ts, s1) \<Rightarrow>
             (Inr \<lparr>mr_topics = ts, mr_broker_count = rg_brokers r, mr_broker_id = rg_me r\<rparr>, s1))"

section \<open>Consume\<close>

text \<open>The status each exception of a read becomes.\<close>

definition read_status :: "'a broker_of \<Rightarrow> 'a ring_scheme \<Rightarrow> consume_request \<Rightarrow> py_error \<Rightarrow> rpc_error" where
  "read_status bf r rq e =
     (if e = UnknownTopic then Not_Found
      else if e = PartitionNotLocal then redirect_to bf r (cq_topic rq) (cq_partition rq)
      else if e = OffsetOutOfRange then Out_Of_Range
      else if is_value_error e then Invalid_Argument e
      else Unknown e)"

definition handler_read ::
  "'a broker_of \<Rightarrow> 'a ring_scheme \<Rightarrow> consume_request \<Rightarrow> offset \<Rightarrow> int \<Rightarrow> rat \<Rightarrow> store_state
    \<Rightarrow> log_record list reply \<times> store_state" where
  "handler_read bf r rq off limit tick s =
     (case store_read (ring_owns bf r) (cq_topic rq) off (cq_partition rq) limit tick s of
        (Inr batch, s1) \<Rightarrow> (Inr batch, s1)
      | (Inl e, s1) \<Rightarrow> (Inl (read_status bf r rq e), s1))"

definition first_remaining :: "consume_request \<Rightarrow> int option" where
  "first_remaining rq = (if 0 < cq_max_records rq \<and> \<not> cq_follow rq then Some (cq_max_records rq) else None)"

text \<open>
  The loop of \<open>Consume\<close> without \<open>follow\<close>: what was sent, and the status that ended the stream, if not \<open>OK\<close>.
\<close>

type_synonym streamed = "proto_record list \<times> rpc_error option"

partial_function (option) consume_loop ::
  "'a broker_of \<Rightarrow> 'a ring_scheme \<Rightarrow> consume_request \<Rightarrow> offset \<Rightarrow> int option \<Rightarrow> rat \<Rightarrow> store_state
    \<Rightarrow> (streamed \<times> store_state) option" where
  "consume_loop bf r rq off remaining tick s =
     (let limit = (case remaining of None \<Rightarrow> BATCH | Some n \<Rightarrow> min BATCH n)
      in case handler_read bf r rq off limit tick s of
           (Inl e, s1) \<Rightarrow> Some (([], Some e), s1)
         | (Inr batch, s1) \<Rightarrow>
             (let sent = map to_proto batch;
                  off1 = next_offset off batch;
                  remaining1 = map_option (\<lambda>n. n - int (length batch)) remaining
              in if (case remaining1 of None \<Rightarrow> False | Some n \<Rightarrow> n \<le> 0) then Some ((sent, None), s1)
                 else if int (length batch) = limit then
                   Option.bind (consume_loop bf r rq off1 remaining1 tick s1)
                     (\<lambda>((rest, err), s2). Some ((sent @ rest, err), s2))
                 else Some ((sent, None), s1)))"

text \<open>A request without \<open>follow\<close>.\<close>

definition consume ::
  "'a broker_of \<Rightarrow> 'a ring_scheme \<Rightarrow> consume_request \<Rightarrow> rat \<Rightarrow> store_state \<Rightarrow> (streamed \<times> store_state) option" where
  "consume bf r rq tick s = consume_loop bf r rq (cq_offset rq) (first_remaining rq) tick s"

section \<open>What the ring answers\<close>

lemma ring_owns_iff: "ring_owns bf r t p \<longleftrightarrow> bf r t p = Inr (rg_me r)"
  by (cases "bf r t p") (auto simp: ring_owns_def owns_def)

text \<open>Every partition has an owner in the cluster.\<close>

definition in_ring :: "'a broker_of \<Rightarrow> 'a ring_scheme \<Rightarrow> bool" where
  "in_ring bf r \<longleftrightarrow> (\<forall>t p. 0 \<le> p \<longrightarrow> (\<exists>b. bf r t p = Inr b \<and> 0 \<le> b \<and> b < rg_brokers r))"

lemma in_ring_built:
  "hash_ring_init n me tmpl k = Inr r \<Longrightarrow> in_ring hash_broker_for r"
  "ring_init n me tmpl = Inr r' \<Longrightarrow> in_ring ring_broker_for r'"
proof -
  assume "hash_ring_init n me tmpl k = Inr r"
  then have r: "0 \<le> me" "me < n" "0 < k" "r = built_ring n tmpl k me" by (auto simp: hash_ring_init_ok)
  then have "1 + \<bar>k - 1\<bar> = k" by simp
  with hashed.in_cluster [OF r(1,2), of _ tmpl "k - 1"] show "in_ring hash_broker_for r"
    by (simp add: in_ring_def r(4))
next
  assume "ring_init n me tmpl = Inr r'"
  then show "in_ring ring_broker_for r'"
    using modulo.in_cluster [of me n _ tmpl] by (auto simp: in_ring_def ring_init_ok)
qed

text \<open>A redirect never names the broker that sends it.\<close>

lemma redirect_elsewhere:
  assumes "in_ring bf r" "0 \<le> p" "\<not> ring_owns bf r t p"
  obtains owner where "bf r t p = Inr owner" "0 \<le> owner" "owner < rg_brokers r" "owner \<noteq> rg_me r"
    "redirect_to bf r t p = (case address_of r owner of Inl e \<Rightarrow> Unknown e | Inr a \<Rightarrow> Failed_Precondition p owner a)"
  using assms by (fastforce simp: in_ring_def ring_owns_iff redirect_to_def)

section \<open>Reading\<close>

text \<open>Why a read from an offset is refused, if it is.\<close>

definition read_refusal ::
  "'a broker_of \<Rightarrow> 'a ring_scheme \<Rightarrow> contents \<Rightarrow> (string \<Rightarrow> int result option) \<Rightarrow> consume_request \<Rightarrow> offset
    \<Rightarrow> rpc_error option" where
  "read_refusal bf r C m rq off =
     (let name = cq_topic rq; p = cq_partition rq in
      if \<not> is_valid_name name then Some (Invalid_Argument ValueError)
      else (case m name of
          None \<Rightarrow> Some Not_Found
        | Some (Inl e) \<Rightarrow> Some (read_status bf r rq e)
        | Some (Inr n) \<Rightarrow>
            if \<not> (0 \<le> p \<and> p < n) then Some (Invalid_Argument ValueError)
            else if \<not> ring_owns bf r name p then Some (redirect_to bf r name p)
            else if off < fst (C name p) then Some Out_Of_Range
            else None))"

lemma read_refusal_later:
  "read_refusal bf r C m rq off = None \<Longrightarrow> off \<le> off' \<Longrightarrow> read_refusal bf r C m rq off' = None"
  by (auto simp: read_refusal_def Let_def split: option.splits sum.splits if_splits)

lemma read_refusal_base:
  "read_refusal bf r C m rq off = None \<Longrightarrow> fst (C (cq_topic rq) (cq_partition rq)) \<le> off"
  by (auto simp: read_refusal_def Let_def split: option.splits sum.splits if_splits)

lemma handler_read_decides:
  assumes ok: "store_ok (ring_owns bf r) C s" and rd: "handler_read bf r rq off limit tick s = (res, s')"
  shows "store_ok (ring_owns bf r) C s' \<and> metas (snd s') = metas (snd s)
    \<and> res = (case read_refusal bf r C (metas (snd s)) rq off of
         Some e \<Rightarrow> Inl e
       | None \<Rightarrow> Inr (batch_of limit (from_offset (C (cq_topic rq) (cq_partition rq)) off)))"
proof -
  obtain res1 s1 where rd1: "store_read (ring_owns bf r) (cq_topic rq) off (cq_partition rq) limit tick s = (res1, s1)"
    by (meson surj_pair)
  with rd have "s' = s1" "res = (case res1 of Inl e \<Rightarrow> Inl (read_status bf r rq e) | Inr b \<Rightarrow> Inr b)"
    by (auto simp: handler_read_def split: sum.splits)
  with store_read_decides [OF ok rd1] show ?thesis
    by (auto simp: read_refusal_def Let_def from_offset_def read_status_def split: option.split sum.split)
qed

lemma consume_loop_sends:
  assumes "store_ok (ring_owns bf r) C s" "read_refusal bf r C (metas (snd s)) rq off = None"
    "\<And>k. rem = Some k \<Longrightarrow> 0 < k"
    "rs = from_offset (C (cq_topic rq) (cq_partition rq)) off"
  shows "\<exists>s'. consume_loop bf r rq off rem tick s
      = Some ((map to_proto (case rem of None \<Rightarrow> rs | Some k \<Rightarrow> take (nat k) rs), None), s')
    \<and> store_ok (ring_owns bf r) C s' \<and> metas (snd s') = metas (snd s)"
  using assms
proof (induction "length rs" arbitrary: off rem s rs rule: less_induct)
  case less
  let ?c = "C (cq_topic rq) (cq_partition rq)"
  let ?limit = "case rem of None \<Rightarrow> BATCH | Some n \<Rightarrow> min BATCH n"
  have limit: "0 < ?limit" "?limit \<le> BATCH" "\<And>k. rem = Some k \<Longrightarrow> ?limit \<le> k"
    using less.prems(3) by (auto simp: BATCH_def split: option.split)
  define batch where "batch = take (nat ?limit) rs"
  obtain res s1 where rd: "handler_read bf r rq off ?limit tick s = (res, s1)" by (meson surj_pair)
  note k = handler_read_decides [OF less.prems(1) rd, unfolded less.prems(2) option.case]
  have res: "res = Inr batch" using k limit(1) less.prems(4) by (simp add: batch_of_def batch_def)
  let ?rem1 = "map_option (\<lambda>n. n - int (length batch)) rem"
  have off1: "next_offset off batch = off + int (length batch)"
    by (rule next_offset_batch [OF contents_sequential [OF less.prems(1)] read_refusal_base [OF less.prems(2)]])
      (simp add: batch_def less.prems(4) take_is_prefix)
  note unf = consume_loop.simps [of bf r rq off rem tick s, unfolded Let_def rd prod.case res sum.case]
  show ?case
  proof (cases "int (length batch) = ?limit \<and> (\<forall>n. ?rem1 = Some n \<longrightarrow> 0 < n)")
    case True
    let ?rest = "drop (length batch) rs"
    have len: "length batch = nat ?limit" using True by linarith
    then have b: "batch = take (length batch) rs" "length batch \<le> length rs" by (simp_all add: batch_def)
    have "length ?rest < length rs" using len limit(1) b(2) by simp
    moreover have "store_ok (ring_owns bf r) C s1" "read_refusal bf r C (metas (snd s1)) rq (next_offset off batch) = None"
      using k read_refusal_later [OF less.prems(2)] off1 by simp_all
    moreover have "?rest = from_offset ?c (next_offset off batch)"
      using from_offset_step [OF read_refusal_base [OF less.prems(2)], of batch] off1 less.prems(4)
      by (simp add: batch_def take_is_prefix)
    ultimately obtain s2 where s2: "consume_loop bf r rq (next_offset off batch) ?rem1 tick s1
        = Some ((map to_proto (case ?rem1 of None \<Rightarrow> ?rest | Some k \<Rightarrow> take (nat k) ?rest), None), s2)"
      "store_ok (ring_owns bf r) C s2" "metas (snd s2) = metas (snd s1)"
      using less.hyps True by blast
    have "(case rem of None \<Rightarrow> rs | Some k \<Rightarrow> take (nat k) rs)
        = batch @ (case ?rem1 of None \<Rightarrow> ?rest | Some k \<Rightarrow> take (nat k) ?rest)"
    proof (cases rem)
      case None
      then show ?thesis using b(1) by (metis append_take_drop_id option.case(1) option.map(1))
    next
      case (Some n)
      then have "length batch \<le> nat n" using len limit(3) by auto
      then have "take (nat n) rs = batch @ take (nat n - length batch) ?rest"
        using b by (metis append_take_drop_id length_take min.absorb2 take_all_iff take_append)
      moreover have "nat (n - int (length batch)) = nat n - length batch" by simp
      ultimately show ?thesis using Some by simp
    qed
    moreover have "\<not> (case ?rem1 of None \<Rightarrow> False | Some n \<Rightarrow> n \<le> 0)" using True by (auto split: option.split)
    ultimately show ?thesis using unf s2 k True by simp
  next
    case False
    have "consume_loop bf r rq off rem tick s = Some ((map to_proto batch, None), s1)"
      using unf False by (auto split: option.split)
    moreover have "batch = (case rem of None \<Rightarrow> rs | Some k \<Rightarrow> take (nat k) rs)"
      using False limit by (auto simp: batch_def min_def split: option.splits if_splits)
    ultimately show ?thesis using k by auto
  qed
qed

lemma consume_outcomes:
  assumes "store_ok (ring_owns bf r) C s" and "\<not> cq_follow rq"
  shows "\<exists>s'. consume bf r rq tick s =
      Some (case read_refusal bf r C (metas (snd s)) rq (cq_offset rq) of
          Some e \<Rightarrow> ([], Some e)
        | None \<Rightarrow> (map to_proto (batch_of (cq_max_records rq)
            (from_offset (C (cq_topic rq) (cq_partition rq)) (cq_offset rq))), None), s')
    \<and> store_ok (ring_owns bf r) C s' \<and> metas (snd s') = metas (snd s)"
proof (cases "read_refusal bf r C (metas (snd s)) rq (cq_offset rq)")
  case None
  have "\<And>k. first_remaining rq = Some k \<Longrightarrow> 0 < k" by (simp add: first_remaining_def split: if_split_asm)
  moreover have "(case first_remaining rq of None \<Rightarrow> rs | Some k \<Rightarrow> take (nat k) rs) = batch_of (cq_max_records rq) rs"
    for rs :: "log_record list" using assms(2) by (simp add: first_remaining_def batch_of_def)
  ultimately show ?thesis
    using consume_loop_sends [OF assms(1) None, of "first_remaining rq" _ tick] by (simp add: consume_def None)
next
  case (Some e)
  let ?limit = "case first_remaining rq of None \<Rightarrow> BATCH | Some n \<Rightarrow> min BATCH n"
  obtain res s1 where rd: "handler_read bf r rq (cq_offset rq) ?limit tick s = (res, s1)" by (meson surj_pair)
  from handler_read_decides [OF assms(1) rd] Some rd show ?thesis
    by (simp add: consume_def consume_loop.simps [of bf r rq "cq_offset rq"] Let_def)
qed

section \<open>Routing and producing\<close>

lemma topic_route_decides:
  assumes ok: "topics_ok own C st" and name: "is_valid_name name"
    and meta: "metas (snd st) name = Some (Inr n)" and n: "1 \<le> n"
  shows "\<exists>st'. topic_route own name key tick st = (Inr (destination (fst st) n key None), st')
    \<and> topics_ok own C st' \<and> metas (snd st') = metas (snd st)"
proof -
  obtain ot tp rt where t: "the_topic own name tick st = (Inr ot, (tp, rt))" "ot_partitions ot = n"
    using the_topic_found [OF ok name meta] by (metis prod.collapse)
  from the_topic_ok [OF ok t(1)] have "topics_ok own C (tp, rt)" "metas rt = metas (snd st)"
    "tp_next tp = tp_next (fst st)" by auto
  then show ?thesis using t n
    by (auto simp: topic_route_def destination_def partition_for_def split: option.split)
qed

lemma store_route_decides:
  assumes ok: "store_ok own C s" and name: "is_valid_name name"
    and meta: "metas (snd s) name = Some (Inr n)" and n: "1 \<le> n"
  shows "\<exists>s'. store_route own name key tick s = (Inr (destination (so_topics (fst s)) n key None), s')
    \<and> store_ok own C s' \<and> metas (snd s') = metas (snd s)"
proof -
  obtain so rt where s: "s = (so, rt)" by (cases s)
  note D = store_okD [OF ok [unfolded s]]
  from topic_route_decides [OF D(1) name _ n, of key tick] meta obtain tp' rt' where
    "topic_route own name key tick (so_topics so, rt) = (Inr (destination (so_topics so) n key None), (tp', rt'))"
    "topics_ok own C (tp', rt')" "metas rt' = metas rt" by (auto simp: s)
  then show ?thesis using D(2) by (auto simp: store_route_def in_topics_def s store_ok_def)
qed

lemma destination_in_range: "1 \<le> n \<Longrightarrow> part = None \<Longrightarrow> 0 \<le> destination tp n key part \<and> destination tp n key part < n"
  by (simp add: destination_def split: option.split)

text \<open>An append of the store: the topics', and then the notification.\<close>

lemma store_append_decides:
  assumes ok: "store_ok own C s" and name: "is_valid_name name"
    and meta: "metas (snd s) name = Some (Inr n)" and n: "1 \<le> n"
    and app: "store_append own name key val ts part now_ns tick s = (res, s')"
    and p: "p = destination (so_topics (fst s)) n key part"
    and off: "off = fst (C name p) + int (length (snd (C name p)))"
  shows "metas (snd s') = metas (snd s) \<and> (if \<not> (0 \<le> p \<and> p < n) then res = Inl ValueError \<and> store_ok own C s'
    else if \<not> own name p then res = Inl PartitionNotLocal \<and> store_ok own C s'
    else if encodable (stamped off key val ts now_ns) then res = Inr (p, off)
      \<and> store_ok own (put_contents name p (fst (C name p), snd (C name p) @ [stamped off key val ts now_ns]) C) s'
      \<and> (\<forall>e. armed (so_tail (fst s)) (name, p) e \<longrightarrow> e \<in> set (tl_set (so_tail (fst s'))))
    else (\<exists>e \<in> {ValueError, StructError}. encode (stamped off key val ts now_ns) = Inl e \<and> res = Inl e) \<and> store_ok own C s')"
proof -
  obtain so rt where s: "s = (so, rt)" by (cases s)
  note D = store_okD [OF ok [unfolded s]]
  obtain r tp' rt' where c: "topic_append own name key val ts part now_ns tick (so_topics so, rt) = (r, (tp', rt'))"
    by (metis prod_cases3)
  have meta': "metas (snd (so_topics so, rt)) name = Some (Inr n)" using meta by (simp add: s)
  have app': "(res, s') = (case r of Inl e \<Rightarrow> (Inl e, (so\<lparr>so_topics := tp'\<rparr>, rt'))
      | Inr (p, off) \<Rightarrow> (Inr (p, off), store_notify (name, p) (so\<lparr>so_topics := tp'\<rparr>, rt')))"
    using app c by (auto simp: store_append_def store_write_def in_topics_def s split: sum.splits)
  have p': "p = destination (fst (so_topics so, rt)) n key part" using p by (simp add: s)
  note k = topic_append_decides [OF D(1) name meta' n c p' off]
  note m = topic_append_keeps_meta [OF D(1) name meta' n c]
  have "metas (snd s') = metas (snd s)" using app' m by (auto simp: s store_notify_def split: sum.splits)
  moreover have "store_ok own C' (so\<lparr>so_topics := tp'\<rparr>, rt')"
    "store_ok own C' (so\<lparr>so_topics := tp', so_tail := tail_notify (name, p) (so_tail so)\<rparr>, rt')"
    if "topics_ok own C' (tp', rt')" for C'
    using that D(2) by (simp_all add: store_ok_def tail_ok_notify)
  ultimately show ?thesis using k app'
    by (auto simp: s store_notify_def notify_wakes split: if_split_asm)
qed

text \<open>Where a refused append is sent: where the record belongs if that is fixed, else where the next one goes.\<close>

lemma handler_redirect_decides:
  assumes ring: "in_ring bf r" and ok: "store_ok (ring_owns bf r) C s" and name: "is_valid_name name"
    and meta: "metas (snd s) name = Some (Inr n)" and n: "1 \<le> n"
    and part: "\<And>q. part = Some q \<Longrightarrow> 0 \<le> q \<and> q < n"
    and q: "q = destination (so_topics (fst s)) n (pq_key rq) part"
  shows "\<exists>s'. handler_redirect bf r name part rq tick s = (redirect_to bf r name q, s')
    \<and> store_ok (ring_owns bf r) C s' \<and> metas (snd s') = metas (snd s) \<and> 0 \<le> q \<and> q < n"
proof (cases part)
  case None
  with store_route_decides [OF ok name meta n, of "pq_key rq" tick] destination_in_range [OF n None] q show ?thesis
    by (auto simp: handler_redirect_def)
next
  case (Some q')
  with part q ok show ?thesis by (auto simp: handler_redirect_def destination_def)
qed

lemma produce_outcomes:
  assumes ring: "in_ring bf r" and ok: "store_ok (ring_owns bf r) C s" and name: "is_valid_name (pq_topic rq)"
    and meta: "metas (snd s) (pq_topic rq) = Some (Inr n)" and n: "1 \<le> n"
    and run: "produce bf r rq now_ns tick s = (res, s')"
    and p: "p = destination (so_topics (fst s)) n (pq_key rq) (pq_partition rq)"
    and c: "c = C (pq_topic rq) p" and rec: "new = stamped (fst c + int (length (snd c))) (pq_key rq) (pq_value rq) (pq_timestamp rq) now_ns"
  shows "metas (snd s') = metas (snd s) \<and> (if \<not> (0 \<le> p \<and> p < n) then
      res = Inl (Invalid_Argument ValueError) \<and> store_ok (ring_owns bf r) C s'
    else if bf r (pq_topic rq) p \<noteq> Inr (rg_me r) then store_ok (ring_owns bf r) C s'
      \<and> (\<exists>q. res = Inl (redirect_to bf r (pq_topic rq) q) \<and> 0 \<le> q \<and> q < n
          \<and> (pq_partition rq \<noteq> None \<or> pq_key rq \<noteq> None \<longrightarrow> q = p))
    else if encodable new then
      res = Inr \<lparr>pr_partition = p, pr_offset = fst c + int (length (snd c)), pr_correlation = pq_correlation rq\<rparr>
      \<and> store_ok (ring_owns bf r) (put_contents (pq_topic rq) p (fst c, snd c @ [new]) C) s'
      \<and> (\<forall>e. armed (so_tail (fst s)) (pq_topic rq, p) e \<longrightarrow> e \<in> set (tl_set (so_tail (fst s'))))
    else (encode new = Inl ValueError \<and> res = Inl (Invalid_Argument ValueError)
        \<or> encode new = Inl StructError \<and> res = Inl (Unknown StructError)) \<and> store_ok (ring_owns bf r) C s')"
proof -
  obtain res1 s1 where app: "store_append (ring_owns bf r) (pq_topic rq) (pq_key rq) (pq_value rq) (pq_timestamp rq)
      (pq_partition rq) now_ns tick s = (res1, s1)" by (meson surj_pair)
  note k = store_append_decides [OF ok name meta n app p refl, folded c, folded rec]
  have run': "(res, s') = (case handler_append bf r rq now_ns tick s of
      (Inl e, t) \<Rightarrow> (Inl e, t) | (Inr po, t) \<Rightarrow> (Inr (respond rq po), t))"
    using run by (simp add: produce_def)
  have resp: "respond rq po = \<lparr>pr_partition = fst po, pr_offset = snd po, pr_correlation = pq_correlation rq\<rparr>" for po
    by (simp add: respond_def has_field_def field_value_def Let_def split: option.split)
  consider "\<not> (0 \<le> p \<and> p < n)" | "0 \<le> p \<and> p < n" "\<not> ring_owns bf r (pq_topic rq) p"
    | "0 \<le> p \<and> p < n" "ring_owns bf r (pq_topic rq) p" by blast
  then show ?thesis
  proof cases
    case 2
    then have r1: "res1 = Inl PartitionNotLocal" "store_ok (ring_owns bf r) C s1" "metas (snd s1) = metas (snd s)"
      using k by auto
    let ?q = "destination (so_topics (fst s1)) n (pq_key rq) (pq_partition rq)"
    have in_range: "\<And>q. pq_partition rq = Some q \<Longrightarrow> 0 \<le> q \<and> q < n" using 2 p by (simp add: destination_def)
    have meta1: "metas (snd s1) (pq_topic rq) = Some (Inr n)" using meta r1(3) by simp
    obtain s2 where
      "handler_redirect bf r (pq_topic rq) (pq_partition rq) rq tick s1 = (redirect_to bf r (pq_topic rq) ?q, s2)"
      "store_ok (ring_owns bf r) C s2" "metas (snd s2) = metas (snd s1)" "0 \<le> ?q \<and> ?q < n"
      using handler_redirect_decides [where tick = tick, OF ring r1(2) name meta1 n in_range refl] by blast
    moreover have "?q = p" if "pq_partition rq \<noteq> None \<or> pq_key rq \<noteq> None"
      using that p by (auto simp: destination_def split: option.splits)
    ultimately show ?thesis using 2 run' app r1 by (auto simp: handler_append_def ring_owns_iff)
  qed (use k run' app resp in \<open>auto simp: handler_append_def ring_owns_iff split: if_split_asm\<close>)
qed

text \<open>A keyless record that is refused has taken its turn.\<close>

lemma topic_append_turn:
  assumes ok: "topics_ok own C st" and name: "is_valid_name name"
    and meta: "metas (snd st) name = Some (Inr n)" and n: "1 \<le> n"
    and turn: "\<not> own name (tp_next (fst st) mod n)"
    and app: "topic_append own name None val ts None now_ns tick st = (res, st')"
  shows "tp_next (fst st') = tp_next (fst st) + 1"
proof -
  have val: "validate_name name = Inr ()" using name by (simp add: valid_name_iff)
  obtain ot tp rt where t: "the_topic own name tick st = (Inr ot, (tp, rt))" "ot_partitions ot = n"
    using the_topic_found [OF ok name meta] by (metis prod.collapse)
  from the_topic_ok [OF ok t(1)] have o: "tp_next tp = tp_next (fst st)" "topics_ok own C (tp, rt)"
    "map_of (tp_open tp) name = Some ot" by auto
  have opn: "(case map_of (tp_open (fst st)) name of Some ot \<Rightarrow> (Inr ot, st)
      | None \<Rightarrow> open_locked own name None tick st) = (Inr ot, (tp, rt))"
    using t(1) val meta by (auto simp: the_topic_def read_meta_metas split: option.splits)
  have "map_of (ot_local ot) (tp_next (fst st) mod n) = None"
    using local_keys [OF topics_okD(4) [OF o(2,3)]] turn by (metis option.exhaust)
  then have "check_partition ot (tp_next (fst st) mod n) = Inl PartitionNotLocal"
    using n t(2) by (simp add: check_partition_def)
  with app n show ?thesis
    by (auto simp: topic_append_def val opn partition_for_def t(2) o(1))
qed

lemma store_append_turn:
  assumes ok: "store_ok own C s" and name: "is_valid_name name"
    and meta: "metas (snd s) name = Some (Inr n)" and n: "1 \<le> n"
    and turn: "\<not> own name (tp_next (so_topics (fst s)) mod n)"
    and app: "store_append own name None val ts None now_ns tick s = (res, s')"
  shows "tp_next (so_topics (fst s')) = tp_next (so_topics (fst s)) + 1"
proof -
  obtain so rt where s: "s = (so, rt)" by (cases s)
  note D = store_okD [OF ok [unfolded s]]
  obtain r tp' rt' where c: "topic_append own name None val ts None now_ns tick (so_topics so, rt) = (r, (tp', rt'))"
    by (metis prod_cases3)
  have meta': "metas (snd (so_topics so, rt)) name = Some (Inr n)" using meta by (simp add: s)
  have turn': "\<not> own name (tp_next (fst (so_topics so, rt)) mod n)" using turn by (simp add: s)
  have "so_topics (fst s') = tp'"
    using app c by (auto simp: store_append_def store_write_def in_topics_def store_notify_def s split: sum.splits)
  with topic_append_turn [OF D(1) name meta' n turn' c] show ?thesis by (simp add: s)
qed

text \<open>So its redirect names the partition after the one that it was refused for.\<close>

lemma keyless_redirect_names_the_next:
  assumes ring: "in_ring bf r" and ok: "store_ok (ring_owns bf r) C s" and name: "is_valid_name (pq_topic rq)"
    and meta: "metas (snd s) (pq_topic rq) = Some (Inr n)" and n: "1 \<le> n"
    and free: "pq_key rq = None" "pq_partition rq = None"
    and turn: "bf r (pq_topic rq) (tp_next (so_topics (fst s)) mod n) \<noteq> Inr (rg_me r)"
    and run: "produce bf r rq now_ns tick s = (res, s')"
  shows "res = Inl (redirect_to bf r (pq_topic rq) ((tp_next (so_topics (fst s)) + 1) mod n))"
proof -
  let ?p = "tp_next (so_topics (fst s)) mod n"
  obtain res1 s1 where app: "store_append (ring_owns bf r) (pq_topic rq) None (pq_value rq) (pq_timestamp rq)
      None now_ns tick s = (res1, s1)" by (meson surj_pair)
  have own: "\<not> ring_owns bf r (pq_topic rq) ?p" using turn by (simp add: ring_owns_iff)
  have dest: "?p = destination (so_topics (fst s)) n None None" by (simp add: destination_def)
  note k = store_append_decides [OF ok name meta n app dest refl]
  then have r1: "res1 = Inl PartitionNotLocal" "store_ok (ring_owns bf r) C s1" "metas (snd s1) = metas (snd s)"
    using own n by auto
  have meta1: "metas (snd s1) (pq_topic rq) = Some (Inr n)" using meta r1(3) by simp
  obtain s2 where
    "handler_redirect bf r (pq_topic rq) None rq tick s1
      = (redirect_to bf r (pq_topic rq) (destination (so_topics (fst s1)) n (pq_key rq) None), s2)"
    using handler_redirect_decides [where tick = tick and part = None, OF ring r1(2) name meta1 n _ refl] by blast
  with run app r1(1) free store_append_turn [OF ok name meta n own app] show ?thesis
    by (auto simp: produce_def handler_append_def destination_def)
qed

section \<open>Metadata\<close>

lemma store_partitions_of_decides:
  assumes ok: "store_ok own C s" and run: "store_partitions_of own name tick s = (res, s')"
  shows "store_ok own C s' \<and> metas (snd s') = metas (snd s)
    \<and> res = (case metas (snd s) name of
         Some (Inr n) \<Rightarrow> if is_valid_name name then Inr n else Inl ValueError
       | _ \<Rightarrow> Inl (topic_error name (metas (snd s))))"
proof -
  obtain so rt where s: "s = (so, rt)" by (cases s)
  note D = store_okD [OF ok [unfolded s]]
  obtain r tp' rt' where c: "the_topic own name tick (so_topics so, rt) = (r, (tp', rt'))"
    by (metis prod_cases3)
  have r: "res = bind_result r (\<lambda>ot. Inr (ot_partitions ot))" "s' = (so\<lparr>so_topics := tp'\<rparr>, rt')"
    using run c by (auto simp: store_partitions_of_def partitions_of_def in_topics_def s)
  show ?thesis
  proof (cases "\<exists>n. is_valid_name name \<and> metas rt name = Some (Inr n)")
    case True
    then obtain n ot st' where "the_topic own name tick (so_topics so, rt) = (Inr ot, st')" "ot_partitions ot = n"
      "is_valid_name name" "metas rt name = Some (Inr n)"
      using the_topic_found [OF D(1)] by (metis snd_conv)
    with the_topic_ok [OF D(1) c] c D(2) r show ?thesis by (auto simp: s store_ok_def)
  next
    case False
    with the_topic_refused [OF D(1), of name tick] c r D ok show ?thesis
      by (auto simp: s store_ok_def topic_error_def split: option.split sum.split)
  qed
qed

text \<open>What \<open>Metadata\<close> says of a topic depends on the ring and the counts on disk only.\<close>

fun described ::
  "'a broker_of \<Rightarrow> 'a ring_scheme \<Rightarrow> bool \<Rightarrow> (string \<Rightarrow> int result option) \<Rightarrow> string list \<Rightarrow> topic_metadata list reply" where
  "described bf r asked m [] = Inr []"
| "described bf r asked m (name # names) =
     (if is_valid_name name \<and> (\<exists>n. m name = Some (Inr n)) then
        (case partition_entries bf r name [0 .. projr (the (m name)) - 1] of
           Inl e \<Rightarrow> Inl (Unknown e)
         | Inr es \<Rightarrow> (case described bf r asked m names of Inl e \<Rightarrow> Inl e | Inr ts \<Rightarrow> Inr ((name, es) # ts)))
      else (let e = topic_error name m in
        if e = UnknownTopic then (if asked then Inl Not_Found else described bf r asked m names)
        else if is_value_error e then Inl (Invalid_Argument e)
        else Inl (Unknown e)))"

lemma describe_topics_described:
  assumes "store_ok own C s" "own = ring_owns bf r" "describe_topics bf r asked names tick s = (res, s')"
  shows "store_ok own C s' \<and> metas (snd s') = metas (snd s) \<and> res = described bf r asked (metas (snd s)) names"
  using assms
proof (induction names arbitrary: s res s')
  case (Cons name names)
  obtain c s1 where c: "store_partitions_of own name tick s = (c, s1)" by (meson surj_pair)
  note k = store_partitions_of_decides [OF Cons.prems(1) c]
  obtain ds s2 where d: "describe_topics bf r asked names tick s1 = (ds, s2)" by (meson surj_pair)
  have s1: "store_ok own C s1" "metas (snd s1) = metas (snd s)" using k by auto
  note ih = Cons.IH [OF s1(1) Cons.prems(2) d, unfolded s1(2)]
  show ?case
  proof (cases "is_valid_name name \<and> (\<exists>n. metas (snd s) name = Some (Inr n))")
    case True
    then have "c = Inr (projr (the (metas (snd s) name)))" using k by auto
    with True Cons.prems(2,3) c d ih s1 show ?thesis by (auto split: sum.splits)
  next
    case False
    then have "c = Inl (topic_error name (metas (snd s)))"
      using k by (auto simp: topic_error_def split: option.splits sum.splits)
    with False Cons.prems(2,3) c d ih s1 show ?thesis by (auto simp: Let_def split: if_splits)
  qed
qed simp

lemma partition_entries_sound:
  "partition_entries bf r name ps = Inr es \<Longrightarrow> map fst es = ps
    \<and> (\<forall>x \<in> set es. bf r name (fst x) = Inr (fst (snd x)) \<and> address_of r (fst (snd x)) = Inr (snd (snd x)))"
  by (induction ps arbitrary: es) fastforce+

lemma described_sound:
  "described bf r asked m names = Inr ts \<Longrightarrow> (name, es) \<in> set ts \<Longrightarrow>
    name \<in> set names \<and> (\<exists>k. m name = Some (Inr k) \<and> map fst es = [0 .. k - 1])
    \<and> (\<forall>x \<in> set es. bf r name (fst x) = Inr (fst (snd x)) \<and> address_of r (fst (snd x)) = Inr (snd (snd x)))"
  by (induction names arbitrary: ts)
    (fastforce simp: Let_def dest!: partition_entries_sound split: if_split_asm sum.splits)+

lemma partition_entries_cong:
  "(\<And>p. bf r name p = bf r' name p) \<Longrightarrow> (\<And>b. address_of r b = address_of r' b) \<Longrightarrow>
    partition_entries bf r name ps = partition_entries bf r' name ps"
proof (induction ps)
  case (Cons p ps)
  then show ?case by (simp add: Cons.prems(2) [abs_def])
qed simp

lemma described_cong:
  "(\<And>t p. bf r t p = bf r' t p) \<Longrightarrow> (\<And>b. address_of r b = address_of r' b) \<Longrightarrow>
    (\<And>name. name \<in> set names \<Longrightarrow> m name = m' name) \<Longrightarrow>
    described bf r asked m names = described bf r' asked m' names"
proof (induction names)
  case (Cons name names)
  have "partition_entries bf r name ps = partition_entries bf r' name ps" for ps
    by (rule partition_entries_cong) (simp_all add: Cons.prems)
  moreover have ih: "described bf r asked m names = described bf r' asked m' names"
    by (rule Cons.IH) (simp_all add: Cons.prems)
  moreover have "m name = m' name" using Cons.prems(3) by simp
  moreover from this have "topic_error name m = topic_error name m'" by (simp add: topic_error_def)
  ultimately show ?case unfolding described.simps by (simp only:)
qed simp

text \<open>The brokers of one cluster answer alike.\<close>

lemma same_cluster:
  assumes "hash_ring_init n me tmpl k = Inr r" "hash_ring_init n me' tmpl k = Inr r'"
  shows "hash_broker_for r t p = hash_broker_for r' t p" "address_of r b = address_of r' b"
    "rg_brokers r = rg_brokers r'" "rg_me r = me"
proof -
  have i: "0 \<le> me" "me < n" "0 \<le> me'" "me' < n" "0 < k" "r = built_ring n tmpl k me" "r' = built_ring n tmpl k me'"
    using assms by (auto simp: hash_ring_init_ok)
  then have "1 + \<bar>k - 1\<bar> = k" by simp
  with hashed.same_everywhere [OF i(1-4), of tmpl "k - 1" t p] show "hash_broker_for r t p = hash_broker_for r' t p"
    by (simp add: i)
  show "address_of r b = address_of r' b" "rg_brokers r = rg_brokers r'" "rg_me r = me"
    by (simp_all add: i address_of_def)
qed

section \<open>Properties\<close>


text \<open>
  Property C13. A bounded \<open>Consume\<close> ends, and what it streams is decided by the partition's records alone,
  however they fall into batches and segments: all of them from the offset on, or the first
  \<open>max_records\<close>, each with its own offset, timestamp, key and value; a request it cannot serve gets its
  status and no record. The broker's data are left as they were.
\<close>

theorem consume_decided:
  assumes "store_ok (ring_owns bf r) C s" and "\<not> cq_follow rq"
  shows "\<exists>s'. consume bf r rq tick s =
      Some (case read_refusal bf r C (metas (snd s)) rq (cq_offset rq) of
          Some e \<Rightarrow> ([], Some e)
        | None \<Rightarrow> (map to_proto (batch_of (cq_max_records rq)
            (from_offset (C (cq_topic rq) (cq_partition rq)) (cq_offset rq))), None), s')
    \<and> store_ok (ring_owns bf r) C s' \<and> metas (snd s') = metas (snd s)"
  by (rule consume_outcomes [OF assms])


section \<open>Concrete requests\<close>

text \<open>Topic \<open>a\<close> of two partitions, on any broker.\<close>

lemma sample_created:
  obtains s where "store_ok own empty_contents s" "metas (snd s) ''a'' = Some (Inr 2)"
    "tp_next (so_topics (fst s)) = 0" "so_tail (fst s) = tail_init"
proof -
  have ok: "topics_ok own empty_contents (sample_topics, [])"
    by (rule fresh_topics_ok(1) [OF sample_init])
      (simp_all add: MAX_U32_def on_disk_def healthy_def empty_contents_def part_dir_def topic_at_def no_topic_def)
  have "map_of (snd (sample_topics, [])) ''a'' \<noteq> Some Plain_File" "\<And>e. metas (snd (sample_topics, [])) ''a'' \<noteq> Some (Inl e)"
    "2 = (case metas (snd (sample_topics, [])) ''a'' of Some (Inr n) \<Rightarrow> n
        | _ \<Rightarrow> (case Some 2 of Some k \<Rightarrow> if k = 0 then tp_default (fst (sample_topics, [])) else k
               | None \<Rightarrow> tp_default (fst (sample_topics, []))))"
    by (simp_all add: topic_at_def no_topic_def)
  from topic_create_ok [OF ok name_a this, of 0]
  obtain st where st: "topics_ok own empty_contents st" "metas (snd st) = (metas [])(''a'' := Some (Inr 2))"
    "tp_next (fst st) = 0" by auto
  from fun_cong [OF st(2), of "''a''"] have "metas (snd st) ''a'' = Some (Inr 2)" by simp
  with st show ?thesis
    by (intro that [of "(sample_store\<lparr>so_topics := fst st\<rparr>, snd st)"]) (simp_all add: store_ok_def)
qed

abbreviation two_brokers :: "int \<Rightarrow> ring" where
  "two_brokers me \<equiv> mod_ring 2 ''b'' me"

lemma two_brokers_in_ring: "in_ring ring_broker_for (two_brokers me)"
  by (simp add: in_ring_def ring_broker_for_def)

abbreviation sample_request :: "int \<Rightarrow> produce_request" where
  "sample_request p \<equiv> \<lparr>pq_topic = ''a'', pq_key = None, pq_value = Some [97], pq_timestamp = Some 5,
     pq_correlation = Some 7, pq_partition = Some p\<rparr>"


abbreviation sample_read :: "string \<Rightarrow> int \<Rightarrow> consume_request" where
  "sample_read name p \<equiv> \<lparr>cq_topic = name, cq_partition = p, cq_offset = 0, cq_follow = False, cq_max_records = 0\<rparr>"

theorem consume_decided_witness:
  "\<exists>s s1 s2 s3. store_ok (ring_owns ring_broker_for (two_brokers 0)) (put_contents ''a'' 0 (0, [sample_stamped]) empty_contents) s
    \<and> consume ring_broker_for (two_brokers 0) (sample_read ''a'' 0) 0 s
      = Some (([\<lparr>po_offset = 0, po_timestamp = 5, po_key = None, po_value = Some [97]\<rparr>], None), s1)
    \<and> consume ring_broker_for (two_brokers 0) (sample_read ''a'' 1) 0 s = Some (([], Some (Failed_Precondition 1 1 ''b'')), s2)
    \<and> consume ring_broker_for (two_brokers 0) (sample_read ''/'' 0) 0 s = Some (([], Some (Invalid_Argument ValueError)), s3)"
proof -
  let ?own = "ring_owns ring_broker_for (two_brokers 0)"
  let ?C = "put_contents ''a'' 0 (0, [sample_stamped]) empty_contents"
  obtain s0 where s0: "store_ok ?own empty_contents s0" "metas (snd s0) ''a'' = Some (Inr 2)" by (rule sample_created)
  obtain res s where 0: "produce ring_broker_for (two_brokers 0) (sample_request 0) 0 0 s0 = (res, s)" by (meson surj_pair)
  from produce_outcomes [OF two_brokers_in_ring s0(1) _ _ _ 0 refl refl refl] s0(2) sample_encodable have
    s: "store_ok ?own ?C s" "metas (snd s) ''a'' = Some (Inr 2)"
    by (auto simp: destination_def ring_broker_for_def empty_contents_def)
  have bad: "\<not> is_valid_name ''/''" by (simp add: is_valid_name_def validate_name_def allowed_char_def Let_def)
  have b: "address_of (two_brokers 0) 1 = Inr ''b''" by (simp add: address_of_def)
  have p: "to_proto sample_stamped = \<lparr>po_offset = 0, po_timestamp = 5, po_key = None, po_value = Some [97]\<rparr>"
    by (simp add: to_proto_def stamped_def)
  from consume_decided [OF s(1), of "sample_read ''a'' 0" 0] s(2) p obtain s1 where
    1: "consume ring_broker_for (two_brokers 0) (sample_read ''a'' 0) 0 s
      = Some (([\<lparr>po_offset = 0, po_timestamp = 5, po_key = None, po_value = Some [97]\<rparr>], None), s1)"
    by (auto simp: read_refusal_def Let_def ring_owns_iff ring_broker_for_def batch_of_def from_offset_def)
  from consume_decided [OF s(1), of "sample_read ''a'' 1" 0] s(2) b obtain s2 where
    2: "consume ring_broker_for (two_brokers 0) (sample_read ''a'' 1) 0 s = Some (([], Some (Failed_Precondition 1 1 ''b'')), s2)"
    by (auto simp: read_refusal_def Let_def ring_owns_iff ring_broker_for_def redirect_to_def)
  from consume_decided [OF s(1), of "sample_read ''/'' 0" 0] bad obtain s3 where
    3: "consume ring_broker_for (two_brokers 0) (sample_read ''/'' 0) 0 s = Some (([], Some (Invalid_Argument ValueError)), s3)"
    by (auto simp: read_refusal_def Let_def)
  from s(1) 1 2 3 show ?thesis by blast
qed


text \<open>
  With two brokers and two partitions, when it is partition 1's turn at broker 0, a keyless record that no
  one routed is refused and sent to partition 0 of broker 0: back to the broker that refused it.
\<close>

lemma keyless_redirect_to_itself:
  assumes "store_ok (ring_owns ring_broker_for (two_brokers 0)) C s" "is_valid_name (pq_topic rq)"
    "metas (snd s) (pq_topic rq) = Some (Inr 2)" "pq_key rq = None" "pq_partition rq = None"
    "tp_next (so_topics (fst s)) = 1" "produce ring_broker_for (two_brokers 0) rq now_ns tick s = (res, s')"
  shows "res = Inl (Failed_Precondition 0 0 ''b'')"
  using keyless_redirect_names_the_next [OF two_brokers_in_ring assms(1-3) _ assms(4,5) _ assms(7)] assms(6)
  by (simp add: ring_broker_for_def redirect_to_def address_of_def)

end
