(* ===== verification/Client.thy ===== *)
theory Client
  imports Handler
begin

text \<open>
  \<open>client.py\<close>: the producer and the consumer. The brokers and the network between are one state of their
  own, reached through a record of the calls the client makes; the clock of \<open>time.monotonic\<close> and \<open>sleep\<close>
  are in it. Timeouts of single calls are the network's (a call that fails with a code).
\<close>

section \<open>What the client calls\<close>

datatype grpc_code =
    Code_Cancelled
  | Code_Unknown
  | Code_Invalid_Argument
  | Code_Deadline_Exceeded
  | Code_Not_Found
  | Code_Failed_Precondition
  | Code_Out_Of_Range
  | Code_Unavailable

record 'w net =
  nt_metadata :: "string \<Rightarrow> string list \<Rightarrow> 'w \<Rightarrow> (grpc_code + topic_metadata list) \<times> 'w"
  nt_produce :: "string \<Rightarrow> produce_request \<Rightarrow> 'w \<Rightarrow> (grpc_code + produce_response) \<times> 'w"
  nt_stream :: "string \<Rightarrow> produce_request list \<Rightarrow> 'w \<Rightarrow> (produce_response list \<times> grpc_code option) \<times> 'w"
  nt_consume :: "string \<Rightarrow> consume_request \<Rightarrow> 'w \<Rightarrow> (proto_record list \<times> grpc_code option) \<times> 'w"
  nt_now :: "'w \<Rightarrow> rat"
  nt_sleep :: "rat \<Rightarrow> 'w \<Rightarrow> 'w"

section \<open>State and errors\<close>

text \<open>The library's own exceptions, and those of Python and of gRPC that reach the caller.\<close>

datatype client_error =
    Pyka_Error
  | Delivery_Failed "(string \<times> bytes option \<times> bytes option) list"
  | Client_Unknown_Topic
  | Client_Value_Error
  | Client_Key_Error
  | Client_Index_Error
  | Rpc_Error grpc_code

record client_record =
  cr_topic :: string
  cr_partition :: int
  cr_offset :: int
  cr_timestamp :: int
  cr_key :: "bytes option"
  cr_value :: "bytes option"

definition is_tombstone :: "client_record \<Rightarrow> bool" where
  "is_tombstone r \<longleftrightarrow> cr_value r = None"

definition from_proto :: "string \<Rightarrow> int \<Rightarrow> proto_record \<Rightarrow> client_record" where
  "from_proto topic p m =
     \<lparr>cr_topic = topic, cr_partition = p, cr_offset = po_offset m, cr_timestamp = po_timestamp m,
      cr_key = (if has_field (po_key m) then Some (field_value [] (po_key m)) else None),
      cr_value = (if has_field (po_value m) then Some (field_value [] (po_value m)) else None)\<rparr>"

type_synonym routing = "(int \<times> string) list"

record client =
  cl_bootstrap :: "string list"
  cl_channels :: "string list"
  cl_routing :: "(string \<times> routing) list"
  cl_next :: partitioner

type_synonym 'a outcome = "client_error + 'a"

definition connection_init :: "string list \<Rightarrow> client outcome" where
  "connection_init bootstrap =
     (if bootstrap = [] then Inl Client_Value_Error
      else Inr \<lparr>cl_bootstrap = bootstrap, cl_channels = [], cl_routing = [], cl_next = partitioner_init\<rparr>)"

section \<open>Connections and routing\<close>

text \<open>\<open>_stub\<close>: a channel per address, opened once.\<close>

definition stub :: "string \<Rightarrow> client \<Rightarrow> client" where
  "stub a c = (if a \<in> set (cl_channels c) then c else c\<lparr>cl_channels := cl_channels c @ [a]\<rparr>)"

definition client_close :: "client \<Rightarrow> client" where
  "client_close c = c\<lparr>cl_channels := []\<rparr>"

definition address_table :: "(int \<times> int \<times> string) list \<Rightarrow> routing" where
  "address_table es = fold (\<lambda>(p, b, a) rt. al_set p a rt) es []"

fun fetch_from :: "'w net \<Rightarrow> string \<Rightarrow> string list \<Rightarrow> client \<times> 'w \<Rightarrow> routing outcome \<times> client \<times> 'w" where
  "fetch_from net topic [] cw = (Inl Pyka_Error, cw)"
| "fetch_from net topic (a # as) (c, w) =
     (case nt_metadata net a [topic] w of
        (Inr ts, w1) \<Rightarrow>
          ((case ts of [] \<Rightarrow> Inl Client_Index_Error | t # _ \<Rightarrow> Inr (address_table (snd t))), (stub a c, w1))
      | (Inl code, w1) \<Rightarrow>
          if code = Code_Not_Found then (Inl Client_Unknown_Topic, (stub a c, w1))
          else fetch_from net topic as (stub a c, w1))"

definition fetch_routing :: "'w net \<Rightarrow> string \<Rightarrow> client \<times> 'w \<Rightarrow> routing outcome \<times> client \<times> 'w" where
  "fetch_routing net topic cw = fetch_from net topic (cl_bootstrap (fst cw)) cw"

definition routing_of :: "'w net \<Rightarrow> string \<Rightarrow> bool \<Rightarrow> client \<times> 'w \<Rightarrow> routing outcome \<times> client \<times> 'w" where
  "routing_of net topic refresh cw =
     (case (if refresh then None else map_of (cl_routing (fst cw)) topic) of
        Some rt \<Rightarrow> (Inr rt, cw)
      | None \<Rightarrow>
          (case fetch_routing net topic cw of
             (Inl e, cw1) \<Rightarrow> (Inl e, cw1)
           | (Inr rt, (c1, w1)) \<Rightarrow> (Inr rt, (c1\<lparr>cl_routing := al_set topic rt (cl_routing c1)\<rparr>, w1))))"

definition client_partition_for ::
  "'w net \<Rightarrow> string \<Rightarrow> bytes option \<Rightarrow> client \<times> 'w \<Rightarrow> int outcome \<times> client \<times> 'w" where
  "client_partition_for net topic key cw =
     (case routing_of net topic False cw of
        (Inl e, cw1) \<Rightarrow> (Inl e, cw1)
      | (Inr rt, (c1, w1)) \<Rightarrow>
          (case partition_for (cl_next c1) key (int (length rt)) of
             (Inl e, nxt) \<Rightarrow> (Inl Client_Value_Error, (c1\<lparr>cl_next := nxt\<rparr>, w1))
           | (Inr p, nxt) \<Rightarrow> (Inr p, (c1\<lparr>cl_next := nxt\<rparr>, w1))))"

section \<open>Waiting for a topic\<close>

partial_function (option) await_loop ::
  "'w net \<Rightarrow> string \<Rightarrow> rat \<Rightarrow> rat \<Rightarrow> client \<times> 'w \<Rightarrow> (routing outcome \<times> client \<times> 'w) option" where
  "await_loop net topic deadline delay cw =
     (case routing_of net topic True cw of
        (Inr rt, cw1) \<Rightarrow> Some (Inr rt, cw1)
      | (Inl e, (c1, w1)) \<Rightarrow>
          if e \<noteq> Client_Unknown_Topic then Some (Inl e, (c1, w1))
          else if deadline \<le> nt_now net w1 then Some (Inl e, (c1, w1))
          else await_loop net topic deadline (min (delay * 2) 2) (c1, nt_sleep net delay w1))"

definition await_topic ::
  "'w net \<Rightarrow> string \<Rightarrow> rat \<Rightarrow> client \<times> 'w \<Rightarrow> (routing outcome \<times> client \<times> 'w) option" where
  "await_topic net topic timeout cw = await_loop net topic (nt_now net (snd cw) + timeout) (1 / 4) cw"

section \<open>Producer\<close>

text \<open>The message; protobuf refuses a timestamp that is no 64-bit integer.\<close>

definition produce_message ::
  "string \<Rightarrow> bytes option \<Rightarrow> bytes option \<Rightarrow> int option \<Rightarrow> int \<Rightarrow> produce_request outcome" where
  "produce_message topic key val ts p =
     (let rq = \<lparr>pq_topic = topic, pq_key = key, pq_value = val, pq_timestamp = None, pq_correlation = None,
                pq_partition = Some p\<rparr>
      in case ts of
           None \<Rightarrow> Inr rq
         | Some t \<Rightarrow> if in_i64 t then Inr (rq\<lparr>pq_timestamp := Some t\<rparr>) else Inl Client_Value_Error)"

definition handle_error :: "'w net \<Rightarrow> grpc_code \<Rightarrow> string \<Rightarrow> client \<times> 'w \<Rightarrow> unit outcome \<times> client \<times> 'w" where
  "handle_error net code topic cw =
     (if code = Code_Failed_Precondition then
        (case routing_of net topic True cw of
           (Inl e, cw1) \<Rightarrow> (Inl e, cw1)
         | (Inr rt, cw1) \<Rightarrow> (Inr (), cw1))
      else if code = Code_Unavailable then (Inr (), cw)
      else if code = Code_Not_Found then (Inl Client_Unknown_Topic, cw)
      else (Inl Pyka_Error, cw))"

text \<open>One turn of the loop of \<open>send\<close>: an exception, the answer, or \<open>None\<close> when it is to be tried again.\<close>

definition send_attempt ::
  "'w net \<Rightarrow> string \<Rightarrow> bytes option \<Rightarrow> bytes option \<Rightarrow> int option \<Rightarrow> client \<times> 'w
    \<Rightarrow> (int \<times> int) option outcome \<times> client \<times> 'w" where
  "send_attempt net topic val key ts cw =
     (case client_partition_for net topic key cw of
        (Inl e, cw1) \<Rightarrow> (Inl e, cw1)
      | (Inr p, cw1) \<Rightarrow>
          (case produce_message topic key val ts p of
             Inl e \<Rightarrow> (Inl e, cw1)
           | Inr rq \<Rightarrow>
               (case routing_of net topic False cw1 of
                  (Inl e, cw2) \<Rightarrow> (Inl e, cw2)
                | (Inr rt, (c2, w2)) \<Rightarrow>
                    (case map_of rt p of
                       None \<Rightarrow> (Inl Client_Key_Error, (c2, w2))
                     | Some a \<Rightarrow>
                         (case nt_produce net a rq w2 of
                            (Inr resp, w3) \<Rightarrow> (Inr (Some (pr_partition resp, pr_offset resp)), (stub a c2, w3))
                          | (Inl code, w3) \<Rightarrow>
                              (case handle_error net code topic (stub a c2, w3) of
                                 (Inl e, cw4) \<Rightarrow> (Inl e, cw4)
                               | (Inr u, cw4) \<Rightarrow> (Inr None, cw4)))))))"

partial_function (option) send_loop ::
  "'w net \<Rightarrow> string \<Rightarrow> bytes option \<Rightarrow> bytes option \<Rightarrow> int option \<Rightarrow> rat \<Rightarrow> rat \<Rightarrow> client \<times> 'w
    \<Rightarrow> ((int \<times> int) outcome \<times> client \<times> 'w) option" where
  "send_loop net topic val key ts deadline backoff cw =
     (case send_attempt net topic val key ts cw of
        (Inl e, cw1) \<Rightarrow> Some (Inl e, cw1)
      | (Inr (Some po), cw1) \<Rightarrow> Some (Inr po, cw1)
      | (Inr None, (c1, w1)) \<Rightarrow>
          if deadline \<le> nt_now net w1 then Some (Inl (Delivery_Failed [(topic, key, val)]), (c1, w1))
          else send_loop net topic val key ts deadline (min (backoff * 2) 4) (c1, nt_sleep net backoff w1))"

definition send ::
  "'w net \<Rightarrow> rat \<Rightarrow> rat \<Rightarrow> string \<Rightarrow> bytes option \<Rightarrow> bytes option \<Rightarrow> int option \<Rightarrow> client \<times> 'w
    \<Rightarrow> ((int \<times> int) outcome \<times> client \<times> 'w) option" where
  "send net delivery_timeout retry_backoff topic val key ts cw =
     send_loop net topic val key ts (nt_now net (snd cw) + delivery_timeout) retry_backoff cw"

text \<open>\<open>grouped.setdefault(address, []).append(request)\<close>: groups by address, in the order they first appear.\<close>

definition group_add :: "string \<Rightarrow> 'a \<Rightarrow> (string \<times> 'a list) list \<Rightarrow> (string \<times> 'a list) list" where
  "group_add a x gs = al_set a ((case map_of gs a of None \<Rightarrow> [] | Some xs \<Rightarrow> xs) @ [x]) gs"

fun group_records ::
  "'w net \<Rightarrow> string \<Rightarrow> routing \<Rightarrow> (bytes option \<times> bytes option) list \<Rightarrow> (string \<times> produce_request list) list
    \<Rightarrow> client \<times> 'w \<Rightarrow> (string \<times> produce_request list) list outcome \<times> client \<times> 'w" where
  "group_records net topic rt [] gs cw = (Inr gs, cw)"
| "group_records net topic rt ((key, val) # records) gs cw =
     (case client_partition_for net topic key cw of
        (Inl e, cw1) \<Rightarrow> (Inl e, cw1)
      | (Inr p, cw1) \<Rightarrow>
          (case map_of rt p of
             None \<Rightarrow> (Inl Client_Key_Error, cw1)
           | Some a \<Rightarrow>
               (case produce_message topic key val None p of
                  Inl e \<Rightarrow> (Inl e, cw1)
                | Inr rq \<Rightarrow> group_records net topic rt records (group_add a rq gs) cw1)))"

fun send_groups ::
  "'w net \<Rightarrow> (string \<times> produce_request list) list \<Rightarrow> client \<times> 'w \<Rightarrow> (int \<times> int) list outcome \<times> client \<times> 'w" where
  "send_groups net [] cw = (Inr [], cw)"
| "send_groups net ((a, rqs) # gs) (c, w) =
     (case nt_stream net a rqs w of
        ((rs, Some code), w1) \<Rightarrow> (Inl (Rpc_Error code), (stub a c, w1))
      | ((rs, None), w1) \<Rightarrow>
          (case send_groups net gs (stub a c, w1) of
             (Inl e, cw2) \<Rightarrow> (Inl e, cw2)
           | (Inr rest, cw2) \<Rightarrow> (Inr (map (\<lambda>r. (pr_partition r, pr_offset r)) rs @ rest), cw2)))"

definition send_batch ::
  "'w net \<Rightarrow> string \<Rightarrow> (bytes option \<times> bytes option) list \<Rightarrow> client \<times> 'w \<Rightarrow> (int \<times> int) list outcome \<times> client \<times> 'w" where
  "send_batch net topic records cw =
     (case routing_of net topic False cw of
        (Inl e, cw1) \<Rightarrow> (Inl e, cw1)
      | (Inr rt, cw1) \<Rightarrow>
          (case group_records net topic rt records [] cw1 of
             (Inl e, cw2) \<Rightarrow> (Inl e, cw2)
           | (Inr gs, cw2) \<Rightarrow> send_groups net gs cw2))"

section \<open>Consumer\<close>

text \<open>What the generator yields, and the exception that ends it, if one does.\<close>

type_synonym 'w received = "(client_record list \<times> client_error option) \<times> client \<times> 'w"

definition consume_end :: "'w net \<Rightarrow> string \<Rightarrow> grpc_code \<Rightarrow> client \<times> 'w \<Rightarrow> client_error option \<times> client \<times> 'w" where
  "consume_end net topic code cw =
     (if code = Code_Not_Found then (Some Client_Unknown_Topic, cw)
      else
        (case (if code = Code_Failed_Precondition then
                 (case routing_of net topic True cw of (Inl e, cw1) \<Rightarrow> (Some e, cw1) | (Inr rt, cw1) \<Rightarrow> (None, cw1))
               else (None, cw)) of
           (Some e, cw1) \<Rightarrow> (Some e, cw1)
         | (None, cw1) \<Rightarrow> if code = Code_Cancelled then (None, cw1) else (Some Pyka_Error, cw1)))"

definition client_consume ::
  "'w net \<Rightarrow> string \<Rightarrow> int \<Rightarrow> int \<Rightarrow> bool \<Rightarrow> int \<Rightarrow> rat \<Rightarrow> client \<times> 'w \<Rightarrow> 'w received option" where
  "client_consume net topic p off follow limit wait cw =
     Option.bind (if 0 < wait then await_topic net topic wait cw else Some (Inr [], cw))
       (\<lambda>(awaited, cw1). Some
         (case awaited of
            Inl e \<Rightarrow> (([], Some e), cw1)
          | Inr _ \<Rightarrow>
              (case routing_of net topic False cw1 of
                 (Inl e, cw2) \<Rightarrow> (([], Some e), cw2)
               | (Inr rt, (c2, w2)) \<Rightarrow>
                   (case map_of rt p of
                      None \<Rightarrow> (([], Some Client_Key_Error), (c2, w2))
                    | Some a \<Rightarrow>
                        (case nt_consume net a \<lparr>cq_topic = topic, cq_partition = p, cq_offset = off, cq_follow = follow,
                              cq_max_records = limit\<rparr> w2 of
                           ((ms, None), w3) \<Rightarrow> ((map (from_proto topic p) ms, None), (stub a c2, w3))
                         | ((ms, Some code), w3) \<Rightarrow>
                             (case consume_end net topic code (stub a c2, w3) of
                                (err, cw4) \<Rightarrow> ((map (from_proto topic p) ms, err), cw4)))))))"

definition client_partitions :: "'w net \<Rightarrow> string \<Rightarrow> client \<times> 'w \<Rightarrow> int list outcome \<times> client \<times> 'w" where
  "client_partitions net topic cw =
     (case routing_of net topic False cw of
        (Inl e, cw1) \<Rightarrow> (Inl e, cw1)
      | (Inr rt, cw1) \<Rightarrow> (Inr (sort (map fst rt)), cw1))"

section \<open>What the client needs of time\<close>

text \<open>A call takes no negative time, and \<open>sleep\<close> sleeps as long as it was asked to.\<close>

locale clocked =
  fixes net :: "'w net"
  assumes metadata_forward: "nt_metadata net a ts w = (x, w') \<Longrightarrow> nt_now net w \<le> nt_now net w'"
    and produce_forward: "nt_produce net a rq w = (y, w') \<Longrightarrow> nt_now net w \<le> nt_now net w'"
    and sleep_forward: "0 \<le> d \<Longrightarrow> nt_now net w + d \<le> nt_now net (nt_sleep net d w)"
begin

abbreviation now :: "client \<times> 'w \<Rightarrow> rat" where
  "now cw \<equiv> nt_now net (snd cw)"

lemma fetch_from_forward: "fetch_from net topic as cw = (res, cw') \<Longrightarrow> now cw \<le> now cw'"
proof (induction as arbitrary: cw)
  case (Cons a as)
  obtain c w where cw: "cw = (c, w)" by (cases cw)
  obtain x w1 where m: "nt_metadata net a [topic] w = (x, w1)" by (meson surj_pair)
  from metadata_forward [OF m] Cons.prems Cons.IH [of "(stub a c, w1)"] show ?case
    by (auto simp: cw m split: sum.splits if_split_asm)
qed simp

lemma routing_forward: "routing_of net topic refresh cw = (res, cw') \<Longrightarrow> now cw \<le> now cw'"
  by (auto simp: routing_of_def fetch_routing_def split: option.splits prod.splits sum.splits dest!: fetch_from_forward)

lemma partition_for_forward: "client_partition_for net topic key cw = (res, cw') \<Longrightarrow> now cw \<le> now cw'"
  by (auto simp: client_partition_for_def split: prod.splits sum.splits dest!: routing_forward)

lemma handle_forward: "handle_error net code topic cw = (res, cw') \<Longrightarrow> now cw \<le> now cw'"
  by (auto simp: handle_error_def split: if_split_asm prod.splits sum.splits dest!: routing_forward)

lemma attempt_forward:
  assumes "send_attempt net topic val key ts cw = (res, cw')"
  shows "now cw \<le> now cw'"
proof -
  obtain x cw1 where 1: "client_partition_for net topic key cw = (x, cw1)" by (meson surj_pair)
  show ?thesis
  proof (cases "\<exists>p rq. x = Inr p \<and> produce_message topic key val ts p = Inr rq")
    case True
    then obtain p rq where p: "x = Inr p" "produce_message topic key val ts p = Inr rq" by blast
    obtain y c2 w2 where 2: "routing_of net topic False cw1 = (y, (c2, w2))" by (metis prod_cases3)
    have le: "now cw \<le> nt_now net w2"
      using partition_for_forward [OF 1] routing_forward [OF 2] by simp
    show ?thesis
    proof (cases "\<exists>rt a. y = Inr rt \<and> map_of rt p = Some a")
      case True
      then obtain rt a where a: "y = Inr rt" "map_of rt p = Some a" by blast
      obtain z w3 where 3: "nt_produce net a rq w2 = (z, w3)" by (meson surj_pair)
      have "now (stub a c2, w3) \<le> now cw'"
        using assms by (auto simp: send_attempt_def 1 p 2 a 3 split: sum.splits prod.splits dest!: handle_forward)
      with le produce_forward [OF 3] show ?thesis by simp
    qed (use assms le in \<open>auto simp: send_attempt_def 1 p 2 split: sum.splits option.splits\<close>)
  qed (use assms partition_for_forward [OF 1] in \<open>auto simp: send_attempt_def 1 split: sum.splits\<close>)
qed

text \<open>
  How often a loop with a deadline goes round: each time it sleeps at least \<open>step\<close>.
\<close>

definition turns :: "rat \<Rightarrow> rat \<Rightarrow> client \<times> 'w \<Rightarrow> nat" where
  "turns step deadline cw = nat \<lceil>(deadline - now cw) / step\<rceil>"

lemma turns_less:
  assumes "0 < step" "now cw \<le> nt_now net w1" "nt_now net w1 < deadline" "step \<le> d"
  shows "turns step deadline (c, nt_sleep net d w1) < turns step deadline cw"
proof -
  have "now cw + step \<le> now (c, nt_sleep net d w1)" using assms sleep_forward [of d w1] by simp
  then have "(deadline - now (c, nt_sleep net d w1)) / step \<le> (deadline - now cw - step) / step"
    using assms(1) by (intro divide_right_mono) auto
  also have "\<dots> = (deadline - now cw) / step - 1" using assms(1) by (simp add: diff_divide_distrib)
  finally have "(deadline - now (c, nt_sleep net d w1)) / step \<le> (deadline - now cw) / step - 1" .
  then have "\<lceil>(deadline - now (c, nt_sleep net d w1)) / step\<rceil> \<le> \<lceil>(deadline - now cw) / step\<rceil> - 1"
    by (metis ceiling_diff_one ceiling_mono)
  moreover have "0 < \<lceil>(deadline - now cw) / step\<rceil>" using assms by simp
  ultimately show ?thesis by (simp add: turns_def)
qed

text \<open>
  The loop of \<open>send\<close> ends, and what holds of every outcome of an attempt holds of its outcome, if what it
  starts with holds again after an attempt that is to be repeated.
\<close>

lemma send_loop_rule:
  assumes step: "0 < step" "step \<le> 4" and backoff: "step \<le> backoff"
    and start: "I cw"
    and attempt: "\<And>cw r cw'. I cw \<Longrightarrow> send_attempt net topic val key ts cw = (r, cw') \<Longrightarrow>
      (case r of
         Inl e \<Rightarrow> Q (Inl e) cw'
       | Inr (Some po) \<Rightarrow> Q (Inr po) cw'
       | Inr None \<Rightarrow> (deadline \<le> now cw' \<longrightarrow> Q (Inl (Delivery_Failed [(topic, key, val)])) cw')
           \<and> (\<forall>d. I (fst cw', nt_sleep net d (snd cw'))))"
  shows "\<exists>res cw'. send_loop net topic val key ts deadline backoff cw = Some (res, cw') \<and> Q res cw'"
  using backoff start
proof (induction "turns step deadline cw" arbitrary: cw backoff rule: less_induct)
  case less
  obtain r c1 w1 where a: "send_attempt net topic val key ts cw = (r, (c1, w1))" by (metis prod_cases3)
  note q = attempt [OF less.prems(2) a]
  note unf = send_loop.simps [of net topic val key ts deadline backoff cw, unfolded a prod.case]
  show ?case
  proof (cases "r = Inr None \<and> nt_now net w1 < deadline")
    case True
    have "turns step deadline (c1, nt_sleep net backoff w1) < turns step deadline cw"
      by (rule turns_less [OF step(1)]) (use attempt_forward [OF a] True less.prems(1) in auto)
    moreover have "step \<le> min (backoff * 2) 4" using less.prems(1) step by auto
    moreover have "I (c1, nt_sleep net backoff w1)" using q True by simp
    ultimately show ?thesis using less.hyps unf True by simp
  qed (use q unf in \<open>auto split: sum.splits option.splits\<close>)
qed

lemma fetch_from_error: "fetch_from net topic as cw = (Inl e, cw') \<Longrightarrow> e \<noteq> Delivery_Failed f"
proof (induction as arbitrary: cw)
  case (Cons a as)
  then show ?case by (cases cw) (auto split: prod.splits sum.splits if_split_asm list.splits)
qed auto

lemma routing_error: "routing_of net topic refresh cw = (Inl e, cw') \<Longrightarrow> e \<noteq> Delivery_Failed f"
  by (auto simp: routing_of_def fetch_routing_def split: option.splits prod.splits sum.splits dest: fetch_from_error)

lemma attempt_error:
  assumes "send_attempt net topic val key ts cw = (Inl e, cw')"
  shows "e \<noteq> Delivery_Failed f"
proof -
  have "client_partition_for net topic key cw = (Inl e, cw1) \<Longrightarrow> e \<noteq> Delivery_Failed f" for cw1
    by (auto simp: client_partition_for_def split: prod.splits sum.splits dest: routing_error)
  moreover have "produce_message topic key val ts p = Inl e \<Longrightarrow> e \<noteq> Delivery_Failed f" for p
    by (auto simp: produce_message_def Let_def split: option.splits if_split_asm)
  moreover have "handle_error net code topic cw1 = (Inl e, cw2) \<Longrightarrow> e \<noteq> Delivery_Failed f" for code cw1 cw2
    by (auto simp: handle_error_def split: prod.splits sum.splits if_split_asm dest: routing_error)
  ultimately show ?thesis using assms
    by (auto simp: send_attempt_def split: prod.splits sum.splits option.splits dest: routing_error)
qed

lemma send_terminates:
  assumes "0 < backoff"
  shows "\<exists>res cw'. send net timeout backoff topic val key ts cw = Some (res, cw')
    \<and> (\<forall>failed. res = Inl (Delivery_Failed failed) \<longrightarrow>
         failed = [(topic, key, val)] \<and> now cw + timeout \<le> now cw')"
  unfolding send_def
  by (rule send_loop_rule [where step = "min backoff 4" and I = "\<lambda>cw. True"])
    (use assms in \<open>auto split: sum.split option.split dest: attempt_error\<close>)

lemma await_terminates: "\<exists>res cw'. await_topic net topic timeout cw = Some (res, cw')
    \<and> (res = Inl Client_Unknown_Topic \<longrightarrow> now cw + timeout \<le> now cw')"
proof -
  have "\<exists>res cw'. await_loop net topic deadline delay cw = Some (res, cw')
      \<and> (res = Inl Client_Unknown_Topic \<longrightarrow> deadline \<le> now cw')" if "1 / 4 \<le> delay" for deadline delay cw
    using that
  proof (induction "turns (1 / 4) deadline cw" arbitrary: cw delay rule: less_induct)
    case less
    obtain r c1 w1 where a: "routing_of net topic True cw = (r, (c1, w1))" by (metis prod_cases3)
    note unf = await_loop.simps [of net topic deadline delay cw, unfolded a prod.case]
    show ?case
    proof (cases "r = Inl Client_Unknown_Topic \<and> nt_now net w1 < deadline")
      case True
      have "turns (1 / 4) deadline (c1, nt_sleep net delay w1) < turns (1 / 4) deadline cw"
        by (rule turns_less) (use routing_forward [OF a] True less.prems in auto)
      moreover have "1 / 4 \<le> min (delay * 2) 2" using less.prems by auto
      ultimately show ?thesis using less.hyps unf True by simp
    qed (use unf in \<open>auto split: sum.splits\<close>)
  qed
  then show ?thesis by (simp add: await_topic_def)
qed

end

end
