(* ===== verification/Cluster_Run.thy ===== *)
theory Cluster_Run
  imports Client
begin

text \<open>
  A whole cluster: the brokers of \<open>broker/handler.py\<close> on a ring, and a network in which any call may be
  lost on the way there or its answer on the way back. It is what the client of \<open>client.py\<close> talks to.
\<close>

section \<open>The cluster\<close>

record config =
  cf_brokers :: int
  cf_template :: string
  cf_vnodes :: int

definition ring_at :: "config \<Rightarrow> int \<Rightarrow> hash_ring" where
  "ring_at cf b = projr (hash_ring_init (cf_brokers cf) b (cf_template cf) (cf_vnodes cf))"

definition broker_at :: "config \<Rightarrow> string \<Rightarrow> int option" where
  "broker_at cf a = List.find (\<lambda>b. address_of (ring_at cf b) b = Inr a) [0 .. cf_brokers cf - 1]"

datatype fault = Delivered | Request_Lost | Response_Lost

text \<open>What happens to the calls to come, with the time each takes, and then all goes well.\<close>

record cluster =
  cu_stores :: "int \<Rightarrow> store_state"
  cu_faults :: "(fault \<times> rat) list"
  cu_clock :: rat

definition next_fault :: "cluster \<Rightarrow> fault \<times> cluster" where
  "next_fault w =
     (case cu_faults w of
        [] \<Rightarrow> (Delivered, w)
      | (ft, d) # fts \<Rightarrow> (ft, w\<lparr>cu_faults := fts, cu_clock := cu_clock w + max 0 d\<rparr>))"

text \<open>A call: to an address, of a handler, with the answer the caller gets when something is lost.\<close>

definition call ::
  "config \<Rightarrow> string \<Rightarrow> (int \<Rightarrow> rat \<Rightarrow> store_state \<Rightarrow> 'a \<times> store_state) \<Rightarrow> 'a \<Rightarrow> cluster \<Rightarrow> 'a \<times> cluster" where
  "call cf a serve lost w =
     (case next_fault w of
        (ft, w1) \<Rightarrow>
          (case (if ft = Request_Lost then None else broker_at cf a) of
             None \<Rightarrow> (lost, w1)
           | Some b \<Rightarrow>
               (case serve b (cu_clock w1) (cu_stores w1 b) of
                  (x, s) \<Rightarrow> ((if ft = Response_Lost then lost else x), w1\<lparr>cu_stores := (cu_stores w1)(b := s)\<rparr>))))"

fun code_of :: "rpc_error \<Rightarrow> grpc_code" where
  "code_of (Invalid_Argument e) = Code_Invalid_Argument"
| "code_of (Failed_Precondition p b a) = Code_Failed_Precondition"
| "code_of Not_Found = Code_Not_Found"
| "code_of Out_Of_Range = Code_Out_Of_Range"
| "code_of (Unknown e) = Code_Unknown"

fun reply_of :: "'a reply \<Rightarrow> grpc_code + 'a" where
  "reply_of (Inl e) = Inl (code_of e)"
| "reply_of (Inr x) = Inr x"

definition serve_metadata :: "config \<Rightarrow> string list \<Rightarrow> int \<Rightarrow> rat \<Rightarrow> store_state \<Rightarrow> (grpc_code + topic_metadata list) \<times> store_state" where
  "serve_metadata cf ts b t s =
     (case metadata hash_broker_for (ring_at cf b) ts t s of
        (res, s1) \<Rightarrow> (map_sum id mr_topics (reply_of res), s1))"

definition serve_produce :: "config \<Rightarrow> produce_request \<Rightarrow> int \<Rightarrow> rat \<Rightarrow> store_state \<Rightarrow> (grpc_code + produce_response) \<times> store_state" where
  "serve_produce cf rq b t s =
     (case produce hash_broker_for (ring_at cf b) rq \<lfloor>t * 1000000000\<rfloor> t s of (res, s1) \<Rightarrow> (reply_of res, s1))"

definition serve_stream ::
  "config \<Rightarrow> produce_request list \<Rightarrow> int \<Rightarrow> rat \<Rightarrow> store_state \<Rightarrow> (produce_response list \<times> grpc_code option) \<times> store_state" where
  "serve_stream cf rqs b t s =
     (case produce_stream hash_broker_for (ring_at cf b) (map (\<lambda>rq. (rq, \<lfloor>t * 1000000000\<rfloor>, t)) rqs) s of
        ((rs, err), s1) \<Rightarrow> ((rs, map_option code_of err), s1))"

text \<open>A following stream is read up to the records that are there.\<close>

definition serve_consume ::
  "config \<Rightarrow> consume_request \<Rightarrow> int \<Rightarrow> rat \<Rightarrow> store_state \<Rightarrow> (proto_record list \<times> grpc_code option) \<times> store_state" where
  "serve_consume cf rq b t s =
     (case consume hash_broker_for (ring_at cf b) (rq\<lparr>cq_follow := False\<rparr>) t s of
        None \<Rightarrow> (([], Some Code_Cancelled), s)
      | Some ((ms, err), s1) \<Rightarrow> ((ms, map_option code_of err), s1))"

definition cluster_net :: "config \<Rightarrow> cluster net" where
  "cluster_net cf =
     \<lparr>nt_metadata = \<lambda>a ts. call cf a (serve_metadata cf ts) (Inl Code_Unavailable),
      nt_produce = \<lambda>a rq. call cf a (serve_produce cf rq) (Inl Code_Unavailable),
      nt_stream = \<lambda>a rqs. call cf a (serve_stream cf rqs) ([], Some Code_Unavailable),
      nt_consume = \<lambda>a rq. call cf a (serve_consume cf rq) ([], Some Code_Unavailable),
      nt_now = cu_clock,
      nt_sleep = \<lambda>d w. w\<lparr>cu_clock := cu_clock w + max 0 d\<rparr>\<rparr>"

lemma next_fault_keeps:
  assumes "next_fault w = (ft, w1)"
  shows "cu_stores w1 = cu_stores w" "cu_clock w \<le> cu_clock w1"
  using assms by (auto simp: next_fault_def split: list.splits)

lemma call_forward: "call cf a serve lost w = (x, w') \<Longrightarrow> cu_clock w \<le> cu_clock w'"
  by (auto simp: call_def split: prod.splits option.splits if_split_asm dest: next_fault_keeps)

interpretation cluster: clocked "cluster_net cf" for cf
  by unfold_locales (auto simp: cluster_net_def dest: call_forward)

text \<open>A call reaches a broker and runs its handler, or leaves every broker alone.\<close>

lemma call_cases:
  assumes "call cf a serve lost w = (x, w')"
  obtains "x = lost" "cu_stores w' = cu_stores w"
  | b s where "broker_at cf a = Some b" "serve b (cu_clock w') (cu_stores w b) = (x, s) \<or> x = lost"
    "snd (serve b (cu_clock w') (cu_stores w b)) = s" "cu_stores w' = (cu_stores w)(b := s)"
proof -
  obtain ft w1 where f: "next_fault w = (ft, w1)" by (meson surj_pair)
  note k = next_fault_keeps [OF f]
  show ?thesis
  proof (cases "if ft = Request_Lost then None else broker_at cf a")
    case None
    with assms f k that(1) show ?thesis by (auto simp: call_def)
  next
    case (Some b)
    obtain y s where "serve b (cu_clock w1) (cu_stores w1 b) = (y, s)" by (meson surj_pair)
    with assms f k Some that(2) [of b s] show ?thesis by (auto simp: call_def split: if_split_asm)
  qed
qed

lemma ring_at_built:
  assumes "0 \<le> b" "b < cf_brokers cf" "0 < cf_vnodes cf"
  shows "hash_ring_init (cf_brokers cf) b (cf_template cf) (cf_vnodes cf) = Inr (ring_at cf b)"
    "rg_me (ring_at cf b) = b" "in_ring hash_broker_for (ring_at cf b)"
proof -
  have "\<exists>r. hash_ring_init (cf_brokers cf) b (cf_template cf) (cf_vnodes cf) = Inr r"
    using assms by (auto simp: hash_ring_init_ok)
  then show *: "hash_ring_init (cf_brokers cf) b (cf_template cf) (cf_vnodes cf) = Inr (ring_at cf b)"
    by (auto simp: ring_at_def)
  then show "rg_me (ring_at cf b) = b" by (auto simp: hash_ring_init_ok)
  show "in_ring hash_broker_for (ring_at cf b)" by (rule in_ring_built(1) [OF *])
qed

lemma broker_at_in: "broker_at cf a = Some b \<Longrightarrow> 0 \<le> b \<and> b < cf_brokers cf"
  by (auto simp: broker_at_def find_Some_iff dest!: nth_mem)

section \<open>Invariant\<close>

abbreviation owner_at :: "config \<Rightarrow> int \<Rightarrow> string \<Rightarrow> int \<Rightarrow> bool" where
  "owner_at cf b \<equiv> ring_owns hash_broker_for (ring_at cf b)"

text \<open>Every broker's store is sound, with the contents \<open>D b\<close>, and knows the topic with \<open>m\<close> partitions.\<close>

definition cluster_ok :: "config \<Rightarrow> string \<Rightarrow> int \<Rightarrow> (int \<Rightarrow> contents) \<Rightarrow> cluster \<Rightarrow> bool" where
  "cluster_ok cf topic m D w \<longleftrightarrow> (\<forall>b. 0 \<le> b \<longrightarrow> b < cf_brokers cf \<longrightarrow>
     store_ok (owner_at cf b) (D b) (cu_stores w b) \<and> metas (snd (cu_stores w b)) topic = Some (Inr m))"

text \<open>What the client has cached of the topic: an address for each partition, which may be out of date.\<close>

definition routes_all :: "int \<Rightarrow> routing \<Rightarrow> bool" where
  "routes_all m rt \<longleftrightarrow> map fst rt = [0 .. m - 1]"

definition client_ok :: "string \<Rightarrow> int \<Rightarrow> client \<Rightarrow> bool" where
  "client_ok topic m c \<longleftrightarrow> (\<forall>rt. map_of (cl_routing c) topic = Some rt \<longrightarrow> routes_all m rt)"

text \<open>\<open>x\<close> is the record that was sent, whenever it was stamped and wherever it landed.\<close>

definition copy_of :: "bytes option \<Rightarrow> bytes option \<Rightarrow> int option \<Rightarrow> log_record \<Rightarrow> bool" where
  "copy_of key val ts x \<longleftrightarrow> rec_key x = key \<and> rec_value x = val \<and> (\<forall>t. ts = Some t \<longrightarrow> rec_timestamp x = t)"

text \<open>A partition the record may go to: any of the topic's if it has no key, else the key's.\<close>

definition target :: "int \<Rightarrow> bytes option \<Rightarrow> int \<Rightarrow> bool" where
  "target m key p \<longleftrightarrow> 0 \<le> p \<and> p < m \<and> (\<forall>k. key = Some k \<longrightarrow> p = uint (crc32 k 0) mod m)"

text \<open>From \<open>D\<close> to \<open>D'\<close>, copies of the record were added at owners of its targets, and nothing else changed.\<close>

definition extended ::
  "config \<Rightarrow> string \<Rightarrow> int \<Rightarrow> bytes option \<Rightarrow> bytes option \<Rightarrow> int option
    \<Rightarrow> (int \<Rightarrow> contents) \<Rightarrow> (int \<Rightarrow> contents) \<Rightarrow> bool" where
  "extended cf topic m key val ts D D' \<longleftrightarrow> (\<forall>b name p. fst (D' b name p) = fst (D b name p)
     \<and> (\<exists>xs. snd (D' b name p) = snd (D b name p) @ xs \<and> (\<forall>x \<in> set xs. copy_of key val ts x)
         \<and> (xs \<noteq> [] \<longrightarrow> name = topic \<and> target m key p \<and> owner_at cf b topic p)))"

lemma extended_refl: "extended cf topic m key val ts D D"
  by (simp add: extended_def)

lemma extended_trans:
  assumes "extended cf topic m key val ts D D1" "extended cf topic m key val ts D1 D2"
  shows "extended cf topic m key val ts D D2"
  unfolding extended_def
proof (intro allI conjI)
  fix b name p
  from assms obtain xs ys where
    "snd (D1 b name p) = snd (D b name p) @ xs" "\<forall>x \<in> set xs. copy_of key val ts x"
    "xs \<noteq> [] \<longrightarrow> name = topic \<and> target m key p \<and> owner_at cf b topic p"
    "snd (D2 b name p) = snd (D1 b name p) @ ys" "\<forall>x \<in> set ys. copy_of key val ts x"
    "ys \<noteq> [] \<longrightarrow> name = topic \<and> target m key p \<and> owner_at cf b topic p"
    unfolding extended_def by metis
  then show "\<exists>zs. snd (D2 b name p) = snd (D b name p) @ zs \<and> (\<forall>x \<in> set zs. copy_of key val ts x)
      \<and> (zs \<noteq> [] \<longrightarrow> name = topic \<and> target m key p \<and> owner_at cf b topic p)"
    by (intro exI [of _ "xs @ ys"]) auto
  show "fst (D2 b name p) = fst (D b name p)" using assms by (simp add: extended_def)
qed

lemma extended_append:
  assumes "target m key p" "owner_at cf b topic p" "copy_of key val ts new"
  shows "extended cf topic m key val ts D (D(b := put_contents topic p (fst (D b topic p), snd (D b topic p) @ [new]) (D b)))"
  using assms by (auto simp: extended_def put_contents_def)

lemma cluster_ok_stores:
  "cluster_ok cf topic m D w \<Longrightarrow> cu_stores w' = cu_stores w \<Longrightarrow> cluster_ok cf topic m D w'"
  by (simp add: cluster_ok_def)

lemma cluster_ok_upd:
  assumes "cluster_ok cf topic m D w" "store_ok (owner_at cf b) C s" "metas (snd s) topic = Some (Inr m)"
    "cu_stores w' = (cu_stores w)(b := s)"
  shows "cluster_ok cf topic m (D(b := C)) w'"
  using assms by (auto simp: cluster_ok_def)

section \<open>The calls\<close>

lemma serve_metadata_ok:
  assumes ok: "store_ok (owner_at cf b) C s" and meta: "metas (snd s) topic = Some (Inr m)" and name: "is_valid_name topic"
    and run: "serve_metadata cf [topic] b t s = (res, s')"
  shows "store_ok (owner_at cf b) C s' \<and> metas (snd s') topic = Some (Inr m)
    \<and> (\<forall>ts. res = Inr ts \<longrightarrow> (\<exists>es. ts = [(topic, es)] \<and> map fst es = [0 .. m - 1]))"
proof -
  obtain ds s1 where d: "describe_topics hash_broker_for (ring_at cf b) True [topic] t s = (ds, s1)" by (meson surj_pair)
  note k = describe_topics_described [OF ok refl d]
  have "\<exists>es. ts = [(topic, es)] \<and> map fst es = [0 .. m - 1]" if "ds = Inr ts" for ts
    using that k meta name by (auto split: sum.splits dest: partition_entries_sound)
  moreover have "s' = s1" "res = map_sum code_of id ds"
    using run d by (auto simp: serve_metadata_def metadata_def split: sum.splits)
  moreover have "store_ok (owner_at cf b) C s1" "metas (snd s1) topic = Some (Inr m)" using k meta by simp_all
  ultimately show ?thesis by (cases ds) simp_all
qed

lemma serve_produce_ok:
  assumes cf: "0 \<le> b" "b < cf_brokers cf" "0 < cf_vnodes cf"
    and ok: "store_ok (owner_at cf b) C s" and meta: "metas (snd s) topic = Some (Inr m)" and name: "is_valid_name topic"
    and m: "1 \<le> m" and rq: "produce_message topic key val ts p = Inr rq"
    and run: "serve_produce cf rq b t s = (res, s')"
  shows "metas (snd s') topic = Some (Inr m) \<and>
    ((store_ok (owner_at cf b) C s' \<and> (\<exists>e. res = Inl e))
     \<or> (\<exists>new. owner_at cf b topic p \<and> copy_of key val ts new
         \<and> store_ok (owner_at cf b) (put_contents topic p (fst (C topic p), snd (C topic p) @ [new]) C) s'
         \<and> res = Inr \<lparr>pr_partition = p, pr_offset = fst (C topic p) + int (length (snd (C topic p))), pr_correlation = None\<rparr>))"
proof -
  have q: "pq_topic rq = topic" "pq_key rq = key" "pq_value rq = val" "pq_timestamp rq = ts" "pq_partition rq = Some p"
    "pq_correlation rq = None"
    using rq by (auto simp: produce_message_def Let_def split: option.splits if_split_asm)
  obtain res1 s1 where r: "produce hash_broker_for (ring_at cf b) rq \<lfloor>t * 1000000000\<rfloor> t s = (res1, s1)" by (meson surj_pair)
  have "p = destination (so_topics (fst s)) m (pq_key rq) (pq_partition rq)" by (simp add: destination_def q)
  note k = produce_outcomes [OF ring_at_built(3) [OF cf] ok _ _ m r this refl refl, unfolded q]
  have "s' = s1" "res = reply_of res1" using run r by (auto simp: serve_produce_def)
  moreover have "copy_of key val ts (stamped off key val ts now_ns)" for off now_ns
    by (simp add: copy_of_def stamped_def)
  ultimately show ?thesis using k name meta by (auto simp: ring_owns_iff split: if_split_asm)
qed

section \<open>The client on the cluster\<close>

text \<open>A topic on a cluster, and a state of client and cluster with the contents \<open>D\<close>.\<close>

definition running :: "config \<Rightarrow> string \<Rightarrow> int \<Rightarrow> (int \<Rightarrow> contents) \<Rightarrow> client \<times> cluster \<Rightarrow> bool" where
  "running cf topic m D cw \<longleftrightarrow> 0 < cf_vnodes cf \<and> is_valid_name topic \<and> 1 \<le> m
     \<and> client_ok topic m (fst cw) \<and> cluster_ok cf topic m D (snd cw)"

lemma metadata_call:
  assumes ok: "cluster_ok cf topic m D w" and name: "is_valid_name topic"
    and run: "nt_metadata (cluster_net cf) a [topic] w = (x, w')"
  shows "cluster_ok cf topic m D w' \<and> (\<forall>ts. x = Inr ts \<longrightarrow> (\<exists>es. ts = [(topic, es)] \<and> map fst es = [0 .. m - 1]))"
proof -
  have "call cf a (serve_metadata cf [topic]) (Inl Code_Unavailable) w = (x, w')" using run by (simp add: cluster_net_def)
  then show ?thesis
  proof (cases rule: call_cases)
    case 1
    then show ?thesis using cluster_ok_stores [OF ok] by simp
  next
    case (2 b s)
    have here: "store_ok (owner_at cf b) (D b) (cu_stores w b)" "metas (snd (cu_stores w b)) topic = Some (Inr m)"
      using ok broker_at_in [OF 2(1)] by (auto simp: cluster_ok_def)
    obtain y where y: "serve_metadata cf [topic] b (cu_clock w') (cu_stores w b) = (y, s)" using 2(3) by (metis prod.collapse)
    note k = serve_metadata_ok [OF here name y]
    have "cluster_ok cf topic m (D(b := D b)) w'"
      by (rule cluster_ok_upd [OF ok _ _ 2(4)]) (use k in simp_all)
    then show ?thesis using k 2(2) y by auto
  qed
qed

lemma address_table_keys:
  assumes "distinct (map fst es)"
  shows "map fst (address_table es) = map fst es"
proof -
  have "map fst (fold (\<lambda>(p, b, a) rt. al_set p a rt) es rt) = map fst rt @ map fst es"
    if "distinct (map fst rt @ map fst es)" for rt
    using that assms
  proof (induction es arbitrary: rt)
    case (Cons e es)
    then have "fst e \<notin> fst ` set rt" by auto
    with Cons show ?case by (cases e) (simp add: keys_list_al_set)
  qed simp
  from this [of "[]"] assms show ?thesis by (simp add: address_table_def)
qed

lemma fetch_from_ok:
  assumes "running cf topic m D cw" "fetch_from (cluster_net cf) topic as cw = (res, cw')"
  shows "running cf topic m D cw' \<and> cl_routing (fst cw') = cl_routing (fst cw) \<and> (\<forall>rt. res = Inr rt \<longrightarrow> routes_all m rt)"
  using assms
proof (induction as arbitrary: cw)
  case (Cons a as)
  obtain c w where cw: "cw = (c, w)" by (cases cw)
  obtain x w1 where x: "nt_metadata (cluster_net cf) a [topic] w = (x, w1)" by (meson surj_pair)
  note k = metadata_call [OF _ _ x, of m D]
  have st: "cl_routing (stub a c) = cl_routing c" by (simp add: stub_def)
  have I: "running cf topic m D (stub a c, w1)"
    using Cons.prems(1) k by (auto simp: running_def cw client_ok_def st)
  show ?case
  proof (cases x)
    case (Inl code)
    then show ?thesis using Cons.IH [OF I] Cons.prems(2) I by (auto simp: cw x st split: if_split_asm)
  next
    case (Inr ts)
    then obtain es where es: "ts = [(topic, es)]" "map fst es = [0 .. m - 1]"
      using k Cons.prems(1) by (auto simp: running_def cw)
    then have "distinct (map fst es)" by simp
    with es address_table_keys [of es] have "routes_all m (address_table es)" by (simp add: routes_all_def)
    then show ?thesis using Cons.prems(2) I Inr es by (auto simp: cw x st)
  qed
qed auto

lemma routing_of_ok:
  assumes "running cf topic m D cw" "routing_of (cluster_net cf) topic refresh cw = (res, cw')"
  shows "running cf topic m D cw' \<and> (\<forall>rt. res = Inr rt \<longrightarrow> routes_all m rt)"
proof (cases "if refresh then None else map_of (cl_routing (fst cw)) topic")
  case (Some rt)
  then have "map_of (cl_routing (fst cw)) topic = Some rt" by (simp split: if_split_asm)
  with Some assms show ?thesis by (auto simp: routing_of_def running_def client_ok_def)
next
  case None
  obtain r c1 w1 where f: "fetch_from (cluster_net cf) topic (cl_bootstrap (fst cw)) cw = (r, (c1, w1))" by (metis prod_cases3)
  from fetch_from_ok [OF assms(1) f] None assms(2) show ?thesis
    by (auto simp: routing_of_def fetch_routing_def f running_def client_ok_def split: sum.splits)
qed

lemma client_partition_ok:
  assumes "running cf topic m D cw" "client_partition_for (cluster_net cf) topic key cw = (res, cw')"
  shows "running cf topic m D cw' \<and> (\<forall>p. res = Inr p \<longrightarrow> target m key p)"
proof -
  obtain r c1 w1 where r: "routing_of (cluster_net cf) topic False cw = (r, (c1, w1))" by (metis prod_cases3)
  note k = routing_of_ok [OF assms(1) r]
  have nxt: "running cf topic m D (c1\<lparr>cl_next := nx\<rparr>, w1)" for nx using k by (simp add: running_def client_ok_def)
  show ?thesis
  proof (cases r)
    case (Inl e)
    then show ?thesis using assms(2) r k by (auto simp: client_partition_for_def)
  next
    case (Inr rt)
    have m: "1 \<le> m" using assms(1) by (simp add: running_def)
    have "length rt = length [0 .. m - 1]" using k Inr by (metis length_map routes_all_def)
    then have len: "int (length rt) = m" using m by simp
    obtain y nx where pf: "partition_for (cl_next c1) key m = (y, nx)" by (meson surj_pair)
    have "\<forall>p. y = Inr p \<longrightarrow> target m key p"
      using pf m by (auto simp: partition_for_def target_def split: option.splits)
    moreover have "(case y of Inl e \<Rightarrow> (Inl Client_Value_Error, (c1\<lparr>cl_next := nx\<rparr>, w1))
        | Inr p \<Rightarrow> (Inr p, (c1\<lparr>cl_next := nx\<rparr>, w1))) = (res, cw')"
      using assms(2) by (simp add: client_partition_for_def r Inr len pf)
    ultimately show ?thesis using nxt [of nx] by (auto split: sum.splits)
  qed
qed

lemma handle_error_ok:
  assumes "running cf topic m D cw" "handle_error (cluster_net cf) code topic cw = (res, cw')"
  shows "running cf topic m D cw'"
  using assms routing_of_ok [OF assms(1)]
  by (auto simp: handle_error_def split: if_split_asm prod.splits sum.splits)

text \<open>The record is the last one of the partition on broker \<open>b\<close>, at offset \<open>off\<close>.\<close>

definition landed ::
  "bytes option \<Rightarrow> bytes option \<Rightarrow> int option \<Rightarrow> offset \<times> log_record list \<Rightarrow> offset \<Rightarrow> bool" where
  "landed key val ts c off \<longleftrightarrow> (\<exists>xs new. snd c = xs @ [new] \<and> copy_of key val ts new \<and> off = fst c + int (length xs))"

lemma produce_call:
  assumes ok: "cluster_ok cf topic m D w" and cf: "0 < cf_vnodes cf" and name: "is_valid_name topic" and m: "1 \<le> m"
    and p: "target m key p" and rq: "produce_message topic key val ts p = Inr rq"
    and run: "nt_produce (cluster_net cf) a rq w = (x, w')"
  shows "\<exists>D'. cluster_ok cf topic m D' w' \<and> extended cf topic m key val ts D D'
    \<and> (\<forall>resp. x = Inr resp \<longrightarrow> pr_partition resp = p
        \<and> (\<exists>b. 0 \<le> b \<and> b < cf_brokers cf \<and> owner_at cf b topic p \<and> landed key val ts (D' b topic p) (pr_offset resp)))"
proof -
  have "call cf a (serve_produce cf rq) (Inl Code_Unavailable) w = (x, w')" using run by (simp add: cluster_net_def)
  then show ?thesis
  proof (cases rule: call_cases)
    case 1
    then show ?thesis using cluster_ok_stores [OF ok] extended_refl by blast
  next
    case (2 b s)
    have b: "0 \<le> b" "b < cf_brokers cf" using broker_at_in [OF 2(1)] by simp_all
    then have here: "store_ok (owner_at cf b) (D b) (cu_stores w b)" "metas (snd (cu_stores w b)) topic = Some (Inr m)"
      using ok by (auto simp: cluster_ok_def)
    obtain y where y: "serve_produce cf rq b (cu_clock w') (cu_stores w b) = (y, s)" using 2(3) by (metis prod.collapse)
    then have x: "x = y \<or> x = Inl Code_Unavailable" using 2(2) by auto
    note k = serve_produce_ok [OF b cf here name m rq y]
    let ?c = "D b topic p"
    from k consider "store_ok (owner_at cf b) (D b) s" "\<exists>e. y = Inl e"
      | new where "owner_at cf b topic p" "copy_of key val ts new"
        "store_ok (owner_at cf b) (put_contents topic p (fst ?c, snd ?c @ [new]) (D b)) s"
        "y = Inr \<lparr>pr_partition = p, pr_offset = fst ?c + int (length (snd ?c)), pr_correlation = None\<rparr>" by blast
    then show ?thesis
    proof cases
      case 1
      have "cluster_ok cf topic m (D(b := D b)) w'" by (rule cluster_ok_upd [OF ok _ _ 2(4)]) (use k 1 in simp_all)
      then show ?thesis using x 1(2) extended_refl by auto
    next
      case (2 new)
      let ?D = "D(b := put_contents topic p (fst ?c, snd ?c @ [new]) (D b))"
      have "cluster_ok cf topic m ?D w'"
        by (rule cluster_ok_upd [OF ok 2(3) _ \<open>cu_stores w' = (cu_stores w)(b := s)\<close>]) (use k in simp)
      moreover have "extended cf topic m key val ts D ?D" by (rule extended_append [OF p 2(1,2)])
      moreover have "landed key val ts (?D b topic p) (fst ?c + int (length (snd ?c)))"
        using 2(2) by (auto simp: landed_def)
      ultimately show ?thesis using x 2(1,4) b by (intro exI [of _ ?D]) auto
    qed
  qed
qed

text \<open>One turn of \<open>send\<close>.\<close>

lemma send_attempt_ok:
  assumes ok: "running cf topic m D cw" and run: "send_attempt (cluster_net cf) topic val key ts cw = (r, cw')"
  shows "\<exists>D'. running cf topic m D' cw' \<and> extended cf topic m key val ts D D'
    \<and> (\<forall>p off. r = Inr (Some (p, off)) \<longrightarrow> target m key p
        \<and> (\<exists>b. 0 \<le> b \<and> b < cf_brokers cf \<and> owner_at cf b topic p \<and> landed key val ts (D' b topic p) off))"
proof -
  let ?net = "cluster_net cf"
  obtain x cw1 where 1: "client_partition_for ?net topic key cw = (x, cw1)" by (meson surj_pair)
  note k1 = client_partition_ok [OF ok 1]
  show ?thesis
  proof (cases "\<exists>p rq. x = Inr p \<and> produce_message topic key val ts p = Inr rq")
    case False
    then have "cw' = cw1 \<and> (\<exists>e. r = Inl e)" using run by (auto simp: send_attempt_def 1 split: sum.splits)
    then show ?thesis using k1 extended_refl by blast
  next
    case True
    then obtain p rq where p: "x = Inr p" "produce_message topic key val ts p = Inr rq" by blast
    obtain y c2 w2 where 2: "routing_of ?net topic False cw1 = (y, (c2, w2))" by (metis prod_cases3)
    have k2: "running cf topic m D (c2, w2)" using routing_of_ok [OF _ 2] k1 by blast
    show ?thesis
    proof (cases "\<exists>rt a. y = Inr rt \<and> map_of rt p = Some a")
      case False
      then have "cw' = (c2, w2) \<and> (\<exists>e. r = Inl e)"
        using run by (auto simp: send_attempt_def 1 p 2 split: sum.splits option.splits)
      then show ?thesis using k2 extended_refl by blast
    next
      case True
      then obtain rt a where a: "y = Inr rt" "map_of rt p = Some a" by blast
      obtain z w3 where 3: "nt_produce ?net a rq w2 = (z, w3)" by (meson surj_pair)
      have t: "target m key p" using k1 p(1) by simp
      have R: "0 < cf_vnodes cf" "is_valid_name topic" "1 \<le> m" "cluster_ok cf topic m D w2"
        using k2 by (simp_all add: running_def)
      obtain D' where D': "cluster_ok cf topic m D' w3" "extended cf topic m key val ts D D'"
        "\<forall>resp. z = Inr resp \<longrightarrow> pr_partition resp = p
          \<and> (\<exists>b. 0 \<le> b \<and> b < cf_brokers cf \<and> owner_at cf b topic p \<and> landed key val ts (D' b topic p) (pr_offset resp))"
        using produce_call [OF R(4,1-3) t p(2) 3] by blast
      have "client_ok topic m (stub a c2)" using k2 by (simp add: running_def client_ok_def stub_def)
      then have k3: "running cf topic m D' (stub a c2, w3)" using D'(1) R by (simp add: running_def)
      show ?thesis
      proof (cases z)
        case (Inr resp)
        then have "r = Inr (Some (pr_partition resp, pr_offset resp))" "cw' = (stub a c2, w3)"
          using run by (simp_all add: send_attempt_def 1 p 2 a 3)
        then show ?thesis using k3 D' t Inr by auto
      next
        case (Inl code)
        obtain v cw4 where 4: "handle_error ?net code topic (stub a c2, w3) = (v, cw4)" by (meson surj_pair)
        have "cw' = cw4" "\<not> (\<exists>po. r = Inr (Some po))"
          using run by (auto simp: send_attempt_def 1 p 2 a 3 Inl 4 split: sum.splits)
        then show ?thesis using handle_error_ok [OF k3 4] D'(2) by blast
      qed
    qed
  qed
qed

lemma running_sleep:
  "running cf topic m D cw \<Longrightarrow> running cf topic m D (fst cw, nt_sleep (cluster_net cf) d (snd cw))"
  by (simp add: running_def cluster_net_def cluster_ok_def)

text \<open>What holds of every turn holds of \<open>send\<close>.\<close>

lemma send_delivers:
  assumes "running cf topic m D cw" and "0 < backoff"
    and "send (cluster_net cf) timeout backoff topic val key ts cw = Some (res, cw')"
  shows "\<exists>D'. running cf topic m D' cw' \<and> extended cf topic m key val ts D D'
    \<and> (\<forall>p off. res = Inr (p, off) \<longrightarrow> target m key p
        \<and> (\<exists>b. 0 \<le> b \<and> b < cf_brokers cf \<and> owner_at cf b topic p \<and> landed key val ts (D' b topic p) off))"
proof -
  let ?I = "\<lambda>cw. \<exists>D'. running cf topic m D' cw \<and> extended cf topic m key val ts D D'"
  let ?Q = "\<lambda>res cw. \<exists>D'. running cf topic m D' cw \<and> extended cf topic m key val ts D D'
    \<and> (\<forall>p off. res = Inr (p, off) \<longrightarrow> target m key p
        \<and> (\<exists>b. 0 \<le> b \<and> b < cf_brokers cf \<and> owner_at cf b topic p \<and> landed key val ts (D' b topic p) off))"
  have "\<exists>res cw'. send (cluster_net cf) timeout backoff topic val key ts cw = Some (res, cw') \<and> ?Q res cw'"
    unfolding send_def
  proof (rule cluster.send_loop_rule [where step = "min backoff 4" and I = ?I])
    fix cw1 r cw2
    assume "?I cw1" and a: "send_attempt (cluster_net cf) topic val key ts cw1 = (r, cw2)"
    then obtain D1 where D1: "running cf topic m D1 cw1" "extended cf topic m key val ts D D1" by blast
    from send_attempt_ok [OF D1(1) a] obtain D2 where D2: "running cf topic m D2 cw2"
      "extended cf topic m key val ts D1 D2" "\<forall>p off. r = Inr (Some (p, off)) \<longrightarrow> target m key p
        \<and> (\<exists>b. 0 \<le> b \<and> b < cf_brokers cf \<and> owner_at cf b topic p \<and> landed key val ts (D2 b topic p) off)" by blast
    note ext = extended_trans [OF D1(2) D2(2)]
    show "case r of Inl e \<Rightarrow> ?Q (Inl e) cw2 | Inr (Some po) \<Rightarrow> ?Q (Inr po) cw2
      | Inr None \<Rightarrow> (nt_now (cluster_net cf) (snd cw) + timeout \<le> nt_now (cluster_net cf) (snd cw2)
            \<longrightarrow> ?Q (Inl (Delivery_Failed [(topic, key, val)])) cw2)
          \<and> (\<forall>d. ?I (fst cw2, nt_sleep (cluster_net cf) d (snd cw2)))"
      using D2 ext running_sleep [OF D2(1)] by (cases r) (auto split: option.split)
  qed (use assms(1,2) extended_refl in auto)
  with assms(3) show ?thesis by simp
qed

section \<open>Properties\<close>


text \<open>
  Property C9. What \<open>send\<close> does to the cluster, whatever calls and answers are lost on the way and however
  stale the client's routing is: the brokers keep every record they had, and all that is added are copies
  of this record, at the end of partitions it belongs to, on the brokers that own them (one partition, the
  key's, if it has a key). If \<open>send\<close> returns, the record is in the partition and at the offset it returns.
\<close>

theorem send_at_least_once:
  assumes "running cf topic m D cw" and "0 < backoff"
    and "send (cluster_net cf) timeout backoff topic val key ts cw = Some (res, cw')"
  shows "\<exists>D'. running cf topic m D' cw' \<and> extended cf topic m key val ts D D'
    \<and> (\<forall>p off. res = Inr (p, off) \<longrightarrow> target m key p
        \<and> (\<exists>b. 0 \<le> b \<and> b < cf_brokers cf \<and> owner_at cf b topic p \<and> landed key val ts (D' b topic p) off))"
  by (rule send_delivers [OF assms])

text \<open>
  Property C21. What \<open>consume\<close> yields is what the partition holds: reading a partition from an offset, a
  client that routes it to its owner gets the partition's records from there on, in order, each with its
  offset, timestamp, key and value as stored, up to the limit. A missing key or value stays missing and
  an empty one empty, so tombstones, and only they, come back as tombstones. Reading changes no record.
\<close>

theorem consume_reads_back:
  assumes "running cf topic m D (c, w)" and "cu_faults w = []"
    and "map_of (cl_routing c) topic = Some rt" and "map_of rt p = Some a" and "broker_at cf a = Some b"
    and "owner_at cf b topic p" and "0 \<le> p" and "p < m" and "fst (D b topic p) \<le> off"
  shows "\<exists>rs cw'. client_consume (cluster_net cf) topic p off False limit 0 (c, w) = Some ((rs, None), cw')
    \<and> running cf topic m D cw'
    \<and> list_all2 (\<lambda>x r. cr_topic x = topic \<and> cr_partition x = p \<and> cr_offset x = rec_offset r
          \<and> cr_timestamp x = rec_timestamp r \<and> cr_key x = rec_key r \<and> cr_value x = rec_value r
          \<and> (is_tombstone x \<longleftrightarrow> rec_value r = None))
        rs (batch_of limit (from_offset (D b topic p) off))"
proof -
  let ?rq = "\<lparr>cq_topic = topic, cq_partition = p, cq_offset = off, cq_follow = False, cq_max_records = limit\<rparr>"
  let ?rs = "batch_of limit (from_offset (D b topic p) off)"
  from assms(1) have R: "is_valid_name topic" "cluster_ok cf topic m D w" "client_ok topic m c" "1 \<le> m" "0 < cf_vnodes cf"
    by (auto simp: running_def)
  have b: "0 \<le> b" "b < cf_brokers cf" using broker_at_in [OF assms(5)] by simp_all
  then have here: "store_ok (owner_at cf b) (D b) (cu_stores w b)" "metas (snd (cu_stores w b)) topic = Some (Inr m)"
    using R(2) by (auto simp: cluster_ok_def)
  have ref: "read_refusal hash_broker_for (ring_at cf b) (D b) (metas (snd (cu_stores w b))) ?rq off = None"
    using R(1) here(2) assms(6-9) by (simp add: read_refusal_def Let_def)
  obtain s where s: "consume hash_broker_for (ring_at cf b) ?rq (cu_clock w) (cu_stores w b) = Some ((map to_proto ?rs, None), s)"
    "store_ok (owner_at cf b) (D b) s" "metas (snd s) = metas (snd (cu_stores w b))"
    using consume_outcomes [OF here(1), of ?rq "cu_clock w"] ref by auto
  let ?w = "w\<lparr>cu_stores := (cu_stores w)(b := s)\<rparr>"
  have "nt_consume (cluster_net cf) a ?rq w = ((map to_proto ?rs, None), ?w)"
    using s(1) assms(2,5) by (simp add: cluster_net_def call_def next_fault_def serve_consume_def)
  then have run: "client_consume (cluster_net cf) topic p off False limit 0 (c, w)
      = Some ((map (from_proto topic p) (map to_proto ?rs), None), (stub a c, ?w))"
    using assms(3,4) by (simp add: client_consume_def routing_of_def)
  have "cluster_ok cf topic m (D(b := D b)) ?w" by (rule cluster_ok_upd [OF R(2) s(2)]) (use s(3) here(2) in simp_all)
  then have "running cf topic m D (stub a c, ?w)" using R by (simp add: running_def client_ok_def stub_def)
  moreover have "list_all2 (\<lambda>x r. cr_topic x = topic \<and> cr_partition x = p \<and> cr_offset x = rec_offset r
          \<and> cr_timestamp x = rec_timestamp r \<and> cr_key x = rec_key r \<and> cr_value x = rec_value r
          \<and> (is_tombstone x \<longleftrightarrow> rec_value r = None)) (map (from_proto topic p) (map to_proto rs)) rs" for rs
    by (induction rs) (auto simp: from_proto_def is_tombstone_def has_field_def field_value_def split: option.split)
  ultimately show ?thesis using run by blast
qed

section \<open>A concrete cluster\<close>

text \<open>One broker, at address \<open>b\<close>, with topic \<open>a\<close> of two partitions, and a client that knows it.\<close>

abbreviation sample_config :: config where
  "sample_config \<equiv> \<lparr>cf_brokers = 1, cf_template = ''b'', cf_vnodes = 1\<rparr>"

abbreviation sample_client :: client where
  "sample_client \<equiv> \<lparr>cl_bootstrap = [''b''], cl_channels = [], cl_routing = [(''a'', [(0, ''b''), (1, ''b'')])], cl_next = 0\<rparr>"

lemma sample_ring: "broker_at sample_config ''b'' = Some 0" "0 \<le> p \<Longrightarrow> owner_at sample_config 0 t p"
proof -
  note r = ring_at_built [of 0 sample_config]
  from r(1) have "address_of (ring_at sample_config 0) 0 = Inr ''b''" by (auto simp: hash_ring_init_ok address_of_def)
  then show "broker_at sample_config ''b'' = Some 0" by (simp add: broker_at_def)
  assume "0 \<le> p"
  with r(3) obtain b' where "hash_broker_for (ring_at sample_config 0) t p = Inr b'" "0 \<le> b'"
    "b' < rg_brokers (ring_at sample_config 0)" by (auto simp: in_ring_def)
  moreover have "rg_brokers (ring_at sample_config 0) = 1" using r(1) by (auto simp: hash_ring_init_ok)
  ultimately show "owner_at sample_config 0 t p" using r(2) by (simp add: ring_owns_iff)
qed

lemma sample_running:
  obtains w where "running sample_config ''a'' 2 (\<lambda>b. empty_contents) (sample_client, w)" "cu_faults w = []"
    "tp_next (so_topics (fst (cu_stores w 0))) = 0"
proof -
  obtain s where s: "store_ok (owner_at sample_config 0) empty_contents s" "metas (snd s) ''a'' = Some (Inr 2)"
    "tp_next (so_topics (fst s)) = 0" by (rule sample_created)
  have "cluster_ok sample_config ''a'' 2 (\<lambda>b. empty_contents) \<lparr>cu_stores = \<lambda>b. s, cu_faults = [], cu_clock = 0\<rparr>"
    unfolding cluster_ok_def
  proof (intro allI impI)
    fix b :: int assume "0 \<le> b" "b < cf_brokers sample_config"
    then have "b = 0" by simp
    then show "store_ok (owner_at sample_config b) empty_contents
        (cu_stores \<lparr>cu_stores = \<lambda>b. s, cu_faults = [], cu_clock = 0\<rparr> b)
      \<and> metas (snd (cu_stores \<lparr>cu_stores = \<lambda>b. s, cu_faults = [], cu_clock = 0\<rparr> b)) ''a'' = Some (Inr 2)"
      using s by simp
  qed
  then show ?thesis using s(3)
    by (intro that [of "\<lparr>cu_stores = \<lambda>b. s, cu_faults = [], cu_clock = 0\<rparr>"])
      (simp_all add: running_def client_ok_def routes_all_def upto.simps)
qed

text \<open>Nothing is lost, and the record lands at offset 0 of partition 0.\<close>

lemma sample_send:
  obtains w cw' where "running sample_config ''a'' 2 (\<lambda>b. empty_contents) (sample_client, w)"
    "send (cluster_net sample_config) 60 (1 / 4) ''a'' (Some [97]) None (Some 5) (sample_client, w) = Some (Inr (0, 0), cw')"
    "cu_faults (snd cw') = []" "map_of (cl_routing (fst cw')) ''a'' = Some [(0, ''b''), (1, ''b'')]"
proof -
  let ?net = "cluster_net sample_config" and ?rq = "\<lparr>pq_topic = ''a'', pq_key = None, pq_value = Some [97], pq_timestamp = Some 5,
     pq_correlation = None, pq_partition = Some 0\<rparr>"
  obtain w where w: "running sample_config ''a'' 2 (\<lambda>b. empty_contents) (sample_client, w)" "cu_faults w = []"
    "tp_next (so_topics (fst (cu_stores w 0))) = 0" by (rule sample_running)
  have here: "store_ok (owner_at sample_config 0) empty_contents (cu_stores w 0)"
    "metas (snd (cu_stores w 0)) ''a'' = Some (Inr 2)"
    using w(1) by (auto simp: running_def cluster_ok_def)
  obtain res s where r: "produce hash_broker_for (ring_at sample_config 0) ?rq \<lfloor>cu_clock w * 1000000000\<rfloor> (cu_clock w)
      (cu_stores w 0) = (res, s)" by (meson surj_pair)
  have ring: "in_ring hash_broker_for (ring_at sample_config 0)" by (rule ring_at_built(3)) simp_all
  have mine: "hash_broker_for (ring_at sample_config 0) ''a'' 0 = Inr (rg_me (ring_at sample_config 0))"
    using sample_ring(2) [of 0 "''a''"] by (simp add: ring_owns_iff)
  have enc: "encodable (stamped 0 None (Some [97]) (Some 5) x)" for x
    using sample_encodable by (simp add: stamped_def)
  have "res = Inr \<lparr>pr_partition = 0, pr_offset = 0, pr_correlation = None\<rparr>"
    using produce_outcomes [OF ring here(1) _ _ _ r refl refl refl] here(2) mine enc
    by (auto simp: destination_def empty_contents_def)
  then have p: "nt_produce ?net ''b'' ?rq w = (Inr \<lparr>pr_partition = 0, pr_offset = 0, pr_correlation = None\<rparr>,
      w\<lparr>cu_stores := (cu_stores w)(0 := s)\<rparr>)"
    using r w(2) by (simp add: cluster_net_def call_def next_fault_def sample_ring serve_produce_def)
  have "send_attempt ?net ''a'' (Some [97]) None (Some 5) (sample_client, w)
      = (Inr (Some (0, 0)), (stub ''b'' (sample_client\<lparr>cl_next := 1\<rparr>), w\<lparr>cu_stores := (cu_stores w)(0 := s)\<rparr>))"
    using p by (simp add: send_attempt_def client_partition_for_def routing_of_def partition_for_def
        produce_message_def in_i64_def)
  then have "send ?net 60 (1 / 4) ''a'' (Some [97]) None (Some 5) (sample_client, w)
      = Some (Inr (0, 0), (stub ''b'' (sample_client\<lparr>cl_next := 1\<rparr>), w\<lparr>cu_stores := (cu_stores w)(0 := s)\<rparr>))"
    by (simp add: send_def send_loop.simps)
  then show ?thesis by (rule that [OF w(1)]) (simp_all add: w(2) stub_def)
qed


theorem send_at_least_once_witness:
  "\<exists>w cw' D'. send (cluster_net sample_config) 60 (1 / 4) ''a'' (Some [97]) None (Some 5) (sample_client, w) = Some (Inr (0, 0), cw')
    \<and> running sample_config ''a'' 2 D' cw'
    \<and> extended sample_config ''a'' 2 None (Some [97]) (Some 5) (\<lambda>b. empty_contents) D'
    \<and> landed None (Some [97]) (Some 5) (D' 0 ''a'' 0) 0"
proof -
  obtain w cw' where s: "running sample_config ''a'' 2 (\<lambda>b. empty_contents) (sample_client, w)"
    "send (cluster_net sample_config) 60 (1 / 4) ''a'' (Some [97]) None (Some 5) (sample_client, w) = Some (Inr (0, 0), cw')"
    by (rule sample_send)
  from send_at_least_once [OF s(1) _ s(2)] obtain D' b where D': "running sample_config ''a'' 2 D' cw'"
    "extended sample_config ''a'' 2 None (Some [97]) (Some 5) (\<lambda>b. empty_contents) D'"
    "0 \<le> b" "b < cf_brokers sample_config" "landed None (Some [97]) (Some 5) (D' b ''a'' 0) 0" by auto
  then have "b = 0" by simp
  with s D' show ?thesis by blast
qed

text \<open>Reading it back.\<close>

lemma sample_stored:
  obtains c w D new where "running sample_config ''a'' 2 D (c, w)" "D 0 ''a'' 0 = (0, [new])"
    "copy_of None (Some [97]) (Some 5) new" "cu_faults w = []"
    "map_of (cl_routing c) ''a'' = Some [(0, ''b''), (1, ''b'')]"
proof -
  obtain w cw' where s: "running sample_config ''a'' 2 (\<lambda>b. empty_contents) (sample_client, w)"
    "send (cluster_net sample_config) 60 (1 / 4) ''a'' (Some [97]) None (Some 5) (sample_client, w) = Some (Inr (0, 0), cw')"
    "cu_faults (snd cw') = []" "map_of (cl_routing (fst cw')) ''a'' = Some [(0, ''b''), (1, ''b'')]"
    by (rule sample_send)
  have "\<exists>D'. running sample_config ''a'' 2 D' cw' \<and> fst (D' 0 ''a'' 0) = 0 \<and> landed None (Some [97]) (Some 5) (D' 0 ''a'' 0) 0"
  proof -
    from send_delivers [OF s(1) _ s(2)] obtain D' b where D': "running sample_config ''a'' 2 D' cw'"
      "extended sample_config ''a'' 2 None (Some [97]) (Some 5) (\<lambda>b. empty_contents) D'"
      "0 \<le> b" "b < cf_brokers sample_config" "landed None (Some [97]) (Some 5) (D' b ''a'' 0) 0" by auto
    then have "b = 0" "fst (D' 0 ''a'' 0) = 0" by (simp_all add: extended_def empty_contents_def)
    with D' show ?thesis by blast
  qed
  then obtain D where D: "running sample_config ''a'' 2 D cw'" "fst (D 0 ''a'' 0) = 0"
    "landed None (Some [97]) (Some 5) (D 0 ''a'' 0) 0" by blast
  then obtain new where "copy_of None (Some [97]) (Some 5) new" "D 0 ''a'' 0 = (0, [new])"
    by (cases "D 0 ''a'' 0") (auto simp: landed_def)
  with D(1) s(3,4) show ?thesis by (intro that [of D "fst cw'" "snd cw'" new]) simp_all
qed

theorem consume_reads_back_witness:
  "\<exists>c w x cw'. client_consume (cluster_net sample_config) ''a'' 0 0 False 0 0 (c, w) = Some (([x], None), cw')
    \<and> cr_offset x = 0 \<and> cr_key x = None \<and> cr_value x = Some [97] \<and> \<not> is_tombstone x"
proof -
  obtain c w D new where s: "running sample_config ''a'' 2 D (c, w)" "D 0 ''a'' 0 = (0, [new])"
    "copy_of None (Some [97]) (Some 5) new" "cu_faults w = []"
    "map_of (cl_routing c) ''a'' = Some [(0, ''b''), (1, ''b'')]" by (rule sample_stored)
  have seq: "sequential 0 [new]"
  proof -
    have "store_ok (owner_at sample_config 0) (D 0) (cu_stores w 0)" using s(1) by (simp add: running_def cluster_ok_def)
    from contents_sequential [OF this, of "''a''" 0] s(2) show ?thesis by simp
  qed
  have b: "batch_of 0 (from_offset (D 0 ''a'' 0) 0) = [new]" by (simp add: s(2) batch_of_def from_offset_def)
  have m: "map_of [(0 :: int, ''b''), (1, ''b'')] 0 = Some ''b''" by simp
  have low: "fst (D 0 ''a'' 0) \<le> 0" by (simp add: s(2))
  from consume_reads_back [OF s(1,4,5) m sample_ring(1) sample_ring(2) _ _ low, of 0] obtain rs cw' where
    k: "client_consume (cluster_net sample_config) ''a'' 0 0 False 0 0 (c, w) = Some ((rs, None), cw')"
    "list_all2 (\<lambda>x r. cr_topic x = ''a'' \<and> cr_partition x = 0 \<and> cr_offset x = rec_offset r
          \<and> cr_timestamp x = rec_timestamp r \<and> cr_key x = rec_key r \<and> cr_value x = rec_value r
          \<and> (is_tombstone x \<longleftrightarrow> rec_value r = None)) rs [new]"
    unfolding b by auto
  then obtain x where x: "rs = [x]" by (auto simp: list_all2_Cons2)
  with k s(3) seq have "cr_offset x = 0" "cr_key x = None" "cr_value x = Some [97]" "\<not> is_tombstone x"
    by (auto simp: copy_of_def)
  with k(1) x show ?thesis
    by (intro exI [where x = c] exI [where x = w] exI [where x = x] exI [where x = cw']) simp
qed

end
