(* ===== verification/Admin_Api.thy ===== *)
theory Admin_Api
  imports Handler
begin

text \<open>
  \<open>broker/admin.py\<close>: the endpoints of the control plane as functions of the request and the store. What
  \<open>_to_thread\<close> runs is one step; an endpoint of several steps is modelled without others in between.
\<close>

section \<open>Answers\<close>

datatype http_error = Http_400 | Http_404 | Http_422 | Uncaught py_error

type_synonym 'a answer = "http_error + 'a"

record segment_info =
  si_base :: int
  si_next :: int
  si_size :: nat
  si_entries :: nat
  si_sealed :: bool

record partition_info =
  pi_partition :: int
  pi_base :: int
  pi_next :: int
  pi_size :: nat
  pi_segments :: "segment_info list"

record broker_info =
  bi_id :: int
  bi_brokers :: int
  bi_ready :: bool
  bi_topics :: nat

definition segment_info_of :: "segment \<Rightarrow> segment_info" where
  "segment_info_of s =
     \<lparr>si_base = sg_base s, si_next = sg_next s, si_size = sg_pos s, si_entries = index_len (sg_index s),
      si_sealed = sg_closed s\<rparr>"

definition partition_info_of :: "int \<Rightarrow> part_log \<Rightarrow> partition_info" where
  "partition_info_of p lg =
     (let segments = map segment_info_of (lg_segments lg)
      in \<lparr>pi_partition = p, pi_base = si_base (hd segments), pi_next = log_next lg,
          pi_size = sum_list (map si_size segments), pi_segments = segments\<rparr>)"

text \<open>How \<open>_to_thread\<close> maps exceptions; what it does not map ends as a 500.\<close>

definition thread_answer :: "'a result \<Rightarrow> 'a answer" where
  "thread_answer res =
     (case res of
        Inr x \<Rightarrow> Inr x
      | Inl e \<Rightarrow> Inl (if e = UnknownTopic then Http_404 else if is_value_error e then Http_400 else Uncaught e))"

section \<open>Endpoints\<close>

definition readyz :: "store_state \<Rightarrow> int \<times> bool" where
  "readyz s = (let ready = so_ready (fst s) in (if \<not> ready then 503 else 200, ready))"

definition broker_info_of :: "'a ring_scheme \<Rightarrow> store_state \<Rightarrow> broker_info" where
  "broker_info_of r s =
     \<lparr>bi_id = rg_me r, bi_brokers = rg_brokers r, bi_ready = so_ready (fst s), bi_topics = length (store_names s)\<rparr>"

definition list_topics :: "store_state \<Rightarrow> string list" where
  "list_topics s = store_names s"

text \<open>A count below 1 does not pass the schema of the request.\<close>

definition create_topic ::
  "(string \<Rightarrow> int \<Rightarrow> bool) \<Rightarrow> string \<Rightarrow> int option \<Rightarrow> rat \<Rightarrow> store_state \<Rightarrow> (string \<times> int) answer \<times> store_state" where
  "create_topic own name partitions tick s =
     (if (case partitions of None \<Rightarrow> False | Some k \<Rightarrow> k < 1) then (Inl Http_422, s)
      else
        (case store_create own name partitions tick s of
           (Inr n, s1) \<Rightarrow> (Inr (name, n), s1)
         | (Inl e, s1) \<Rightarrow> (Inl (if is_value_error e then Http_400 else Uncaught e), s1)))"

definition describe_topic ::
  "(string \<Rightarrow> int \<Rightarrow> bool) \<Rightarrow> string \<Rightarrow> rat \<Rightarrow> store_state \<Rightarrow> (string \<times> int) answer \<times> store_state" where
  "describe_topic own name tick s =
     (case store_partitions_of own name tick s of
        (res, s1) \<Rightarrow> (case thread_answer res of Inl e \<Rightarrow> (Inl e, s1) | Inr n \<Rightarrow> (Inr (name, n), s1)))"

definition get_log ::
  "(string \<Rightarrow> int \<Rightarrow> bool) \<Rightarrow> string \<Rightarrow> int \<Rightarrow> rat \<Rightarrow> store_state \<Rightarrow> part_log answer \<times> store_state" where
  "get_log own name p tick s = (case in_topics (topic_get own name p tick) s of (res, s1) \<Rightarrow> (thread_answer res, s1))"

definition describe_partition ::
  "(string \<Rightarrow> int \<Rightarrow> bool) \<Rightarrow> string \<Rightarrow> int \<Rightarrow> rat \<Rightarrow> store_state \<Rightarrow> partition_info answer \<times> store_state" where
  "describe_partition own name p tick s =
     (case get_log own name p tick s of
        (Inl e, s1) \<Rightarrow> (Inl e, s1)
      | (Inr lg, s1) \<Rightarrow> (Inr (partition_info_of p lg), s1))"

fun get_logs ::
  "(string \<Rightarrow> int \<Rightarrow> bool) \<Rightarrow> string \<Rightarrow> int list \<Rightarrow> rat \<Rightarrow> store_state \<Rightarrow> (int \<times> part_log) list answer \<times> store_state" where
  "get_logs own name [] tick s = (Inr [], s)"
| "get_logs own name (p # ps) tick s =
     (case get_log own name p tick s of
        (Inl e, s1) \<Rightarrow> (Inl e, s1)
      | (Inr lg, s1) \<Rightarrow>
          (case get_logs own name ps tick s1 of
             (Inl e, s2) \<Rightarrow> (Inl e, s2)
           | (Inr lgs, s2) \<Rightarrow> (Inr ((p, lg) # lgs), s2)))"

definition all_logs ::
  "(string \<Rightarrow> int \<Rightarrow> bool) \<Rightarrow> string \<Rightarrow> rat \<Rightarrow> store_state \<Rightarrow> (int \<times> part_log) list answer \<times> store_state" where
  "all_logs own name tick s =
     (case store_partitions_of own name tick s of
        (res, s1) \<Rightarrow>
          (case thread_answer res of
             Inl e \<Rightarrow> (Inl e, s1)
           | Inr n \<Rightarrow> get_logs own name [0 .. n - 1] tick s1))"

text \<open>
  An operation of a log object the endpoint holds. While the topic is open it is the object in the topic's
  table, so its state is read and kept there.
\<close>

definition on_log ::
  "string \<Rightarrow> int \<Rightarrow> part_log \<Rightarrow> (part_log \<Rightarrow> dir \<Rightarrow> unit result \<times> part_log \<times> dir) \<Rightarrow> tstate \<Rightarrow> part_log result \<times> tstate" where
  "on_log name p lg f st =
     (case open_entry st name p of
        None \<Rightarrow>
          (case f lg (part_dir name p (snd st)) of
             (res, lg1, d) \<Rightarrow> (bind_result res (\<lambda>u. Inr lg1), (fst st, set_part_dir name p d (snd st))))
      | Some e \<Rightarrow>
          (case f (pe_log e) (part_dir name p (snd st)) of
             (res, lg1, d) \<Rightarrow> (bind_result res (\<lambda>u. Inr lg1), put_entry name p (e\<lparr>pe_log := lg1\<rparr>) d st)))"

fun sync_logs :: "string \<Rightarrow> (int \<times> part_log) list \<Rightarrow> store_state \<Rightarrow> unit answer \<times> store_state" where
  "sync_logs name [] s = (Inr (), s)"
| "sync_logs name ((p, lg) # lgs) s =
     (case in_topics (on_log name p lg log_sync) s of
        (res, s1) \<Rightarrow> (case thread_answer res of Inl e \<Rightarrow> (Inl e, s1) | Inr lg1 \<Rightarrow> sync_logs name lgs s1))"

definition sync_topic :: "(string \<Rightarrow> int \<Rightarrow> bool) \<Rightarrow> string \<Rightarrow> rat \<Rightarrow> store_state \<Rightarrow> unit answer \<times> store_state" where
  "sync_topic own name tick s =
     (case all_logs own name tick s of
        (Inl e, s1) \<Rightarrow> (Inl e, s1)
      | (Inr lgs, s1) \<Rightarrow> sync_logs name lgs s1)"

text \<open>\<open>roll\<close> returns the segment that is active after it.\<close>

definition roll_partition ::
  "(string \<Rightarrow> int \<Rightarrow> bool) \<Rightarrow> string \<Rightarrow> int \<Rightarrow> rat \<Rightarrow> store_state \<Rightarrow> segment_info answer \<times> store_state" where
  "roll_partition own name p tick s =
     (case get_log own name p tick s of
        (Inl e, s1) \<Rightarrow> (Inl e, s1)
      | (Inr lg, s1) \<Rightarrow>
          (case in_topics (on_log name p lg log_roll) s1 of
             (res, s2) \<Rightarrow>
               (case thread_answer res of Inl e \<Rightarrow> (Inl e, s2) | Inr lg1 \<Rightarrow> (Inr (segment_info_of (active lg1)), s2))))"

section \<open>Getting logs\<close>

lemma topic_get_decides:
  assumes ok: "topics_ok own C st" and name: "is_valid_name name" and meta: "metas (snd st) name = Some (Inr n)"
    and run: "topic_get own name p tick st = (res, st')"
  shows "topics_ok own C st' \<and> metas (snd st') = metas (snd st)
    \<and> (if \<not> (0 \<le> p \<and> p < n) then res = Inl ValueError
       else if \<not> own name p then res = Inl PartitionNotLocal
       else \<exists>e. res = Inr (pe_log e) \<and> open_entry st' name p = Some e)
    \<and> (\<forall>q e. open_entry st name q = Some e \<longrightarrow> open_entry st' name q = Some e)"
proof -
  from the_topic_found [OF ok name meta] obtain ot tp rt where
    t: "the_topic own name tick st = (Inr ot, (tp, rt))" "ot_partitions ot = n" by (metis prod.collapse)
  from the_topic_ok [OF ok t(1)] have o: "topics_ok own C (tp, rt)" "map_of (tp_open tp) name = Some ot"
    "metas rt = metas (snd st)" by auto
  note keys = local_keys [OF topics_okD(4) [OF o(1,2)], of p, unfolded t(2)]
  have st': "st' = (tp, rt)" "res = bind_result (check_partition ot p) (\<lambda>e. Inr (pe_log e))"
    using run t(1) by (auto simp: topic_get_def)
  have "open_entry st' name q = Some e" if "open_entry st name q = Some e" for q e
  proof -
    from that obtain ot0 where "map_of (tp_open (fst st)) name = Some ot0" by (auto simp: open_entry_def split: option.splits)
    moreover have "validate_name name = Inr ()" using name by (simp add: valid_name_iff)
    ultimately have "(tp, rt) = st" using t(1) by (simp add: the_topic_def)
    with that st' show ?thesis by simp
  qed
  moreover have "check_partition ot p = (if \<not> (0 \<le> p \<and> p < n) then Inl ValueError
      else (case map_of (ot_local ot) p of None \<Rightarrow> Inl PartitionNotLocal | Some e \<Rightarrow> Inr e))"
    using t(2) by (simp add: check_partition_def)
  ultimately show ?thesis using o st' keys by (auto simp: open_entry_def split: option.split)
qed

lemma get_log_decides:
  assumes ok: "store_ok own C s" and name: "is_valid_name name" and meta: "metas (snd s) name = Some (Inr n)"
    and p: "0 \<le> p" "p < n" and run: "get_log own name p tick s = (res, s')"
  shows "store_ok own C s' \<and> metas (snd s') = metas (snd s)
    \<and> (if \<not> own name p then res = Inl (Uncaught PartitionNotLocal)
       else \<exists>e. res = Inr (pe_log e) \<and> open_entry (so_topics (fst s'), snd s') name p = Some e)
    \<and> (\<forall>q e. open_entry (so_topics (fst s), snd s) name q = Some e \<longrightarrow> open_entry (so_topics (fst s'), snd s') name q = Some e)"
proof -
  obtain so rt where s: "s = (so, rt)" by (cases s)
  note D = store_okD [OF ok [unfolded s]]
  obtain r tp' rt' where c: "topic_get own name p tick (so_topics so, rt) = (r, (tp', rt'))" by (metis prod_cases3)
  have "metas (snd (so_topics so, rt)) name = Some (Inr n)" using meta by (simp add: s)
  note k = topic_get_decides [OF D(1) name this c]
  have "res = thread_answer r" "s' = (so\<lparr>so_topics := tp'\<rparr>, rt')"
    using run c by (auto simp: get_log_def in_topics_def s)
  with k D(2) p show ?thesis by (auto simp: s store_ok_def thread_answer_def)
qed

lemma get_logs_decides:
  assumes "store_ok own C s" "is_valid_name name" "metas (snd s) name = Some (Inr n)"
    "set ps \<subseteq> {0 ..< n}" "get_logs own name ps tick s = (res, s')"
  shows "store_ok own C s' \<and> metas (snd s') = metas (snd s)
    \<and> (if \<forall>p \<in> set ps. own name p then (\<exists>lgs. res = Inr lgs \<and> map fst lgs = ps)
         \<and> (\<forall>p \<in> set ps. open_entry (so_topics (fst s'), snd s') name p \<noteq> None)
       else res = Inl (Uncaught PartitionNotLocal))
    \<and> (\<forall>q e. open_entry (so_topics (fst s), snd s) name q = Some e \<longrightarrow> open_entry (so_topics (fst s'), snd s') name q = Some e)"
  using assms
proof (induction ps arbitrary: s res s')
  case (Cons p ps)
  obtain r s1 where g: "get_log own name p tick s = (r, s1)" by (meson surj_pair)
  have p: "0 \<le> p" "p < n" using Cons.prems(4) by auto
  note k = get_log_decides [OF Cons.prems(1-3) p g]
  show ?case
  proof (cases "own name p")
    case False
    with k g Cons.prems(5) show ?thesis by auto
  next
    case True
    then obtain e where e: "r = Inr (pe_log e)" "open_entry (so_topics (fst s1), snd s1) name p = Some e" using k by auto
    obtain r2 s2 where g2: "get_logs own name ps tick s1 = (r2, s2)" by (meson surj_pair)
    have "store_ok own C s1" "metas (snd s1) name = Some (Inr n)" "set ps \<subseteq> {0 ..< n}"
      using k Cons.prems(3,4) by auto
    note ih = Cons.IH [OF this(1) Cons.prems(2) this(2,3) g2]
    from Cons.prems(5) g g2 e(1) have "s' = s2" "res = (case r2 of Inl e \<Rightarrow> Inl e | Inr lgs \<Rightarrow> Inr ((p, pe_log e) # lgs))"
      by (auto split: sum.splits)
    with ih k e True show ?thesis by auto
  qed
qed auto

lemma all_logs_decides:
  assumes ok: "store_ok own C s" and name: "is_valid_name name" and meta: "metas (snd s) name = Some (Inr n)"
    and run: "all_logs own name tick s = (res, s')"
  shows "store_ok own C s' \<and> metas (snd s') = metas (snd s)
    \<and> (if \<forall>p \<in> {0 ..< n}. own name p then \<exists>lgs. res = Inr lgs \<and> distinct (map fst lgs) \<and> fst ` set lgs = {0 ..< n}
         \<and> (\<forall>p \<in> {0 ..< n}. open_entry (so_topics (fst s'), snd s') name p \<noteq> None)
       else res = Inl (Uncaught PartitionNotLocal))"
proof -
  obtain r s1 where c: "store_partitions_of own name tick s = (r, s1)" by (meson surj_pair)
  note k = store_partitions_of_decides [OF ok c]
  have s1: "r = Inr n" "store_ok own C s1" "metas (snd s1) = metas (snd s)" using k name meta by auto
  have meta1: "metas (snd s1) name = Some (Inr n)" using meta s1(3) by simp
  have g: "get_logs own name [0 .. n - 1] tick s1 = (res, s')"
    using run by (simp add: all_logs_def c s1(1) thread_answer_def)
  have dom: "set [0 .. n - 1] = {0 ..< n}" by auto
  note k2 = get_logs_decides [OF s1(2) name meta1 _ g, unfolded dom, simplified]
  have "distinct (map fst lgs) \<and> fst ` set lgs = {0 ..< n}" if "map fst lgs = [0 .. n - 1]" for lgs :: "(int \<times> part_log) list"
    using that dom by (metis distinct_upto list.set_map)
  with k2 s1(3) show ?thesis by auto
qed

section \<open>Syncing and rolling\<close>

lemma on_log_put:
  assumes "open_entry st name p = Some e" "f (pe_log e) (part_dir name p (snd st)) = (res, lg, d)"
  shows "on_log name p lg0 f st = (bind_result res (\<lambda>u. Inr lg), put_entry name p (e\<lparr>pe_log := lg\<rparr>) d st)"
  using assms by (simp add: on_log_def)

lemma open_entry_holds:
  assumes "topics_ok own C st" "open_entry st name p = Some e"
  shows "entry_ok (C name p) e (part_dir name p (snd st))" "healthy (part_dir name p (snd st))"
    "is_valid_name name" "own name p" "0 \<le> p"
proof -
  obtain tp rt where st: "st = (tp, rt)" by (cases st)
  with assms(2) obtain ot where ot: "map_of (tp_open tp) name = Some ot" "map_of (ot_local ot) p = Some e"
    by (auto simp: open_entry_iff)
  note D = topics_okD [OF assms(1) [unfolded st]]
  show "entry_ok (C name p) e (part_dir name p (snd st))" "healthy (part_dir name p (snd st))" "is_valid_name name"
    using D(4) [OF ot(1)] ot(2) D(3) [of name p] by (auto simp: open_ok_def on_disk_def st)
  show "own name p" "0 \<le> p" using local_keys [OF D(4) [OF ot(1)], of p] ot(2) by auto
qed

lemma on_log_sync:
  assumes ok: "topics_ok own C st" and e: "open_entry st name p = Some e"
  shows "\<exists>st' e'. on_log name p lg0 log_sync st = (Inr (pe_log e'), st') \<and> topics_ok own C st' \<and> metas (snd st') = metas (snd st)
    \<and> open_entry st' name p = Some e' \<and> entry_durable (C name p) e' (part_dir name p (snd st'))
    \<and> (\<forall>q. q \<noteq> p \<longrightarrow> open_entry st' name q = open_entry st name q \<and> part_dir name q (snd st') = part_dir name q (snd st))"
proof -
  note h = open_entry_holds [OF ok e]
  from entry_sync_ok [OF h(1,2), of 0] obtain lg d where
    s: "log_sync (pe_log e) (part_dir name p (snd st)) = (Inr (), lg, d)" "on_disk (C name p) d"
      "entry_ok (C name p) (mark_synced 0 (e\<lparr>pe_log := lg\<rparr>)) d"
      "entry_durable (C name p) (mark_synced 0 (e\<lparr>pe_log := lg\<rparr>)) d" by blast
  let ?e = "e\<lparr>pe_log := lg\<rparr>"
  have e': "entry_ok (C name p) ?e d" "entry_durable (C name p) ?e d"
    using s(3,4) h(1) by (simp_all add: entry_ok_def entry_durable_def mark_synced_def)
  from put_entry_ok [OF ok e e'(1) s(2)] have "topics_ok own C (put_entry name p ?e d st)" by simp
  moreover have "metas (snd (put_entry name p ?e d st)) = metas (snd st)"
    by (cases st) (simp add: put_entry_def split: option.split)
  ultimately show ?thesis
    using on_log_put [where f = log_sync and ?lg0.0 = lg0, OF e s(1)] open_entry_put [OF e, where e = ?e and d = d] e'(2)
    by (intro exI [where x = "put_entry name p ?e d st"] exI [where x = ?e]) simp
qed

lemma sync_logs_ok:
  assumes "store_ok own C s" "distinct (map fst lgs)" "\<forall>p \<in> fst ` set lgs. open_entry (so_topics (fst s), snd s) name p \<noteq> None"
  shows "\<exists>s'. sync_logs name lgs s = (Inr (), s') \<and> store_ok own C s' \<and> metas (snd s') = metas (snd s)
    \<and> (\<forall>p \<in> fst ` set lgs. \<exists>e. open_entry (so_topics (fst s'), snd s') name p = Some e \<and> entry_durable (C name p) e (part_dir name p (snd s')))
    \<and> (\<forall>q. q \<notin> fst ` set lgs \<longrightarrow> open_entry (so_topics (fst s'), snd s') name q = open_entry (so_topics (fst s), snd s) name q
        \<and> part_dir name q (snd s') = part_dir name q (snd s))"
  using assms
proof (induction lgs arbitrary: s)
  case (Cons x lgs)
  obtain p lg where x: "x = (p, lg)" by (cases x)
  obtain so rt where s: "s = (so, rt)" by (cases s)
  note D = store_okD [OF Cons.prems(1) [unfolded s]]
  obtain e where e: "open_entry (so_topics so, rt) name p = Some e" using Cons.prems(3) by (auto simp: s x)
  from on_log_sync [where ?lg0.0 = lg, OF D(1) e] obtain tp' rt' e' where l: "on_log name p lg log_sync (so_topics so, rt) = (Inr (pe_log e'), (tp', rt'))"
    "topics_ok own C (tp', rt')" "metas rt' = metas rt" "open_entry (tp', rt') name p = Some e'"
    "entry_durable (C name p) e' (part_dir name p rt')"
    "\<forall>q. q \<noteq> p \<longrightarrow> open_entry (tp', rt') name q = open_entry (so_topics so, rt) name q \<and> part_dir name q rt' = part_dir name q rt"
    by auto
  let ?s = "(so\<lparr>so_topics := tp'\<rparr>, rt')"
  have ok: "store_ok own C ?s" using l(2) D(2) by (simp add: store_ok_def)
  have step: "sync_logs name (x # lgs) s = sync_logs name lgs ?s"
    using l(1) by (simp add: in_topics_def s x thread_answer_def)
  have keys: "distinct (map fst lgs)" "p \<notin> fst ` set lgs" using Cons.prems(2) by (simp_all add: x)
  have "open_entry (so_topics (fst ?s), snd ?s) name q \<noteq> None" if "q \<in> fst ` set lgs" for q
  proof -
    have "q \<noteq> p" using that keys(2) by metis
    moreover have "open_entry (so_topics so, rt) name q \<noteq> None" using Cons.prems(3) that by (auto simp: s)
    ultimately show ?thesis using l(6) by simp
  qed
  moreover note keys
  ultimately obtain s' where "sync_logs name lgs ?s = (Inr (), s')" "store_ok own C s'" "metas (snd s') = metas rt"
    "\<forall>p \<in> fst ` set lgs. \<exists>e. open_entry (so_topics (fst s'), snd s') name p = Some e \<and> entry_durable (C name p) e (part_dir name p (snd s'))"
    "\<forall>q. q \<notin> fst ` set lgs \<longrightarrow> open_entry (so_topics (fst s'), snd s') name q = open_entry (tp', rt') name q
        \<and> part_dir name q (snd s') = part_dir name q rt'"
    using Cons.IH [OF ok] l(3) by auto
  then show ?case using step l \<open>p \<notin> fst ` set lgs\<close> by (intro exI [where x = s']) (auto simp: s x)
qed simp

lemma on_log_roll:
  assumes ok: "topics_ok own C st" and e: "open_entry st name p = Some e"
  shows "\<exists>st' e'. on_log name p lg0 log_roll st = (Inr (pe_log e'), st') \<and> topics_ok own C st'
    \<and> open_entry st' name p = Some e' \<and> entry_durable (C name p) e' (part_dir name p (snd st'))
    \<and> sg_next (active (pe_log e')) = fst (C name p) + int (length (snd (C name p)))
    \<and> sg_base (active (pe_log e')) = sg_next (active (pe_log e')) \<and> sg_pos (active (pe_log e')) = 0
    \<and> \<not> sg_closed (active (pe_log e'))"
proof -
  note h = open_entry_holds [OF ok e]
  let ?d = "part_dir name p (snd st)" and ?c = "C name p"
  from h(1) obtain qs q where l: "log_ok (pe_log e) qs q ?d" "live (pe_log e)" "log_base (pe_log e) = fst ?c"
    "concat qs @ q = snd ?c" by (auto simp: entry_ok_def log_holds_def)
  obtain res lg d where r: "log_roll (pe_log e) ?d = (res, lg, d)" by (metis prod_cases3)
  from log_roll_ok [OF l(1,2) r] h(2) obtain qs' where
    k: "log_ok lg qs' [] d" "concat qs' = snd ?c" "live lg" "log_base lg = fst ?c" "healthy d" "res = Inr ()"
    using l(3,4) by auto
  have holds: "log_holds (lg, d) (fst ?c) (snd ?c)"
    unfolding log_holds_def using k by (intro exI [of _ qs'] exI [of _ "[]"]) simp
  have "on_disk ?c d" using on_disk_of_log [OF k(1,5)] k(2,4) by simp
  moreover have e': "entry_ok ?c (e\<lparr>pe_log := lg\<rparr>) d" using holds h(1) by (simp add: entry_ok_def)
  ultimately have put: "topics_ok own C (put_entry name p (e\<lparr>pe_log := lg\<rparr>) d st)"
    using put_entry_ok [OF ok e, of ?c] by simp
  from log_okE [OF k(1)] have "seg_ok (active lg) [] d" by metis
  note f = seg_ok_fields(2,3) [OF this]
  have next_off: "log_next lg = fst ?c + int (length (snd ?c))" using log_ok_records(2) [OF k(1)] k(2,4) by simp
  then have n: "sg_next (active lg) = fst ?c + int (length (snd ?c))" by (simp add: log_next_def)
  have "durable lg [] d (fst ?c + int (length (snd ?c)))" by (simp add: durable_def next_off)
  then have "log_kept (lg_max lg) (fst ?c + int (length (snd ?c))) (lg, d) (fst ?c) (snd ?c)"
    unfolding log_kept_def using k by (intro exI [of _ qs'] exI [of _ "[]"]) simp
  then have "entry_durable ?c (e\<lparr>pe_log := lg\<rparr>) d" by (simp add: entry_durable_def)
  then show ?thesis
    using on_log_put [where f = log_roll and ?lg0.0 = lg0, OF e r] put
      open_entry_put [OF e, where e = "e\<lparr>pe_log := lg\<rparr>" and d = d] n f k(3,6)
    by (intro exI [where x = "put_entry name p (e\<lparr>pe_log := lg\<rparr>) d st"] exI [where x = "e\<lparr>pe_log := lg\<rparr>"]) simp
qed

lemma store_ok_entries:
  "store_ok own C s \<Longrightarrow> topics_ok own C (so_topics (fst s), snd s)"
  by (simp add: store_ok_def)

lemma durable_reopens:
  assumes "entry_durable c e d" "power_cut d d1" "0 < mx" "mx \<le> MAX_U32 + 1"
  shows "\<exists>lg d2. log_open mx d1 = (Inr lg, d2) \<and> log_read_from lg (fst c) d2 = Inr (snd c, None)"
proof -
  from kept_power_cut [OF assms(1) [unfolded entry_durable_def] assms(2-4)] obtain lg d2 where
    "log_open mx d1 = (Inr lg, d2)" and h: "log_holds (lg, d2) (fst c) (snd c)" by blast
  with fetch_holds [OF h, of "fst c"] show ?thesis by (auto simp: fetch_def)
qed

section \<open>Properties\<close>


text \<open>
  Property C35. Rolling a partition by hand loses nothing: on a partition of this broker it succeeds and
  answers with an open, empty segment that starts at the next offset, also when the active segment was
  already such a one; every record stays, and all of them survive a power cut from then on.
\<close>

theorem roll_seals_everything:
  assumes "store_ok own C s" and "is_valid_name name" and "metas (snd s) name = Some (Inr n)"
    and "0 \<le> p" and "p < n" and "own name p"
    and "roll_partition own name p tick s = (res, s')" and "0 < mx" and "mx \<le> MAX_U32 + 1"
  shows "store_ok own C s'
    \<and> (\<exists>info. res = Inr info \<and> si_base info = fst (C name p) + int (length (snd (C name p)))
        \<and> si_next info = si_base info \<and> si_size info = 0 \<and> \<not> si_sealed info)
    \<and> (\<forall>d. power_cut (part_dir name p (snd s')) d \<longrightarrow>
        (\<exists>lg d'. log_open mx d = (Inr lg, d') \<and> log_read_from lg (fst (C name p)) d' = Inr (snd (C name p), None)))"
proof -
  obtain r s1 where g: "get_log own name p tick s = (r, s1)" by (meson surj_pair)
  from get_log_decides [OF assms(1-5) g] assms(6) obtain e where
    s1: "r = Inr (pe_log e)" "store_ok own C s1" "open_entry (so_topics (fst s1), snd s1) name p = Some e" by auto
  from on_log_roll [where ?lg0.0 = "pe_log e", OF store_ok_entries [OF s1(2)] s1(3)] obtain tp' rt' e' where
    l: "on_log name p (pe_log e) log_roll (so_topics (fst s1), snd s1) = (Inr (pe_log e'), (tp', rt'))" "topics_ok own C (tp', rt')"
      "open_entry (tp', rt') name p = Some e'" "entry_durable (C name p) e' (part_dir name p rt')"
      "sg_next (active (pe_log e')) = fst (C name p) + int (length (snd (C name p)))"
      "sg_base (active (pe_log e')) = sg_next (active (pe_log e'))" "sg_pos (active (pe_log e')) = 0"
      "\<not> sg_closed (active (pe_log e'))" by auto
  let ?s = "((fst s1)\<lparr>so_topics := tp'\<rparr>, rt')"
  have "s' = ?s" "res = Inr ((segment_info_of (active (pe_log e'))))"
    using assms(7) g s1(1) l(1,3)
    by (auto simp: roll_partition_def in_topics_def thread_answer_def)
  moreover have "store_ok own C ?s" using l(2) s1(2) by (simp add: store_ok_def)
  ultimately show ?thesis using l durable_reopens [OF l(4) _ assms(8,9)] by (auto simp: segment_info_of_def)
qed

section \<open>Concrete requests\<close>


theorem roll_seals_everything_witness:
  "\<exists>s s' info. roll_partition all_mine ''a'' 0 0 s = (Inr info, s')
    \<and> si_base info = 0 \<and> si_next info = 0 \<and> si_size info = 0 \<and> \<not> si_sealed info"
proof -
  obtain s where s: "store_ok all_mine empty_contents s" "metas (snd s) ''a'' = Some (Inr 2)" by (rule sample_created)
  obtain r s' where 1: "roll_partition all_mine ''a'' 0 0 s = (r, s')" by (meson surj_pair)
  from roll_seals_everything [OF s(1) name_a s(2) _ _ _ 1, of 1] obtain info where
    "r = Inr info" "si_base info = 0" "si_next info = 0" "si_size info = 0" "\<not> si_sealed info"
    by (auto simp: all_mine_def empty_contents_def MAX_U32_def)
  with 1 show ?thesis by (intro exI [where x = s] exI [where x = s'] exI [where x = info]) simp
qed

end
