(* ===== verification/Startup.thy ===== *)
theory Startup
  imports Admin_Api
begin

text \<open>
  \<open>cli/broker.py\<close> and \<open>broker/server.py\<close>: the broker process from its environment to its exit, as far as
  its own state goes: the store, and what the health service answers. Binding ports, signals and log
  output are left out.
\<close>

section \<open>Configuration\<close>

definition optional_int :: "(string \<times> string) list \<Rightarrow> string \<Rightarrow> int option result" where
  "optional_int env name =
     (case map_of env name of
        None \<Rightarrow> Inr None
      | Some v \<Rightarrow> if v = [] then Inr None else bind_result (parse_int v) (\<lambda>n. Inr (Some n)))"

datatype any_ring = Modulo_Ring ring | Circle_Ring hash_ring

text \<open>What creating the data directory comes to, and how configuring can fail.\<close>

datatype mkdir_result = Made | Permission_Denied | Not_Made

datatype exit_reason = System_Exit | Raised py_error

definition ring_from_env :: "(string \<times> string) list \<Rightarrow> string \<Rightarrow> any_ring result" where
  "ring_from_env env host =
     (if map_of env ''PYKA_RING'' = Some ''modulo'' then bind_result (from_env ring_init env host) (\<lambda>r. Inr (Modulo_Ring r))
      else bind_result (from_env (\<lambda>b me t. hash_ring_init b me t 128) env host) (\<lambda>r. Inr (Circle_Ring r)))"

definition configure_store :: "(string \<times> string) list \<Rightarrow> store result" where
  "configure_store env =
     bind_result (parse_int (env_get env ''PYKA_PARTITIONS'' ''1'')) (\<lambda>partitions.
     bind_result (optional_int env ''PYKA_SYNC_RECORDS'') (\<lambda>records.
     bind_result (optional_int env ''PYKA_SYNC_MILLIS'') (\<lambda>millis.
     bind_result (case map_of env ''PYKA_SEGMENT_BYTES'' of None \<Rightarrow> Inr (2 ^ 30) | Some v \<Rightarrow> parse_int v) (\<lambda>mx.
       store_init partitions \<lparr>sp_records = records, sp_millis = millis\<rparr> mx
         (map_of env ''PYKA_ALLOW_ORPHANS'' = Some ''1'')))))"

definition store_from_env ::
  "(string \<times> string) list \<Rightarrow> string \<Rightarrow> mkdir_result \<Rightarrow> exit_reason + any_ring \<times> store" where
  "store_from_env env host made =
     (case ring_from_env env host of
        Inl e \<Rightarrow> Inl (Raised e)
      | Inr r \<Rightarrow>
          (case made of
             Permission_Denied \<Rightarrow> Inl System_Exit
           | Not_Made \<Rightarrow> Inl (Raised OSError)
           | Made \<Rightarrow>
               (case configure_store env of
                  Inl e \<Rightarrow> Inl (Raised e)
                | Inr so \<Rightarrow> Inr (r, so))))"

section \<open>The process\<close>

record process =
  ps_store :: store_state
  ps_health :: "(string \<times> bool) list"

definition SERVICE_NAME :: string where
  "SERVICE_NAME = ''pyka.v1.Broker''"

text \<open>The health of the server as a whole and of the service: whether it is \<open>SERVING\<close>.\<close>

definition set_serving :: "bool \<Rightarrow> process \<Rightarrow> process" where
  "set_serving b ps = ps\<lparr>ps_health := al_set SERVICE_NAME b (al_set [] b (ps_health ps))\<rparr>"

definition server_start :: "process \<Rightarrow> process" where
  "server_start ps = set_serving False ps"

definition server_stop :: "process \<Rightarrow> process" where
  "server_stop ps = set_serving False ps"

text \<open>\<open>serve\<close> up to the wait for a signal.\<close>

definition startup :: "(string \<Rightarrow> int \<Rightarrow> bool) \<Rightarrow> rat \<Rightarrow> process \<Rightarrow> unit result \<times> process" where
  "startup own tick ps =
     (let ps1 = server_start ps
      in case store_open own tick (ps_store ps1) of
           (Inl e, s) \<Rightarrow> (Inl e, ps1\<lparr>ps_store := s\<rparr>)
         | (Inr u, s) \<Rightarrow> (Inr (), set_serving (so_ready (fst s)) (ps1\<lparr>ps_store := s\<rparr>)))"

text \<open>After the signal: until the server drains, and once it has.\<close>

definition begin_shutdown :: "process \<Rightarrow> process" where
  "begin_shutdown ps =
     (let ps1 = set_serving False ps; s = ps_store ps1
      in ps1\<lparr>ps_store := ((fst s)\<lparr>so_tail := tail_close (so_tail (fst s))\<rparr>, snd s)\<rparr>)"

definition end_shutdown :: "process \<Rightarrow> unit result \<times> process" where
  "end_shutdown ps =
     (let ps1 = server_stop ps
      in case store_close (ps_store ps1) of (res, s) \<Rightarrow> (res, ps1\<lparr>ps_store := s\<rparr>))"

section \<open>Properties\<close>

abbreviation reports :: "bool \<Rightarrow> process \<Rightarrow> bool" where
  "reports b ps \<equiv> map_of (ps_health ps) [] = Some b \<and> map_of (ps_health ps) SERVICE_NAME = Some b"

lemma reports_set_serving [simp]:
  "map_of (ps_health (set_serving b ps)) [] = Some b" "map_of (ps_health (set_serving b ps)) SERVICE_NAME = Some b"
  "ps_store (set_serving b ps) = ps_store ps"
  by (simp_all add: set_serving_def SERVICE_NAME_def)

lemma store_close_ok:
  assumes ok: "store_ok own C s" and run: "store_close s = (res, s')"
  shows "res = Inr () \<and> store_ok own' C s' \<and> \<not> so_ready (fst s') \<and> so_tail (fst s') = tail_close (so_tail (fst s))
    \<and> metas (snd s') = metas (snd s) \<and> tp_open (so_topics (fst s')) = []"
proof -
  obtain so rt where s: "s = (so, rt)" by (cases s)
  note D = store_okD [OF ok [unfolded s]]
  obtain r tp' rt' where c: "topics_close (so_topics so, rt) = (r, (tp', rt'))" by (metis prod_cases3)
  have "res = r" "s' = (so\<lparr>so_ready := False, so_tail := tail_close (so_tail so), so_topics := tp'\<rparr>, rt')"
    using run c by (auto simp: store_close_def s in_topics_def)
  with topics_close_ok [OF D(1) c, of own'] tail_ok_close [OF D(2)] show ?thesis by (auto simp: s store_ok_def)
qed



end
