(* ===== verification/Durability.thy ===== *)
theory Durability
  imports Store
begin

text \<open>
  How much of every partition a power cut cannot take, through every operation of \<open>topic/topic.py\<close> and
  \<open>broker/store.py\<close>; and what is left of a data root when the power goes.
\<close>

section \<open>The invariant\<close>

text \<open>
  \<open>K name p\<close> records of a partition are safe: while its log is open by \<open>log_kept\<close>; when it is not,
  everything in its files is.
\<close>

type_synonym safe = "string \<Rightarrow> int \<Rightarrow> nat"

definition part_kept :: "offset \<times> log_record list \<Rightarrow> nat \<Rightarrow> part_entry option \<Rightarrow> dir \<Rightarrow> bool" where
  "part_kept c k eo d \<longleftrightarrow> k \<le> length (snd c) \<and> (case eo of
       None \<Rightarrow> all_synced d
     | Some e \<Rightarrow> log_kept (lg_max (pe_log e)) (fst c + int k) (pe_log e, d) (fst c) (snd c))"

definition kept_ok :: "contents \<Rightarrow> safe \<Rightarrow> tstate \<Rightarrow> bool" where
  "kept_ok C K st \<longleftrightarrow> (\<forall>name p. part_kept (C name p) (K name p) (open_entry st name p) (part_dir name p (snd st)))"

lemma part_kept_simps:
  "part_kept c k None d \<longleftrightarrow> k \<le> length (snd c) \<and> all_synced d"
  "part_kept c k (Some e) d \<longleftrightarrow>
     k \<le> length (snd c) \<and> log_kept (lg_max (pe_log e)) (fst c + int k) (pe_log e, d) (fst c) (snd c)"
  by (simp_all add: part_kept_def)

lemma kept_okD: "kept_ok C K st \<Longrightarrow> part_kept (C name p) (K name p) (open_entry st name p) (part_dir name p (snd st))"
  by (simp add: kept_ok_def)

lemma kept_closed: "kept_ok C K st \<Longrightarrow> open_entry st name p = None \<Longrightarrow> all_synced (part_dir name p (snd st))"
  using kept_okD [of C K st name p] by (simp add: part_kept_simps)

lemma kept_entry: "kept_ok C K st \<Longrightarrow> open_entry st name p = Some e \<Longrightarrow>
  log_kept (lg_max (pe_log e)) (fst (C name p) + int (K name p)) (pe_log e, part_dir name p (snd st))
    (fst (C name p)) (snd (C name p))"
  using kept_okD [of C K st name p] by (simp add: part_kept_simps)

text \<open>The root has one entry per name, all of them topics, and a topic has one directory per number.\<close>

definition tidy_topic :: "topic_dir \<Rightarrow> bool" where
  "tidy_topic t \<longleftrightarrow> distinct (map fst (td_dirs t)) \<and> fst ` set (td_dirs t) \<subseteq> range int_text"

fun tame_entry :: "root_entry \<Rightarrow> bool" where
  "tame_entry (Topic_Dir t) \<longleftrightarrow> tidy_topic t"
| "tame_entry Plain_File \<longleftrightarrow> False"

definition tame :: "root \<Rightarrow> bool" where
  "tame rt \<longleftrightarrow> distinct (map fst rt) \<and> (\<forall>x \<in> set rt. tame_entry (snd x))"

definition settings :: "topics \<Rightarrow> int \<times> sync_policy \<times> int" where
  "settings tp = (tp_default tp, tp_policy tp, tp_max tp)"

definition sound ::
  "(string \<Rightarrow> int \<Rightarrow> bool) \<Rightarrow> int \<times> sync_policy \<times> int \<Rightarrow> contents \<Rightarrow> safe \<Rightarrow> tstate \<Rightarrow> bool" where
  "sound own cf C K st \<longleftrightarrow> topics_ok own C st \<and> kept_ok C K st \<and> tame (snd st) \<and> settings (fst st) = cf"

lemma soundD:
  assumes "sound own cf C K st"
  shows "topics_ok own C st" "kept_ok C K st" "tame (snd st)" "settings (fst st) = cf"
  using assms by (simp_all add: sound_def)

lemma kept_le: "kept_ok C K st \<Longrightarrow> K name p \<le> length (snd (C name p))"
  by (simp add: kept_ok_def part_kept_def)

lemma kept_less: "kept_ok C K st \<Longrightarrow> (\<And>n p. K' n p \<le> K n p) \<Longrightarrow> kept_ok C K' st"
proof -
  have "part_kept c k eo d \<Longrightarrow> k' \<le> k \<Longrightarrow> part_kept c k' eo d" for c k k' eo d
    by (auto simp: part_kept_def split: option.splits elim: log_kept_mono)
  then show "kept_ok C K st \<Longrightarrow> (\<And>n p. K' n p \<le> K n p) \<Longrightarrow> kept_ok C K' st" unfolding kept_ok_def by blast
qed

lemma tame_no_file: "tame rt \<Longrightarrow> map_of rt name \<noteq> Some Plain_File"
  by (force simp: tame_def dest: map_of_SomeD)

lemma al_set_all: "\<forall>x \<in> set xs. P (snd x) \<Longrightarrow> P v \<Longrightarrow> \<forall>x \<in> set (al_set k v xs). P (snd x)"
  by (induction k v xs rule: al_set.induct) auto

lemma tame_al_set [simp]: "tame rt \<Longrightarrow> tidy_topic t \<Longrightarrow> tame (al_set name (Topic_Dir t) rt)"
  using al_set_all [of rt tame_entry "Topic_Dir t" name] by (simp add: tame_def)

lemma tame_tidy [simp]: "tame rt \<Longrightarrow> tidy_topic (topic_at name rt)"
  by (force simp: tame_def topic_at_def no_topic_def tidy_topic_def dest: map_of_SomeD
      split: option.split root_entry.split)

lemma tidy_meta [simp]: "tidy_topic (t\<lparr>td_meta := m\<rparr>) = tidy_topic t"
  by (simp add: tidy_topic_def)

lemma tame_set_part_dir [simp]: "tame rt \<Longrightarrow> tame (set_part_dir name p d rt)"
proof -
  assume t: "tame rt"
  then have "tidy_topic (topic_at name rt)" by simp
  then have "tidy_topic ((topic_at name rt)\<lparr>td_dirs := al_set (int_text p) d (td_dirs (topic_at name rt))\<rparr>)"
    by (simp add: tidy_topic_def)
  with t show ?thesis by (simp add: set_part_dir_def)
qed

lemma tame_put_entry [simp]: "tame (snd st) \<Longrightarrow> tame (snd (put_entry name p e d st))"
  by (cases st) (simp add: put_entry_def split: option.split)

lemma settings_put_entry [simp]: "settings (fst (put_entry name p e d st)) = settings (fst st)"
  by (cases st) (simp add: put_entry_def settings_def split: option.split)

lemma settings_next [simp]: "settings (tp\<lparr>tp_next := n\<rparr>) = settings tp" "settings (tp\<lparr>tp_open := os\<rparr>) = settings tp"
  by (simp_all add: settings_def)

lemma open_entry_next [simp]: "open_entry (tp\<lparr>tp_next := n\<rparr>, rt) = open_entry (tp, rt)"
  by (simp add: open_entry_def fun_eq_iff)

lemma sound_next [simp]: "sound own cf C K (tp\<lparr>tp_next := n\<rparr>, rt) = sound own cf C K (tp, rt)"
  by (simp add: sound_def kept_ok_def)

section \<open>Opening\<close>

lemma open_parts_synced:
  assumes "\<forall>p. on_disk (C name p) (part_dir name p rt)" "\<forall>p \<in> set ps. all_synced (part_dir name p rt)"
    and "0 < mx" "mx \<le> MAX_U32 + 1" "distinct ps" "open_parts mx name tick ps rt = (res, rt')"
  shows "(\<forall>p \<in> set ps. all_synced (part_dir name p rt')) \<and> (tame rt \<longrightarrow> tame rt')"
  using assms(1,2,5,6)
proof (induction ps arbitrary: rt res rt')
  case (Cons p ps)
  have disk: "on_disk (C name p) (part_dir name p rt)" using Cons.prems(1) by blast
  from on_disk_open [OF this assms(3,4)] obtain lg d where
    l: "log_open mx (part_dir name p rt) = (Inr lg, d)" "on_disk (C name p) d" by blast
  let ?rt = "set_part_dir name p d rt"
  have d: "all_synced d" using log_open_synced [OF disk _ assms(3,4) l(1)] Cons.prems(2) by simp
  obtain r rt2 where o: "open_parts mx name tick ps ?rt = (r, rt2)" by (meson surj_pair)
  have all: "\<forall>q. on_disk (C name q) (part_dir name q ?rt)" using Cons.prems(1) l(2) by simp
  have ne: "p \<notin> set ps" "distinct ps" using Cons.prems(3) by simp_all
  then have "\<forall>q \<in> set ps. all_synced (part_dir name q ?rt)" using Cons.prems(2) by auto
  note ih = Cons.IH [OF all this ne(2) o]
  from open_parts_ok [where C = C and name = name and tick = tick, OF all assms(3,4) ne(2)] o
  have "part_dir name p rt2 = part_dir name p ?rt" using ne(1) by auto
  moreover have "rt' = rt2" using Cons.prems(4) l(1) o by (auto split: sum.splits)
  ultimately show ?case using ih d by auto
qed simp

lemma open_locked_sound:
  assumes s: "sound own cf C K st" and name: "is_valid_name name" and fresh: "map_of (tp_open (fst st)) name = None"
    and op: "open_locked own name partitions tick st = (res, st')"
  shows "sound own cf C K st'"
proof -
  obtain tp rt where st: "st = (tp, rt)" by (cases st)
  note S = soundD [OF s]
  note D = topics_okD [OF S(1) [unfolded st]]
  from open_locked_cases [OF S(1) name op] consider "st' = st"
    | ot where "res = Inr ot" "topics_ok own C st'" "map_of (tp_open (fst st')) name = Some ot" by metis
  then show ?thesis
  proof cases
    case 2
    obtain count rt1 es rt2 where
      r: "open_parts (tp_max tp) name tick (filter (own name) [0 .. count - 1]) rt1 = (Inr es, rt2)"
        "rt1 = rt \<or> rt1 = al_set name (Topic_Dir ((topic_at name rt)\<lparr>td_meta := Some (Inr count)\<rparr>)) rt"
        "st' = (tp\<lparr>tp_open := al_set name \<lparr>ot_partitions = count, ot_local = es\<rparr> (tp_open tp)\<rparr>, rt2)"
      using op 2(1)
      by (auto simp: st open_locked_def Let_def write_meta_def split: sum.splits prod.splits option.splits if_split_asm)
    let ?ps = "filter (own name) [0 .. count - 1]"
    have dirs: "part_dir n q rt1 = part_dir n q rt" for n q using r(2) by auto
    have closed: "open_entry st name q = None" for q using fresh by (simp add: open_entry_def)
    have sync: "all_synced (part_dir name q rt1)" for q
      using kept_closed [OF S(2) closed] by (simp add: dirs st)
    have disk: "\<forall>q. on_disk (C name q) (part_dir name q rt1)" using D(3) by (simp add: dirs)
    have dist: "distinct ?ps" by simp
    from open_parts_ok [where C = C and name = name and tick = tick, OF disk D(1,2) dist] r(1) have
      k: "map fst es = ?ps" "\<forall>q e. map_of es q = Some e \<longrightarrow> entry_ok (C name q) e (part_dir name q rt2)"
        "\<forall>q. on_disk (C name q) (part_dir name q rt2)"
        "\<forall>n q. n \<noteq> name \<or> q \<notin> set ?ps \<longrightarrow> part_dir n q rt2 = part_dir n q rt1" by auto
    have "\<forall>q \<in> set ?ps. all_synced (part_dir name q rt1)" using sync by blast
    from open_parts_synced [where C = C and name = name, OF disk this D(1,2) dist r(1)] have
      y: "\<forall>q \<in> set ?ps. all_synced (part_dir name q rt2)" "tame rt1 \<longrightarrow> tame rt2" by blast+
    have entries: "open_entry st' n q = (if n = name then map_of es q else open_entry st n q)" for n q
      by (simp add: r(3) open_entry_def st)
    have "part_kept (C n q) (K n q) (open_entry st' n q) (part_dir n q rt2)" for n q
    proof (cases "n = name \<and> q \<in> set ?ps")
      case True
      then obtain e where e: "map_of es q = Some e" using k(1) by (metis map_of_eq_None_iff list.set_map option.exhaust)
      then have h: "log_holds (pe_log e, part_dir name q rt2) (fst (C name q)) (snd (C name q))"
        using k(2) by (simp add: entry_ok_def)
      have le: "K n q \<le> length (snd (C n q))" using kept_le [OF S(2)] .
      have "healthy (part_dir name q rt2)" using k(3) on_disk_healthy by blast
      from holds_synced_kept [OF h this] y(1) True have
        "log_kept (lg_max (pe_log e)) (fst (C n q) + int (length (snd (C n q)))) (pe_log e, part_dir n q rt2) (fst (C n q)) (snd (C n q))"
        by simp
      from log_kept_mono [OF this, of "fst (C n q) + int (K n q)"] le True e show ?thesis
        by (simp add: part_kept_def entries)
    next
      case False
      then have "open_entry st' n q = open_entry st n q"
        using k(1) closed by (auto simp: entries map_of_eq_None_iff simp flip: list.set_map)
      moreover have "part_dir n q rt2 = part_dir n q rt" using k(4) False dirs by metis
      ultimately show ?thesis using S(2) by (simp add: kept_ok_def st)
    qed
    then have "kept_ok C K st'" by (simp add: kept_ok_def r(3))
    moreover have "tame rt2" using y(2) r(2) S(3) by (auto simp: st)
    ultimately show ?thesis using 2(2) S(4) by (simp add: sound_def r(3) st)
  qed (use s in simp)
qed

lemma the_topic_sound:
  assumes s: "sound own cf C K st" and t: "the_topic own name tick st = (res, st')"
  shows "sound own cf C K st'"
proof (cases "is_valid_name name \<and> map_of (tp_open (fst st)) name = None \<and> (\<exists>n. read_meta name (snd st) = Inr (Some n))")
  case True
  then have "open_locked own name None tick st = (res, st')" using t by (auto simp: the_topic_def valid_name_iff)
  with open_locked_sound [OF s] True show ?thesis by blast
next
  case False
  then have "st' = st" using t by (auto simp: the_topic_def is_valid_name_def split: sum.splits option.splits)
  with s show ?thesis by simp
qed

lemma topic_create_sound:
  assumes s: "sound own cf C K st" and op: "topic_create own name k tick st = (res, st')"
  shows "sound own cf C K st'"
proof (cases "is_valid_name name \<and> map_of (tp_open (fst st)) name = None")
  case True
  then obtain r where "open_locked own name k tick st = (r, st')"
    using op by (auto simp: topic_create_def valid_name_iff split: sum.splits prod.splits)
  with open_locked_sound [OF s] True show ?thesis by blast
next
  case False
  then have "st' = st" using op by (auto simp: topic_create_def is_valid_name_def split: sum.splits option.splits)
  with s show ?thesis by simp
qed

lemma topic_route_sound:
  assumes s: "sound own cf C K st" and op: "topic_route own name key tick st = (res, st')"
  shows "sound own cf C K st'"
proof -
  obtain r tp rt where t: "the_topic own name tick st = (r, (tp, rt))" by (metis prod_cases3)
  from the_topic_sound [OF s t] op t show ?thesis by (auto simp: topic_route_def split: sum.splits prod.splits)
qed

lemma topic_get_sound:
  assumes s: "sound own cf C K st" and op: "topic_get own name p tick st = (res, st')"
  shows "sound own cf C K st'"
  using op the_topic_sound [OF s] by (auto simp: topic_get_def split: prod.splits)

lemma topic_read_sound:
  assumes s: "sound own cf C K st" and op: "topic_read_from own name off p tick st = (res, st')"
  shows "sound own cf C K st'"
  using op topic_get_sound [OF s] by (auto simp: topic_read_from_def split: prod.splits)

lemma partitions_of_sound:
  assumes s: "sound own cf C K st" and op: "partitions_of own name tick st = (res, st')"
  shows "sound own cf C K st'"
  using op the_topic_sound [OF s] by (auto simp: partitions_of_def split: prod.splits)

lemma create_all_sound:
  "sound own cf C K st \<Longrightarrow> create_all own tick names st = (res, st') \<Longrightarrow> sound own cf C K st'"
  by (induction names arbitrary: st res) (auto split: prod.splits sum.splits dest: topic_create_sound)

section \<open>Appending\<close>

lemma kept_put:
  assumes kept: "kept_ok C K st" and e: "open_entry st name p = Some e0" and k: "k \<le> length (snd c)"
    and new: "log_kept (lg_max (pe_log e)) (fst c + int k) (pe_log e, d) (fst c) (snd c)"
  shows "kept_ok (put_contents name p c C) (K(name := (K name)(p := k))) (put_entry name p e d st)"
  unfolding kept_ok_def
proof (intro allI)
  fix n q
  have old: "part_kept (C n q) (K n q) (open_entry st n q) (part_dir n q (snd st))"
    using kept by (simp add: kept_ok_def)
  show "part_kept (put_contents name p c C n q) ((K(name := (K name)(p := k))) n q)
      (open_entry (put_entry name p e d st) n q) (part_dir n q (snd (put_entry name p e d st)))"
    using old k new by (cases "n = name \<and> q = p") (auto simp: open_entry_put [OF e] part_kept_simps fun_upd_other)
qed

lemma log_kept_max: "log_kept mx off (lg, d) b rs \<Longrightarrow> lg_max lg = mx"
  by (auto simp: log_kept_def)

lemma append_entry_kept:
  assumes s: "sound own cf C K st" and e: "open_entry st name p = Some e"
    and app: "append_entry name p e key val ts now_ns tick st = (res, st')"
  defines "r \<equiv> stamped (fst (C name p) + int (length (snd (C name p)))) key val ts now_ns"
  shows "case res of
      Inl err \<Rightarrow> sound own cf C K st'
    | Inr po \<Rightarrow> \<exists>k. (k = K name p \<and> fst (snd cf) \<noteq> SYNC_EVERY_RECORD \<or> k = Suc (length (snd (C name p))))
        \<and> sound own cf (put_contents name p (fst (C name p), snd (C name p) @ [r]) C) (K(name := (K name)(p := k))) st'"
proof -
  let ?c = "C name p" and ?d = "part_dir name p (snd st)"
  note S = soundD [OF s]
  have policy: "fst (snd cf) = tp_policy (fst st)" using S(4) by (auto simp: settings_def)
  note ok = append_entry_ok [OF S(1) e app, folded r_def]
  note kept = kept_entry [OF S(2) e]
  have le: "K name p \<le> length (snd ?c)" using kept_le [OF S(2)] .
  obtain r1 lg d where la: "log_append (pe_log e) key val ts now_ns ?d = (r1, lg, d)" by (metis prod_cases3)
  have m: "push (pe_log e, ?d) (key, val, ts, now_ns) = (r1, (lg, d))" using la by (simp add: push_def)
  from push_kept [OF kept m] have pk: "case r1 of
      Inr off \<Rightarrow> log_kept (lg_max (pe_log e)) (fst ?c + int (K name p)) (lg, d) (fst ?c) (snd ?c @ [r])
    | Inl err \<Rightarrow> log_kept (lg_max (pe_log e)) (fst ?c + int (K name p)) (lg, d) (fst ?c) (snd ?c)"
    by (auto simp: stamp_def r_def split: sum.splits)
  show ?thesis
  proof (cases r1)
    case (Inl err)
    then have run: "res = Inl err" "st' = put_entry name p (e\<lparr>pe_log := lg\<rparr>) d st"
      using app la by (simp_all add: append_entry_def)
    have "log_kept (lg_max lg) (fst ?c + int (K name p)) (lg, d) (fst ?c) (snd ?c)"
      using pk Inl log_kept_max by fastforce
    then have "kept_ok (put_contents name p ?c C) (K(name := (K name)(p := K name p))) st'"
      unfolding run(2) by (intro kept_put [OF S(2) e le]) simp
    then show ?thesis using ok S run by (simp add: sound_def)
  next
    case (Inr off)
    then have k1: "log_kept (lg_max lg) (fst ?c + int (K name p)) (lg, d) (fst ?c) (snd ?c @ [r])"
      using pk log_kept_max by fastforce
    let ?e1 = "e\<lparr>pe_log := lg, pe_appends := pe_appends e + 1\<rparr>"
    let ?due = "should_sync (tp_policy (fst st)) (pe_appends ?e1) (millis_since_sync ?e1 tick)"
    show ?thesis
    proof (cases ?due)
      case False
      have "0 \<le> pe_appends e" using S(1) e
        by (cases st) (auto simp: open_entry_iff entry_ok_def open_ok_def dest!: topics_okD(4))
      then have pol: "tp_policy (fst st) \<noteq> SYNC_EVERY_RECORD" using False by auto
      have run: "res = Inr (p, off)" "st' = put_entry name p ?e1 d st"
        using app la Inr False by (simp_all add: append_entry_def Let_def)
      have "kept_ok (put_contents name p (fst ?c, snd ?c @ [r]) C) (K(name := (K name)(p := K name p))) st'"
        unfolding run(2) by (rule kept_put [OF S(2) e]) (use k1 le in simp_all)
      then show ?thesis using ok S run pol policy
        by (auto simp: sound_def intro!: exI [of _ "K name p"])
    next
      case True
      from k1 obtain qs q where "log_ok lg qs q d" "live lg" "healthy d" by (auto simp: log_kept_def)
      from log_sync_healthy [OF this] obtain lg2 d2 where ls: "log_sync lg d = (Inr (), lg2, d2)" "healthy d2" by blast
      have "healthy d" using k1 by (auto simp: log_kept_def)
      from log_synced_kept [OF log_kept_holds [OF k1] this ls(1)]
      have k2: "log_kept (lg_max lg2) (fst ?c + int (Suc (length (snd ?c)))) (lg2, d2) (fst ?c) (snd ?c @ [r])"
        using log_kept_max by (fastforce simp: algebra_simps)
      have run: "res = Inr (p, off)" "st' = put_entry name p (mark_synced tick (?e1\<lparr>pe_log := lg2\<rparr>)) d2 st"
        using app la Inr True ls(1) by (simp_all add: append_entry_def Let_def)
      have "kept_ok (put_contents name p (fst ?c, snd ?c @ [r]) C) (K(name := (K name)(p := Suc (length (snd ?c))))) st'"
        unfolding run(2) by (rule kept_put [OF S(2) e]) (use k2 in \<open>simp_all add: mark_synced_def\<close>)
      then show ?thesis using ok S run
        by (auto simp: sound_def intro!: exI [of _ "Suc (length (snd ?c))"])
    qed
  qed
qed

lemma topic_append_sound:
  assumes s: "sound own cf C K st" and name: "is_valid_name name"
    and meta: "metas (snd st) name = Some (Inr n)" and n: "1 \<le> n"
    and app: "topic_append own name key val ts part now_ns tick st = (res, st')"
  shows "case res of
      Inl err \<Rightarrow> sound own cf C K st'
    | Inr (p, off) \<Rightarrow> \<exists>k. (k = K name p \<and> fst (snd cf) \<noteq> SYNC_EVERY_RECORD \<or> k = Suc (length (snd (C name p))))
        \<and> sound own cf (put_contents name p (fst (C name p), snd (C name p) @ [stamped off key val ts now_ns]) C)
            (K(name := (K name)(p := k))) st'"
proof -
  let ?p = "destination (fst st) n key part"
  obtain ot tp rt nxt where
    t: "the_topic own name tick st = (Inr ot, (tp, rt))"
    and a: "(case check_partition ot ?p of Inl e \<Rightarrow> (Inl e, (tp\<lparr>tp_next := nxt\<rparr>, rt))
      | Inr e \<Rightarrow> append_entry name ?p e key val ts now_ns tick (tp\<lparr>tp_next := nxt\<rparr>, rt)) = (res, st')"
    by (rule topic_append_existing [OF soundD(1) [OF s] name meta n app])
  have s1: "sound own cf C K (tp\<lparr>tp_next := nxt\<rparr>, rt)" using the_topic_sound [OF s t] by simp
  from the_topic_ok [OF soundD(1) [OF s] t] have o: "map_of (tp_open tp) name = Some ot" by simp
  show ?thesis
  proof (cases "check_partition ot ?p")
    case (Inl e)
    then have "res = Inl e" "st' = (tp\<lparr>tp_next := nxt\<rparr>, rt)" using a by auto
    with s1 show ?thesis by simp
  next
    case (Inr e)
    then have e: "open_entry (tp\<lparr>tp_next := nxt\<rparr>, rt) name ?p = Some e"
      using o by (simp add: open_entry_def check_partition_ok)
    have run: "append_entry name ?p e key val ts now_ns tick (tp\<lparr>tp_next := nxt\<rparr>, rt) = (res, st')" using a Inr by simp
    from append_entry_ok [OF soundD(1) [OF s1] e run] have
      "\<And>q off. res = Inr (q, off) \<Longrightarrow> q = ?p \<and> off = fst (C name ?p) + int (length (snd (C name ?p)))" by auto
    with append_entry_kept [OF s1 e run] show ?thesis by (cases res) auto
  qed
qed

section \<open>Closing\<close>

lemma log_close_synced:
  assumes "log_holds (lg, d) b rs" "healthy d" "log_close lg d = (res, lg', d')"
  shows "all_synced d'"
proof -
  from assms(1) obtain qs p where l: "log_ok lg qs p d" "live lg" by (auto simp: log_holds_def)
  from log_close_ok [OF l(1) assms(3)] l(2) assms(2) have "log_ok lg' qs p d'" "durable lg' p d' (log_next lg')" by auto
  then show ?thesis by (rule durable_synced)
qed

lemma close_entries_synced:
  assumes "closable C es st" "close_entries es st = (errs, st')"
  shows "(\<forall>n p. (n, p) \<in> (\<lambda>(n, p, e). (n, p)) ` set es \<longrightarrow> all_synced (part_dir n p (snd st')))
    \<and> (\<forall>n p. (n, p) \<notin> (\<lambda>(n, p, e). (n, p)) ` set es \<longrightarrow> part_dir n p (snd st') = part_dir n p (snd st))
    \<and> (tame (snd st) \<longrightarrow> tame (snd st')) \<and> settings (fst st') = settings (fst st)"
  using assms
proof (induction es arbitrary: st errs)
  case (Cons x es)
  obtain name p e where x: "x = (name, p, e)" by (metis prod_cases3)
  let ?d = "part_dir name p (snd st)"
  from Cons.prems(1) have opn: "map_of (tp_open (fst st)) name \<noteq> None" and e: "entry_ok (C name p) e ?d"
    and disk: "on_disk (C name p) ?d" and dist: "(name, p) \<notin> (\<lambda>(n, p, e). (n, p)) ` set es"
    by (auto simp: closable_def x)
  obtain res lg d where c: "log_close (pe_log e) ?d = (res, lg, d)" by (metis prod_cases3)
  have d: "all_synced d" using log_close_synced [OF _ on_disk_healthy [OF disk] c] e by (auto simp: entry_ok_def)
  let ?st = "put_entry name p (e\<lparr>pe_log := lg\<rparr>) d st"
  have "closable C es ?st" by (rule closable_step(2) [OF Cons.prems(1) [unfolded x] c])
  moreover obtain errs' where "close_entries es ?st = (errs', st')" using Cons.prems(2) c by (auto simp: x split: prod.splits)
  ultimately have ih: "(\<forall>n p. (n, p) \<in> (\<lambda>(n, p, e). (n, p)) ` set es \<longrightarrow> all_synced (part_dir n p (snd st')))
    \<and> (\<forall>n p. (n, p) \<notin> (\<lambda>(n, p, e). (n, p)) ` set es \<longrightarrow> part_dir n p (snd st') = part_dir n p (snd ?st))
    \<and> (tame (snd ?st) \<longrightarrow> tame (snd st')) \<and> settings (fst st') = settings (fst ?st)" by (rule Cons.IH)
  have "part_dir name p (snd st') = d" using ih dist put_entry_part_dir [OF opn] by metis
  with ih d dist show ?case by (auto simp: x put_entry_part_dir [OF opn])
qed auto

lemma topics_close_sound:
  assumes s: "sound own cf C K st" and close: "topics_close st = (res, st')"
  shows "sound own' cf C (\<lambda>n p. length (snd (C n p))) st'"
proof -
  note S = soundD [OF s]
  obtain errs tp rt where c: "close_entries (every_partition (fst st)) st = (errs, (tp, rt))" by (metis prod_cases3)
  note k = close_entries_synced [OF every_partition_closable [OF S(1)] c]
  have st': "st' = (tp\<lparr>tp_open := []\<rparr>, rt)" using close c by (simp add: topics_close_def)
  have keys: "(n, p) \<in> (\<lambda>(n, p, e). (n, p)) ` set (every_partition (fst st)) \<longleftrightarrow> open_entry st n p \<noteq> None" for n p
    using every_partition_open [OF S(1), of n p] by (force simp: image_iff)
  have "all_synced (part_dir n p rt)" for n p
  proof (cases "open_entry st n p")
    case None
    then have "part_dir n p rt = part_dir n p (snd st)" using k keys [of n p] by simp
    moreover have "all_synced (part_dir n p (snd st))" by (rule kept_closed [OF S(2) None])
    ultimately show ?thesis by simp
  qed (use k keys [of n p] in simp)
  then have "kept_ok C (\<lambda>n p. length (snd (C n p))) st'"
    by (simp add: kept_ok_def part_kept_def st' open_entry_def)
  moreover have "topics_ok own' C st'" using topics_close_ok [OF S(1) close] by blast
  ultimately show ?thesis using k S(3,4) by (simp add: sound_def st')
qed

section \<open>Power cuts\<close>

text \<open>
  What a power cut leaves of a data root: of every file of every partition what \<open>power_cut\<close> says, and
  the names and \<open>topic.json\<close> as they are (\<open>torn_meta\<close> says what happens when it is not).
\<close>

fun entry_cut :: "root_entry \<Rightarrow> root_entry \<Rightarrow> bool" where
  "entry_cut (Topic_Dir t) (Topic_Dir t') \<longleftrightarrow> td_meta t' = td_meta t
     \<and> map fst (td_dirs t') = map fst (td_dirs t) \<and> list_all2 power_cut (map snd (td_dirs t)) (map snd (td_dirs t'))"
| "entry_cut Plain_File Plain_File \<longleftrightarrow> True"
| "entry_cut _ _ \<longleftrightarrow> False"

definition root_cut :: "root \<Rightarrow> root \<Rightarrow> bool" where
  "root_cut rt rt' \<longleftrightarrow> map fst rt' = map fst rt \<and> list_all2 entry_cut (map snd rt) (map snd rt')"

lemma map_of_related:
  "map fst ys = map fst xs \<Longrightarrow> list_all2 R (map snd xs) (map snd ys) \<Longrightarrow> rel_option R (map_of xs k) (map_of ys k)"
proof (induction xs arbitrary: ys)
  case (Cons x xs)
  then obtain y ys' where "ys = y # ys'" "fst y = fst x" "map fst ys' = map fst xs" "R (snd x) (snd y)"
    "list_all2 R (map snd xs) (map snd ys')" by (auto simp: list_all2_Cons1)
  with Cons.IH show ?case by simp
qed simp

lemma root_cut_topic:
  assumes "root_cut rt rt'"
  shows "entry_cut (Topic_Dir (topic_at name rt)) (Topic_Dir (topic_at name rt'))"
proof -
  have "rel_option entry_cut (map_of rt name) (map_of rt' name)"
    using assms unfolding root_cut_def by (intro map_of_related) simp_all
  then show ?thesis
  proof (cases rule: option.rel_cases)
    case None
    then show ?thesis by (simp add: topic_at_def no_topic_def)
  next
    case (Some e e')
    then show ?thesis by (cases e; cases e') (simp_all add: topic_at_def no_topic_def)
  qed
qed

lemma root_cut_dir: "root_cut rt rt' \<Longrightarrow> power_cut (part_dir name p rt) (part_dir name p rt')"
proof -
  assume "root_cut rt rt'"
  from root_cut_topic [OF this, of name]
  have "rel_option power_cut (map_of (td_dirs (topic_at name rt)) (int_text p)) (map_of (td_dirs (topic_at name rt')) (int_text p))"
    by (intro map_of_related) simp_all
  then show ?thesis by (cases rule: option.rel_cases) (simp_all add: part_dir_def power_cut_def)
qed

lemma root_cut_metas: "root_cut rt rt' \<Longrightarrow> metas rt' = metas rt"
  using root_cut_topic by (simp add: fun_eq_iff metas_def)

lemma root_cut_tame: "root_cut rt rt' \<Longrightarrow> tame rt \<Longrightarrow> tame rt'"
proof -
  assume cut: "root_cut rt rt'" and t: "tame rt"
  have one: "entry_cut e e' \<Longrightarrow> tame_entry e \<Longrightarrow> tame_entry e'" for e e'
  proof (cases e; cases e')
    fix t t' assume "entry_cut e e'" "tame_entry e" "e = Topic_Dir t" "e' = Topic_Dir t'"
    moreover from this have "fst ` set (td_dirs t') = fst ` set (td_dirs t)"
      by (metis entry_cut.simps(1) list.set_map)
    ultimately show "tame_entry e'" by (simp add: tidy_topic_def)
  qed auto
  have "list_all2 entry_cut xs ys \<Longrightarrow> \<forall>e \<in> set xs. tame_entry e \<Longrightarrow> \<forall>e \<in> set ys. tame_entry e" for xs ys
    by (induction rule: list_all2_induct) (use one in auto)
  from this [of "map snd rt" "map snd rt'"] cut t have "\<forall>e \<in> set (map snd rt'). tame_entry e"
    by (simp add: root_cut_def tame_def)
  then show ?thesis using cut t by (simp add: root_cut_def tame_def)
qed

section \<open>A new instance\<close>

lemma fresh_sound:
  assumes "topics_init (fst cf) (fst (snd cf)) (snd (snd cf)) = Inr tp" "0 < snd (snd cf)" "snd (snd cf) \<le> MAX_U32 + 1"
    and "\<forall>n p. on_disk (C n p) (part_dir n p rt) \<and> all_synced (part_dir n p rt)" "tame rt"
  shows "sound own cf C (\<lambda>n p. length (snd (C n p))) (tp, rt)"
proof -
  have "topics_ok own C (tp, rt)" using fresh_topics_ok(1) [OF assms(1-3)] assms(4) by blast
  moreover have "settings tp = cf" "tp_open tp = []"
    using assms(1) by (auto simp: topics_init_def settings_def split: if_split_asm)
  ultimately show ?thesis using assms(4,5) by (simp add: sound_def kept_ok_def part_kept_def open_entry_def)
qed

text \<open>After a power cut it finds a prefix of every partition, with all that was safe.\<close>

lemma sound_cut:
  assumes s: "sound own cf C K st" and cut: "root_cut (snd st) rt"
    and new: "topics_init (fst cf) (fst (snd cf)) (snd (snd cf)) = Inr tp"
  shows "\<exists>M. (\<forall>n p. K n p \<le> M n p \<and> M n p \<le> length (snd (C n p)))
    \<and> sound own' cf (\<lambda>n p. (fst (C n p), take (M n p) (snd (C n p)))) M (tp, rt)"
proof -
  note S = soundD [OF s]
  have mx: "0 < snd (snd cf)" "snd (snd cf) \<le> MAX_U32 + 1"
    using S(1,4) by (auto simp: topics_ok_def settings_def)
  have "\<exists>m. K n p \<le> m \<and> m \<le> length (snd (C n p)) \<and> on_disk (fst (C n p), take m (snd (C n p))) (part_dir n p rt)" for n p
  proof (cases "open_entry st n p")
    case None
    have "on_disk (C n p) (part_dir n p rt)"
      by (rule synced_cut [OF topics_ok_on_disk [OF S(1)] kept_closed [OF S(2) None] root_cut_dir [OF cut]])
    then show ?thesis using kept_le [OF S(2)] by (intro exI [of _ "length (snd (C n p))"]) simp
  next
    case (Some e)
    from kept_cut [OF kept_entry [OF S(2) Some] root_cut_dir [OF cut]] show ?thesis by blast
  qed
  then obtain M where M: "\<And>n p. K n p \<le> M n p" "\<And>n p. M n p \<le> length (snd (C n p))"
    "\<And>n p. on_disk (fst (C n p), take (M n p) (snd (C n p))) (part_dir n p rt)" by metis
  have "all_synced (part_dir n p rt)" for n p by (rule power_cut_synced [OF root_cut_dir [OF cut]])
  with fresh_sound [OF new mx, of "\<lambda>n p. (fst (C n p), take (M n p) (snd (C n p)))" rt own'] M(3) root_cut_tame [OF cut S(3)]
  have "sound own' cf (\<lambda>n p. (fst (C n p), take (M n p) (snd (C n p)))) (\<lambda>n p. M n p) (tp, rt)"
    using M(2) by (simp add: min_absorb2)
  with M(1,2) show ?thesis by blast
qed

section \<open>The store\<close>

definition store_sound ::
  "(string \<Rightarrow> int \<Rightarrow> bool) \<Rightarrow> int \<times> sync_policy \<times> int \<Rightarrow> contents \<Rightarrow> safe \<Rightarrow> store_state \<Rightarrow> bool" where
  "store_sound own cf C K s \<longleftrightarrow> sound own cf C K (so_topics (fst s), snd s) \<and> tail_ok (so_tail (fst s))"

lemma store_soundD:
  assumes "store_sound own cf C K s"
  shows "store_ok own C s" "sound own cf C K (so_topics (fst s), snd s)" "tame (snd s)"
  using assms by (simp_all add: store_sound_def store_ok_def sound_def)

lemma in_topics_sound:
  assumes "store_sound own cf C K s" "in_topics f s = (res, s')"
    and "\<And>r st'. sound own cf C K (so_topics (fst s), snd s) \<Longrightarrow> f (so_topics (fst s), snd s) = (r, st') \<Longrightarrow> sound own cf C' K' st'"
  shows "store_sound own cf C' K' s'"
  using assms by (auto simp: store_sound_def in_topics_def split: prod.splits)

lemma store_create_sound:
  "store_sound own cf C K s \<Longrightarrow> store_create own name k tick s = (res, s') \<Longrightarrow> store_sound own cf C K s'"
  unfolding store_create_def by (erule in_topics_sound, assumption) (rule topic_create_sound)

lemma store_partitions_of_sound:
  "store_sound own cf C K s \<Longrightarrow> store_partitions_of own name tick s = (res, s') \<Longrightarrow> store_sound own cf C K s'"
  unfolding store_partitions_of_def by (erule in_topics_sound, assumption) (rule partitions_of_sound)

lemma store_route_sound:
  "store_sound own cf C K s \<Longrightarrow> store_route own name key tick s = (res, s') \<Longrightarrow> store_sound own cf C K s'"
  unfolding store_route_def by (erule in_topics_sound, assumption) (rule topic_route_sound)

lemma store_read_sound:
  assumes "store_sound own cf C K s" "store_read own name off p limit tick s = (res, s')"
  shows "store_sound own cf C K s'"
proof -
  obtain r where r: "in_topics (topic_read_from own name off p tick) s = (r, s')"
    using assms(2) by (auto simp: store_read_def split: prod.splits)
  show ?thesis by (rule in_topics_sound [OF assms(1) r]) (rule topic_read_sound)
qed

lemma store_append_sound:
  assumes s: "store_sound own cf C K s" and name: "is_valid_name name"
    and meta: "metas (snd s) name = Some (Inr n)" and n: "1 \<le> n"
    and app: "store_append own name key val ts part now_ns tick s = (res, s')"
  shows "case res of
      Inl err \<Rightarrow> store_sound own cf C K s'
    | Inr (p, off) \<Rightarrow> \<exists>k. (k = K name p \<and> fst (snd cf) \<noteq> SYNC_EVERY_RECORD \<or> k = Suc (length (snd (C name p))))
        \<and> store_sound own cf (put_contents name p (fst (C name p), snd (C name p) @ [stamped off key val ts now_ns]) C)
            (K(name := (K name)(p := k))) s'"
proof -
  obtain so rt where s0: "s = (so, rt)" by (cases s)
  obtain r tp rt1 where c: "topic_append own name key val ts part now_ns tick (so_topics so, rt) = (r, (tp, rt1))"
    by (metis prod_cases3)
  have meta': "metas (snd (so_topics so, rt)) name = Some (Inr n)" using meta by (simp add: s0)
  have "sound own cf C K (so_topics so, rt)" "tail_ok (so_tail so)" using s by (simp_all add: store_sound_def s0)
  note k = topic_append_sound [OF this(1) name meta' n c] and tail = this(2)
  have "(res, s') = (case r of Inl e \<Rightarrow> (Inl e, (so\<lparr>so_topics := tp\<rparr>, rt1))
      | Inr (p, off) \<Rightarrow> (Inr (p, off), store_notify (name, p) (so\<lparr>so_topics := tp\<rparr>, rt1)))"
    using app c by (auto simp: store_append_def store_write_def in_topics_def s0 split: sum.splits)
  with k tail show ?thesis
    by (auto simp: store_sound_def store_notify_def tail_ok_notify split: sum.splits prod.splits)
qed

lemma store_open_sound:
  assumes s: "store_sound own cf C K s" and op: "store_open own tick s = (res, s')"
  shows "store_sound own cf C K s'"
proof -
  obtain r so rt where c: "in_topics (create_all own tick (topic_names (snd s))) s = (r, (so, rt))" by (metis prod_cases3)
  have "store_sound own cf C K (so, rt)"
    by (rule in_topics_sound [OF s c]) (rule create_all_sound)
  with op c show ?thesis
    by (auto simp: store_open_def Let_def store_sound_def split: sum.splits if_split_asm)
qed

lemma store_close_sound:
  assumes s: "store_sound own cf C K s" and op: "store_close s = (res, s')"
  shows "store_sound own' cf C (\<lambda>n p. length (snd (C n p))) s'"
proof -
  obtain so rt where s0: "s = (so, rt)" by (cases s)
  let ?s = "(so\<lparr>so_ready := False, so_tail := tail_close (so_tail so)\<rparr>, rt)"
  have "store_sound own cf C K ?s" using s tail_ok_close by (simp add: store_sound_def s0)
  moreover obtain r tp rt1 where c: "topics_close (so_topics so, rt) = (r, (tp, rt1))" by (metis prod_cases3)
  ultimately have k: "sound own cf C K (so_topics so, rt)" "tail_ok (tail_close (so_tail so))"
    by (simp_all add: store_sound_def)
  note topics_close_sound [OF k(1) c, of own']
  moreover have "s' = (so\<lparr>so_ready := False, so_tail := tail_close (so_tail so), so_topics := tp\<rparr>, rt1)"
    using op c by (auto simp: store_close_def s0 in_topics_def)
  ultimately show ?thesis using k(2) by (simp add: store_sound_def)
qed

section \<open>Starting again\<close>

text \<open>A topic's directory as this code leaves it is readable, so \<open>open\<close> can say which partitions are another's.\<close>

lemma digits_not_negative: "py_isdigit (int_text p) \<Longrightarrow> 0 \<le> p"
  by (auto simp: int_text_def py_isdigit_def is_ascii_digit_def split: if_split_asm)

lemma tame_foreign:
  assumes "tame rt"
  shows "\<exists>ps. foreign_partitions own name rt = Inr ps"
proof (cases "map_of rt name")
  case (Some x)
  show ?thesis
  proof (cases x)
    case (Topic_Dir t)
    then have "tidy_topic t" using tame_tidy [OF assms, of name] Some by (simp add: topic_at_def)
    then have "\<forall>n \<in> set (map fst (td_dirs t)). py_isdigit n \<longrightarrow> (\<exists>p \<ge> 0. n = int_text p)"
    proof (intro ballI impI)
      fix n assume "n \<in> set (map fst (td_dirs t))" "py_isdigit n"
      moreover from this \<open>tidy_topic t\<close> obtain p where "n = int_text p" by (auto simp: tidy_topic_def)
      ultimately show "\<exists>p \<ge> 0. n = int_text p" using digits_not_negative by blast
    qed
    from foreign_numbers_exact [OF this, of "own name"] Some Topic_Dir show ?thesis by (auto simp: foreign_partitions_def)
  qed (simp add: Some foreign_partitions_def)
qed (simp add: foreign_partitions_def)

lemma tame_orphans: "tame rt \<Longrightarrow> \<exists>found. find_orphans own names rt = Inr found"
proof (induction names)
  case (Cons name names)
  then obtain found where "find_orphans own names rt = Inr found" by blast
  moreover obtain ps where "foreign_partitions own name rt = Inr ps" using tame_foreign [OF Cons.prems] by blast
  ultimately show ?case by simp
qed simp

lemma create_all_succeeds:
  assumes "sound own cf C K st" "\<forall>name \<in> set names. is_valid_name name \<and> (\<exists>n. metas (snd st) name = Some (Inr n))"
    "create_all own tick names st = (res, st')"
  shows "res = Inr ()"
  using assms
proof (induction names arbitrary: st)
  case (Cons name names)
  obtain n where name: "is_valid_name name" "metas (snd st) name = Some (Inr n)" using Cons.prems(2) by auto
  have "n = (case metas (snd st) name of Some (Inr n) \<Rightarrow> n
      | _ \<Rightarrow> (case None of Some k \<Rightarrow> if k = 0 then tp_default (fst st) else k | None \<Rightarrow> tp_default (fst st)))"
    using name(2) by simp
  from topic_create_ok [OF soundD(1) [OF Cons.prems(1)] name(1) tame_no_file [OF soundD(3) [OF Cons.prems(1)]] _ this]
    name(2) have "\<exists>st1. topic_create own name None tick st = (Inr n, st1)
      \<and> metas (snd st1) = (metas (snd st))(name := Some (Inr n))" by fastforce
  then obtain st1 where c: "topic_create own name None tick st = (Inr n, st1)"
    "metas (snd st1) = (metas (snd st))(name := Some (Inr n))" by blast
  then have "metas (snd st1) = metas (snd st)" using name(2) by (simp add: fun_upd_idem_iff)
  with Cons.IH [OF topic_create_sound [OF Cons.prems(1) c(1)]] Cons.prems(2,3) c(1) show ?case by simp
qed simp

lemma store_open_succeeds:
  assumes s: "store_sound own cf C K s" and metas: "\<forall>name e. metas (snd s) name \<noteq> Some (Inl e)"
    and op: "store_open own tick s = (res, s')"
  shows "res = Inr ()"
proof -
  obtain so rt where s0: "s = (so, rt)" by (cases s)
  let ?names = "topic_names rt"
  obtain r tp' rt' where c: "create_all own tick ?names (so_topics so, rt) = (r, (tp', rt'))" by (metis prod_cases3)
  have st: "sound own cf C K (so_topics so, rt)" using s by (simp add: store_sound_def s0)
  have "is_valid_name n \<and> (\<exists>k. metas rt n = Some (Inr k))" if "n \<in> set ?names" for n
  proof -
    have "is_valid_name n" "metas rt n \<noteq> None" using topic_names_meta [OF that] by blast+
    moreover then obtain x where "metas rt n = Some x" by blast
    ultimately show ?thesis using metas by (cases x) (auto simp: s0)
  qed
  then have r: "r = Inr ()" using create_all_succeeds [OF st _ c] by simp
  have "tame rt'" using soundD(3) [OF create_all_sound [OF st c]] by simp
  then obtain found where "find_orphans own ?names rt' = Inr found" using tame_orphans by blast
  with op c r show ?thesis by (auto simp: store_open_def in_topics_def s0 Let_def split: if_split_asm)
qed

text \<open>There is always something a power cut can leave.\<close>

lemma root_cut_exists:
  assumes s: "sound own cf C K st"
  shows "\<exists>rt. root_cut (snd st) rt"
proof -
  note S = soundD [OF s]
  have "\<exists>e'. entry_cut e e'" if e: "(name, e) \<in> set (snd st)" for name e
  proof -
    have "distinct (map fst (snd st))" "tame_entry e" using S(3) e by (auto simp: tame_def)
    moreover then obtain t where t: "e = Topic_Dir t" "tidy_topic t" by (cases e) auto
    ultimately have at: "topic_at name (snd st) = t" using e by (simp add: topic_at_def)
    have "\<exists>d'. power_cut d d'" if d: "(k, d) \<in> set (td_dirs t)" for k d
    proof -
      from d t(2) obtain p where p: "k = int_text p" by (force simp: tidy_topic_def)
      have "part_dir name p (snd st) = d" using d t(2) by (simp add: part_dir_def at p tidy_topic_def)
      moreover have "on_disk (C name p) (part_dir name p (snd st))" by (rule topics_ok_on_disk [OF S(1)])
      ultimately show ?thesis using on_disk_healthy power_cut_exists by blast
    qed
    then have "\<forall>d \<in> snd ` set (td_dirs t). \<exists>d'. power_cut d d'" by force
    from bchoice [OF this] obtain f where f: "\<And>x. x \<in> set (td_dirs t) \<Longrightarrow> power_cut (snd x) (f (snd x))" by auto
    let ?t = "t\<lparr>td_dirs := map (\<lambda>(k, d). (k, f d)) (td_dirs t)\<rparr>"
    have "entry_cut e (Topic_Dir ?t)" using f
      by (auto simp: t(1) list_all2_map1 list_all2_map2 list_all2_same case_prod_beta)
    then show ?thesis ..
  qed
  then have "\<forall>e \<in> snd ` set (snd st). \<exists>e'. entry_cut e e'" by force
  from bchoice [OF this] obtain g where g: "\<And>x. x \<in> set (snd st) \<Longrightarrow> entry_cut (snd x) (g (snd x))" by auto
  then have "root_cut (snd st) (map (\<lambda>(n, e). (n, g e)) (snd st))"
    by (auto simp: root_cut_def list_all2_map1 list_all2_map2 list_all2_same case_prod_beta)
  then show ?thesis ..
qed

text \<open>
  \<open>topic.json\<close> is written without an \<open>fsync\<close>. If a power cut leaves one that cannot be parsed, the
  broker does not come up: \<open>open\<close> raises and the store is never ready.
\<close>

lemma torn_meta:
  assumes "store_ok own C s" "\<not> so_ready (fst s)" "distinct (map fst (snd s))"
    "name \<in> set (topic_names (snd s))" "metas (snd s) name = Some (Inl e)" "store_open own tick s = (res, s')"
  shows "(\<exists>e'. res = Inl e') \<and> \<not> so_ready (fst s')"
proof -
  note k = store_open_decides [OF assms(1-3,6)]
  have "res \<noteq> Inr ()"
  proof
    assume "res = Inr ()"
    with k assms(4) obtain ot where ot: "map_of (tp_open (so_topics (fst s'))) name = Some ot" by blast
    have "topics_ok own C (so_topics (fst s'), snd s')" using k by (simp add: store_ok_def)
    from topics_okD(4) [OF this ot] have "metas (snd s') name = Some (Inr (ot_partitions ot))" by (simp add: open_ok_def)
    with k assms(5) show False by simp
  qed
  with k show ?thesis by (cases res) auto
qed

end
