(* ===== verification/Log_Service.thy ===== *)
theory Log_Service
  imports Startup
begin

text \<open>
  What a broker promises its clients, without disks, segments or open files: named topics with a fixed
  number of partitions, each a list of records, a part of which is safe. A restart keeps the lists; a power
  cut keeps of each at least what is safe.
\<close>

section \<open>Runs of a step relation\<close>

inductive steps :: "('s \<Rightarrow> 'o \<Rightarrow> 'r \<Rightarrow> 's \<Rightarrow> bool) \<Rightarrow> 's \<Rightarrow> ('o \<times> 'r) list \<Rightarrow> 's \<Rightarrow> bool" for step where
  none: "steps step s [] s"
| more: "step s x a s1 \<Longrightarrow> steps step s1 h s2 \<Longrightarrow> steps step s ((x, a) # h) s2"

inductive_simps steps_Nil [simp]: "steps step s [] s2"

inductive_simps steps_Cons: "steps step s ((x, a) # h) s2"

lemma steps_append: "steps step s (h1 @ h2) s2 \<longleftrightarrow> (\<exists>s1. steps step s h1 s1 \<and> steps step s1 h2 s2)"
proof (induction h1 arbitrary: s)
  case (Cons x h1)
  obtain a b where x: "x = (a, b)" by (cases x)
  show ?case unfolding x append_Cons steps_Cons Cons.IH by blast
qed simp

lemma steps_invariant: "steps step s h s2 \<Longrightarrow> P s \<Longrightarrow> (\<And>s x a s1. step s x a s1 \<Longrightarrow> P s \<Longrightarrow> P s1) \<Longrightarrow> P s2"
  by (induction rule: steps.induct) blast+

text \<open>
  An implementation simulates a specification if every answer it gives is one the specification allows, and
  it always has an answer.
\<close>

locale simulation =
  fixes conc :: "'s \<Rightarrow> 'o \<Rightarrow> 'r \<Rightarrow> 's \<Rightarrow> bool" and spec :: "'v \<Rightarrow> 'o \<Rightarrow> 'r \<Rightarrow> 'v \<Rightarrow> bool" and rel :: "'v \<Rightarrow> 's \<Rightarrow> bool"
  assumes simulated: "rel v s \<Longrightarrow> conc s x a s' \<Longrightarrow> \<exists>v'. spec v x a v' \<and> rel v' s'"
    and answers: "rel v s \<Longrightarrow> \<exists>a s'. conc s x a s'"
begin

lemma runs_simulated: "steps conc s h s' \<Longrightarrow> rel v s \<Longrightarrow> \<exists>v'. steps spec v h v' \<and> rel v' s'"
proof (induction arbitrary: v rule: steps.induct)
  case (more s x a s1 h s2)
  with simulated [OF more.prems more.hyps(1)] show ?case by (meson steps.more)
qed (auto intro: steps.none)

lemma never_stuck: "steps conc s h s' \<Longrightarrow> rel v s \<Longrightarrow> \<exists>a s2. conc s' x a s2"
  using runs_simulated answers by blast

end

section \<open>Requests and answers\<close>

text \<open>A \<open>Consume\<close> here is one without \<open>follow\<close>. The broker's own events are stopping and starting again, and losing power.\<close>

datatype operation =
    Create_Topic string "int option"
  | Produce_One produce_request int
  | Consume_From string int int int
  | Get_Metadata "string list"
  | Sync_Topic string
  | Restart
  | Power_Cut

datatype response =
    Created "(string \<times> int) answer"
  | Produced "produce_response reply"
  | Streamed streamed
  | Described "metadata_response reply"
  | Synced "unit answer"
  | Started "unit result"

definition bounded_request :: "string \<Rightarrow> int \<Rightarrow> int \<Rightarrow> int \<Rightarrow> consume_request" where
  "bounded_request topic p off limit =
     \<lparr>cq_topic = topic, cq_partition = p, cq_offset = off, cq_follow = False, cq_max_records = limit\<rparr>"

section \<open>The service\<close>

record service =
  sv_default :: int
  sv_policy :: sync_policy
  sv_counts :: "string \<Rightarrow> int option"
  sv_log :: "string \<Rightarrow> int \<Rightarrow> log_record list"
  sv_safe :: "string \<Rightarrow> int \<Rightarrow> nat"

definition empty_service :: "int \<Rightarrow> sync_policy \<Rightarrow> service" where
  "empty_service k pol =
     \<lparr>sv_default = k, sv_policy = pol, sv_counts = (\<lambda>n. None), sv_log = (\<lambda>n p. []), sv_safe = (\<lambda>n p. 0)\<rparr>"

definition count_for :: "service \<Rightarrow> string \<Rightarrow> int option \<Rightarrow> int" where
  "count_for v name k =
     (case sv_counts v name of Some n \<Rightarrow> n | None \<Rightarrow> (case k of Some j \<Rightarrow> j | None \<Rightarrow> sv_default v))"

definition with_topic :: "string \<Rightarrow> int \<Rightarrow> service \<Rightarrow> service" where
  "with_topic name n v = v\<lparr>sv_counts := (sv_counts v)(name := Some n)\<rparr>"

definition with_record :: "string \<Rightarrow> int \<Rightarrow> log_record \<Rightarrow> nat \<Rightarrow> service \<Rightarrow> service" where
  "with_record name p r k v =
     v\<lparr>sv_log := (sv_log v)(name := (sv_log v name)(p := sv_log v name p @ [r])),
       sv_safe := (sv_safe v)(name := (sv_safe v name)(p := k))\<rparr>"

definition all_safe :: "service \<Rightarrow> service" where
  "all_safe v = v\<lparr>sv_safe := (\<lambda>n p. length (sv_log v n p))\<rparr>"

definition topic_safe :: "string \<Rightarrow> int \<Rightarrow> service \<Rightarrow> service" where
  "topic_safe name n v =
     v\<lparr>sv_safe := (sv_safe v)(name := \<lambda>p. if p \<in> {0 ..< n} then length (sv_log v name p) else sv_safe v name p)\<rparr>"

definition truncated :: "(string \<Rightarrow> int \<Rightarrow> nat) \<Rightarrow> service \<Rightarrow> service" where
  "truncated M v = v\<lparr>sv_log := (\<lambda>n p. take (M n p) (sv_log v n p)), sv_safe := M\<rparr>"

text \<open>Where a record may go: the partition it names, its key's, or any.\<close>

definition goes_to :: "int \<Rightarrow> produce_request \<Rightarrow> int \<Rightarrow> bool" where
  "goes_to n rq p \<longleftrightarrow>
     (case pq_partition rq of Some q \<Rightarrow> p = q
      | None \<Rightarrow> (case pq_key rq of Some k \<Rightarrow> p = uint (crc32 k 0) mod n | None \<Rightarrow> 0 \<le> p \<and> p < n))"

definition put_at :: "service \<Rightarrow> produce_request \<Rightarrow> int \<Rightarrow> int \<Rightarrow> log_record" where
  "put_at v rq p now_ns =
     stamped (int (length (sv_log v (pq_topic rq) p))) (pq_key rq) (pq_value rq) (pq_timestamp rq) now_ns"

text \<open>Its state as the descriptions of reads and metadata take it.\<close>

definition service_contents :: "service \<Rightarrow> contents" where
  "service_contents v = (\<lambda>n p. (0, sv_log v n p))"

definition service_metas :: "service \<Rightarrow> string \<Rightarrow> int result option" where
  "service_metas v = (\<lambda>n. map_option Inr (sv_counts v n))"

definition get_answer :: "'a broker_of \<Rightarrow> 'a ring_scheme \<Rightarrow> service \<Rightarrow> consume_request \<Rightarrow> streamed" where
  "get_answer bf r v rq =
     (case read_refusal bf r (service_contents v) (service_metas v) rq (cq_offset rq) of
        Some e \<Rightarrow> ([], Some e)
      | None \<Rightarrow> (map to_proto (batch_of (cq_max_records rq)
          (drop (nat (cq_offset rq)) (sv_log v (cq_topic rq) (cq_partition rq)))), None))"

definition metadata_answer :: "'a broker_of \<Rightarrow> 'a ring_scheme \<Rightarrow> service \<Rightarrow> string list \<Rightarrow> metadata_response reply" where
  "metadata_answer bf r v names =
     (case described bf r (names \<noteq> []) (service_metas v)
         (if names \<noteq> [] then names else sorted_list_of_set (dom (sv_counts v))) of
        Inl e \<Rightarrow> Inl e
      | Inr ts \<Rightarrow> Inr \<lparr>mr_topics = ts, mr_broker_count = rg_brokers r, mr_broker_id = rg_me r\<rparr>)"

definition sync_answer :: "'a broker_of \<Rightarrow> 'a ring_scheme \<Rightarrow> service \<Rightarrow> string \<Rightarrow> unit answer" where
  "sync_answer bf r v name =
     (if \<not> is_valid_name name then Inl Http_400
      else (case sv_counts v name of
          None \<Rightarrow> Inl Http_404
        | Some n \<Rightarrow> if \<forall>p \<in> {0 ..< n}. bf r name p = Inr (rg_me r) then Inr () else Inl (Uncaught PartitionNotLocal)))"

inductive service_step ::
  "'a broker_of \<Rightarrow> 'a ring_scheme \<Rightarrow> service \<Rightarrow> operation \<Rightarrow> response \<Rightarrow> service \<Rightarrow> bool" for bf r where
  create_bad_count: "j < 1 \<Longrightarrow> service_step bf r v (Create_Topic name (Some j)) (Created (Inl Http_422)) v"
| create_bad_name: "\<not> is_valid_name name \<Longrightarrow> \<forall>j. k = Some j \<longrightarrow> 1 \<le> j \<Longrightarrow>
    service_step bf r v (Create_Topic name k) (Created (Inl Http_400)) v"
| create: "is_valid_name name \<Longrightarrow> \<forall>j. k = Some j \<longrightarrow> 1 \<le> j \<Longrightarrow> n = count_for v name k \<Longrightarrow>
    service_step bf r v (Create_Topic name k) (Created (Inr (name, n))) (with_topic name n v)"
| put_bad_name: "\<not> is_valid_name (pq_topic rq) \<Longrightarrow>
    service_step bf r v (Produce_One rq now_ns) (Produced (Inl (Invalid_Argument ValueError))) v"
| put_no_partition: "is_valid_name (pq_topic rq) \<Longrightarrow> n = count_for v (pq_topic rq) None \<Longrightarrow>
    goes_to n rq p \<Longrightarrow> \<not> (0 \<le> p \<and> p < n) \<Longrightarrow>
    service_step bf r v (Produce_One rq now_ns) (Produced (Inl (Invalid_Argument ValueError))) (with_topic (pq_topic rq) n v)"
| put_elsewhere: "is_valid_name (pq_topic rq) \<Longrightarrow> n = count_for v (pq_topic rq) None \<Longrightarrow>
    goes_to n rq p \<Longrightarrow> 0 \<le> p \<Longrightarrow> p < n \<Longrightarrow> bf r (pq_topic rq) p \<noteq> Inr (rg_me r) \<Longrightarrow>
    goes_to n rq q \<Longrightarrow> 0 \<le> q \<Longrightarrow> q < n \<Longrightarrow>
    service_step bf r v (Produce_One rq now_ns) (Produced (Inl (redirect_to bf r (pq_topic rq) q))) (with_topic (pq_topic rq) n v)"
| put_too_large: "is_valid_name (pq_topic rq) \<Longrightarrow> n = count_for v (pq_topic rq) None \<Longrightarrow>
    goes_to n rq p \<Longrightarrow> 0 \<le> p \<Longrightarrow> p < n \<Longrightarrow> bf r (pq_topic rq) p = Inr (rg_me r) \<Longrightarrow>
    encode (put_at v rq p now_ns) = Inl e \<Longrightarrow>
    service_step bf r v (Produce_One rq now_ns)
      (Produced (Inl (if is_value_error e then Invalid_Argument e else Unknown e))) (with_topic (pq_topic rq) n v)"
| put: "is_valid_name (pq_topic rq) \<Longrightarrow> n = count_for v (pq_topic rq) None \<Longrightarrow>
    goes_to n rq p \<Longrightarrow> 0 \<le> p \<Longrightarrow> p < n \<Longrightarrow> bf r (pq_topic rq) p = Inr (rg_me r) \<Longrightarrow>
    encodable (put_at v rq p now_ns) \<Longrightarrow>
    k = sv_safe v (pq_topic rq) p \<and> sv_policy v \<noteq> SYNC_EVERY_RECORD \<or> k = Suc (length (sv_log v (pq_topic rq) p)) \<Longrightarrow>
    service_step bf r v (Produce_One rq now_ns)
      (Produced (Inr \<lparr>pr_partition = p, pr_offset = int (length (sv_log v (pq_topic rq) p)), pr_correlation = pq_correlation rq\<rparr>))
      (with_record (pq_topic rq) p (put_at v rq p now_ns) k (with_topic (pq_topic rq) n v))"
| get: "service_step bf r v (Consume_From topic p off limit)
    (Streamed (get_answer bf r v (bounded_request topic p off limit))) v"
| describe: "service_step bf r v (Get_Metadata names) (Described (metadata_answer bf r v names)) v"
| sync: "sync_answer bf r v name = Inr () \<Longrightarrow> n = count_for v name None \<Longrightarrow>
    service_step bf r v (Sync_Topic name) (Synced (Inr ())) (topic_safe name n v)"
| sync_refused: "sync_answer bf r v name = Inl e \<Longrightarrow> service_step bf r v (Sync_Topic name) (Synced (Inl e)) v"
| restart: "service_step bf r v Restart (Started (Inr ())) (all_safe v)"
| power_cut: "\<forall>n p. sv_safe v n p \<le> M n p \<and> M n p \<le> length (sv_log v n p) \<Longrightarrow>
    service_step bf r v Power_Cut (Started (Inr ())) (truncated M v)"

inductive_cases service_produceE: "service_step bf r v (Produce_One rq now_ns) (Produced (Inr resp)) v'"
inductive_cases service_consumeE: "service_step bf r v (Consume_From topic p off limit) a v'"

lemmas service_updates = with_topic_def with_record_def all_safe_def topic_safe_def truncated_def

section \<open>What the service keeps\<close>

text \<open>Under \<open>SYNC_EVERY_RECORD\<close> all is safe; then no event shortens or changes what is there.\<close>

definition careful :: "service \<Rightarrow> bool" where
  "careful v \<longleftrightarrow> sv_policy v = SYNC_EVERY_RECORD \<and> (\<forall>n p. sv_safe v n p = length (sv_log v n p))"

definition extends :: "service \<Rightarrow> service \<Rightarrow> bool" where
  "extends v v' \<longleftrightarrow> (\<forall>n p. prefix (sv_log v n p) (sv_log v' n p)) \<and> sv_counts v \<subseteq>\<^sub>m sv_counts v'"

lemma extends_refl [simp]: "extends v v"
  by (simp add: extends_def)

lemma extends_trans: "extends v1 v2 \<Longrightarrow> extends v2 v3 \<Longrightarrow> extends v1 v3"
  unfolding extends_def by (meson map_le_trans prefix_order.trans)

lemma count_for_extends: "extends v (with_topic name (count_for v name k) v)"
  by (auto simp: extends_def with_topic_def count_for_def map_le_def split: option.splits)

lemma careful_step: "service_step bf r v x a v' \<Longrightarrow> careful v \<Longrightarrow> careful v' \<and> extends v v'"
proof (induction rule: service_step.induct)
  case (put rq n v p now_ns k)
  let ?v = "with_topic (pq_topic rq) n v"
  let ?v' = "with_record (pq_topic rq) p (put_at v rq p now_ns) k ?v"
  have "extends ?v ?v'" by (simp add: extends_def service_updates)
  then have "extends v ?v'" unfolding put.hyps(2) by (rule extends_trans [OF count_for_extends])
  moreover have "k = Suc (length (sv_log v (pq_topic rq) p))" using put.hyps(8) put.prems by (auto simp: careful_def)
  then have "careful ?v'" using put.prems by (simp add: careful_def service_updates)
  ultimately show ?case by blast
next
  case (power_cut v M)
  then have "M = (\<lambda>n p. length (sv_log v n p))" unfolding careful_def by (metis dual_order.antisym ext)
  with power_cut show ?case by (simp add: careful_def extends_def truncated_def)
qed (use count_for_extends in \<open>auto simp: careful_def service_updates extends_def\<close>)

lemma careful_run: "steps (service_step bf r) v h v' \<Longrightarrow> careful v \<Longrightarrow> careful v' \<and> extends v v'"
proof (induction rule: steps.induct)
  case (more v x a v1 h v2)
  with careful_step [OF more.hyps(1)] extends_trans show ?case by blast
qed simp

text \<open>So what was taken in is what comes out at its offset, whatever happened between.\<close>

lemma put_then_get:
  assumes v: "careful v" and run: "steps (service_step bf r) v
      ((Produce_One rq now_ns, Produced (Inr resp)) # h
        @ [(Consume_From (pq_topic rq) (pr_partition resp) (pr_offset resp) limit, Streamed out)]) v'"
  shows "\<exists>rest. out = (to_proto (stamped (pr_offset resp) (pq_key rq) (pq_value rq) (pq_timestamp rq) now_ns) # rest, None)"
proof -
  let ?t = "pq_topic rq" and ?p = "pr_partition resp"
  from run obtain v1 v2 where s: "service_step bf r v (Produce_One rq now_ns) (Produced (Inr resp)) v1"
    "steps (service_step bf r) v1 h v2" "service_step bf r v2 (Consume_From ?t ?p (pr_offset resp) limit) (Streamed out) v'"
    by (auto simp: steps_Cons steps_append)
  let ?rec = "put_at v rq ?p now_ns" and ?n = "count_for v ?t None"
  from s(1) have p: "is_valid_name ?t" "0 \<le> ?p" "?p < ?n" "bf r ?t ?p = Inr (rg_me r)"
    "pr_offset resp = int (length (sv_log v ?t ?p))"
    and v1: "\<exists>k. v1 = with_record ?t ?p ?rec k (with_topic ?t ?n v)" by (auto elim!: service_produceE)
  have "careful v1" using careful_step [OF s(1) v] by blast
  from careful_run [OF s(2) this] have e: "extends v1 v2" by blast
  have "sv_counts v1 ?t = Some ?n" using v1 by (auto simp: service_updates)
  then have n: "sv_counts v2 ?t = Some ?n" using e by (auto simp: extends_def map_le_def dom_def)
  have "sv_log v1 ?t ?p = sv_log v ?t ?p @ [?rec]" using v1 by (auto simp: service_updates)
  moreover have "prefix (sv_log v1 ?t ?p) (sv_log v2 ?t ?p)" using e by (simp add: extends_def)
  ultimately obtain more where "sv_log v2 ?t ?p = (sv_log v ?t ?p @ [?rec]) @ more" by (metis prefixE)
  then have d: "drop (nat (pr_offset resp)) (sv_log v2 ?t ?p) = ?rec # more" by (simp add: p(5))
  have "read_refusal bf r (service_contents v2) (service_metas v2)
      (bounded_request ?t ?p (pr_offset resp) limit) (pr_offset resp) = None"
    using p n by (simp add: read_refusal_def bounded_request_def service_metas_def service_contents_def ring_owns_iff)
  then have "get_answer bf r v2 (bounded_request ?t ?p (pr_offset resp) limit)
      = (map to_proto (batch_of limit (?rec # more)), None)"
    using d by (simp add: get_answer_def bounded_request_def)
  moreover have "out = get_answer bf r v2 (bounded_request ?t ?p (pr_offset resp) limit)"
    using s(3) by (auto elim: service_consumeE)
  moreover have "\<exists>rest. batch_of limit (?rec # more) = ?rec # rest"
    by (cases "nat limit") (auto simp: batch_of_def)
  ultimately show ?thesis by (auto simp: put_at_def p(5))
qed

end
