(* ===== verification/Broker_Refinement.thy ===== *)
theory Broker_Refinement
  imports Log_Service Durability
begin

text \<open>
  The broker of \<open>broker/handler.py\<close>, \<open>broker/admin.py\<close> and \<open>broker/store.py\<close> is a \<open>Log_Service\<close>: through
  any sequence of requests, restarts and power cuts, what it answers is what the service would.
\<close>

section \<open>Requests keep what is safe\<close>

lemma handler_read_sound:
  "store_sound (ring_owns bf r) cf C K s \<Longrightarrow> handler_read bf r rq off limit tick s = (res, s') \<Longrightarrow>
    store_sound (ring_owns bf r) cf C K s'"
  by (auto simp: handler_read_def split: prod.splits sum.splits dest: store_read_sound)

lemma consume_loop_sound:
  assumes "consume_loop bf r rq off remaining tick s = Some out"
  shows "store_sound (ring_owns bf r) cf C K s \<longrightarrow> store_sound (ring_owns bf r) cf C K (snd out)"
proof (rule consume_loop.raw_induct [OF _ assms])
  fix loop bf r rq off remaining tick s out
  assume ih: "\<And>bf r rq off remaining tick s out. loop bf r rq off remaining tick s = Some out \<Longrightarrow>
      store_sound (ring_owns bf r) cf C K s \<longrightarrow> store_sound (ring_owns bf r) cf C K (snd out)"
    and run: "(let limit = case remaining of None \<Rightarrow> BATCH | Some n \<Rightarrow> min BATCH n
      in case handler_read bf r rq off limit tick s of
         (Inl e, s1) \<Rightarrow> Some (([], Some e), s1)
       | (Inr batch, s1) \<Rightarrow>
           let sent = map to_proto batch; off1 = next_offset off batch;
               remaining1 = map_option (\<lambda>n. n - int (length batch)) remaining
           in if case remaining1 of None \<Rightarrow> False | Some n \<Rightarrow> n \<le> 0 then Some ((sent, None), s1)
              else if int (length batch) = limit then
                Option.bind (loop bf r rq off1 remaining1 tick s1) (\<lambda>((rest, err), s2). Some ((sent @ rest, err), s2))
              else Some ((sent, None), s1)) = Some out"
  let ?limit = "case remaining of None \<Rightarrow> BATCH | Some n \<Rightarrow> min BATCH n"
  obtain res s1 where rd: "handler_read bf r rq off ?limit tick s = (res, s1)" by (meson surj_pair)
  show "store_sound (ring_owns bf r) cf C K s \<longrightarrow> store_sound (ring_owns bf r) cf C K (snd out)"
  proof
    assume s: "store_sound (ring_owns bf r) cf C K s"
    note s1 = handler_read_sound [OF s rd]
    show "store_sound (ring_owns bf r) cf C K (snd out)"
    proof (cases "\<exists>batch off1 remaining1 rest err s2. res = Inr batch \<and> snd out = s2
        \<and> loop bf r rq off1 remaining1 tick s1 = Some ((rest, err), s2)")
      case True
      then obtain off1 remaining1 rest err where "loop bf r rq off1 remaining1 tick s1 = Some ((rest, err), snd out)" by blast
      from ih [OF this] s1 show ?thesis by simp
    next
      case False
      have "snd out = s1"
      proof (cases res)
        case (Inl e)
        with run rd show ?thesis by (auto simp: Let_def)
      next
        case (Inr batch)
        show ?thesis
        proof (rule ccontr)
          assume "snd out \<noteq> s1"
          with run rd Inr obtain x where "loop bf r rq (next_offset off batch)
              (map_option (\<lambda>n. n - int (length batch)) remaining) tick s1 = Some x" "snd out = snd x"
            by (auto simp: Let_def case_prod_beta bind_eq_Some_conv split: if_split_asm)
          with False Inr show False by (metis prod.collapse)
        qed
      qed
      with s1 show ?thesis by simp
    qed
  qed
qed

lemma describe_topics_sound:
  "describe_topics bf r asked names tick s = (res, s') \<Longrightarrow> store_sound (ring_owns bf r) cf C K s \<Longrightarrow>
    store_sound (ring_owns bf r) cf C K s'"
proof (induction names arbitrary: s res)
  case (Cons name names)
  obtain c s1 where c: "store_partitions_of (ring_owns bf r) name tick s = (c, s1)" by (meson surj_pair)
  note s1 = store_partitions_of_sound [OF Cons.prems(2) c]
  show ?case
  proof (cases "s' = s1")
    case False
    with Cons.prems(1) c obtain r2 where "describe_topics bf r asked names tick s1 = (r2, s')"
      by (auto split: sum.splits if_split_asm prod.splits)
    with Cons.IH s1 show ?thesis by blast
  qed (use s1 in simp)
qed simp

lemma produce_sound:
  assumes s: "store_sound (ring_owns bf r) cf C K s" and name: "is_valid_name (pq_topic rq)"
    and meta: "metas (snd s) (pq_topic rq) = Some (Inr n)" and n: "1 \<le> n"
    and run: "produce bf r rq now_ns tick s = (res, s')"
  shows "case res of
      Inl err \<Rightarrow> store_sound (ring_owns bf r) cf C K s'
    | Inr resp \<Rightarrow> \<exists>k. (k = K (pq_topic rq) (pr_partition resp) \<and> fst (snd cf) \<noteq> SYNC_EVERY_RECORD
          \<or> k = Suc (length (snd (C (pq_topic rq) (pr_partition resp)))))
        \<and> store_sound (ring_owns bf r) cf
            (put_contents (pq_topic rq) (pr_partition resp) (fst (C (pq_topic rq) (pr_partition resp)),
              snd (C (pq_topic rq) (pr_partition resp))
                @ [stamped (pr_offset resp) (pq_key rq) (pq_value rq) (pq_timestamp rq) now_ns]) C)
            (K(pq_topic rq := (K (pq_topic rq))(pr_partition resp := k))) s'"
proof -
  obtain res1 s1 where app: "store_append (ring_owns bf r) (pq_topic rq) (pq_key rq) (pq_value rq) (pq_timestamp rq)
      (pq_partition rq) now_ns tick s = (res1, s1)" by (meson surj_pair)
  note k = store_append_sound [OF s name meta n app]
  show ?thesis
  proof (cases res1)
    case (Inl e)
    have redirect: "store_sound (ring_owns bf r) cf C K s2" if "handler_redirect bf r topic part rq tick s1 = (err, s2)"
      for topic part err s2
      using that k Inl
      by (auto simp: handler_redirect_def split: option.splits prod.splits sum.splits dest: store_route_sound)
    with run app Inl k show ?thesis
      by (auto simp: produce_def handler_append_def split: if_split_asm prod.splits)
  next
    case (Inr po)
    have "res = Inr (respond rq po)" "s' = s1" using run app Inr by (auto simp: produce_def handler_append_def)
    moreover have "pr_partition (respond rq po) = fst po" "pr_offset (respond rq po) = snd po"
      by (simp_all add: respond_def Let_def)
    ultimately show ?thesis using k Inr by (cases po) auto
  qed
qed

lemma get_log_sound:
  "store_sound own cf C K s \<Longrightarrow> get_log own name p tick s = (res, s') \<Longrightarrow> store_sound own cf C K s'"
proof -
  assume s: "store_sound own cf C K s" and run: "get_log own name p tick s = (res, s')"
  then obtain r where "in_topics (topic_get own name p tick) s = (r, s')" by (auto simp: get_log_def split: prod.splits)
  from in_topics_sound [OF s this topic_get_sound] show ?thesis .
qed

lemma get_logs_sound:
  "store_sound own cf C K s \<Longrightarrow> get_logs own name ps tick s = (res, s') \<Longrightarrow> store_sound own cf C K s'"
proof (induction ps arbitrary: s res)
  case (Cons p ps)
  obtain r s1 where g: "get_log own name p tick s = (r, s1)" by (meson surj_pair)
  note s1 = get_log_sound [OF Cons.prems(1) g]
  show ?case
  proof (cases "s' = s1")
    case False
    with Cons.prems(2) g obtain r2 where "get_logs own name ps tick s1 = (r2, s')"
      by (auto split: sum.splits prod.splits)
    with Cons.IH s1 show ?thesis by blast
  qed (use s1 in simp)
qed simp

section \<open>Creating on the way\<close>

text \<open>\<open>append\<close> creates a topic that does not exist, as \<open>create\<close> without a count does.\<close>

lemma topic_append_creates:
  assumes "topic_create own name None tick st = (Inr n, st1)"
  shows "topic_append own name key val ts part now_ns tick st = topic_append own name key val ts part now_ns tick st1"
proof (cases "map_of (tp_open (fst st)) name")
  case (Some ot)
  with assms have "st1 = st" by (auto simp: topic_create_def split: sum.splits)
  then show ?thesis by simp
next
  case None
  with assms obtain u ot where v: "validate_name name = Inr u" and o: "open_locked own name None tick st = (Inr ot, st1)"
    by (auto simp: topic_create_def split: sum.splits prod.splits)
  from o have "map_of (tp_open (fst st1)) name = Some ot"
    by (cases st) (auto simp: open_locked_def Let_def split: sum.splits prod.splits)
  with v o None show ?thesis by (simp add: topic_append_def)
qed

lemma produce_creates:
  assumes "store_create (ring_owns bf r) (pq_topic rq) None tick s = (Inr n, s1)"
  shows "produce bf r rq now_ns tick s = produce bf r rq now_ns tick s1"
proof -
  from assms obtain st1 where c: "topic_create (ring_owns bf r) (pq_topic rq) None tick (so_topics (fst s), snd s) = (Inr n, st1)"
    "s1 = ((fst s)\<lparr>so_topics := fst st1\<rparr>, snd st1)" by (auto simp: store_create_def in_topics_def split: prod.splits)
  have "store_append (ring_owns bf r) (pq_topic rq) key val ts part now_ns tick s
      = store_append (ring_owns bf r) (pq_topic rq) key val ts part now_ns tick s1" for key val ts part
    using topic_append_creates [OF c(1)]
    by (auto simp: store_append_def store_write_def in_topics_def c(2) split: prod.split)
  then show ?thesis by (simp add: produce_def handler_append_def)
qed

lemma store_create_found:
  assumes s: "store_sound own cf C K s" and name: "is_valid_name name" and metas: "\<And>e. metas (snd s) name \<noteq> Some (Inl e)"
    and run: "store_create own name k tick s = (res, s1)" and k: "k \<noteq> Some 0"
    and n: "n = (case metas (snd s) name of Some (Inr n) \<Rightarrow> n | _ \<Rightarrow> (case k of Some j \<Rightarrow> j | None \<Rightarrow> fst cf))"
  shows "res = Inr n \<and> store_sound own cf C K s1 \<and> metas (snd s1) = (metas (snd s))(name := Some (Inr n))"
proof -
  have st: "sound own cf C K (so_topics (fst s), snd s)" using s by (simp add: store_sound_def)
  note S = soundD [OF st]
  have "n = (case metas (snd (so_topics (fst s), snd s)) name of Some (Inr n) \<Rightarrow> n
      | _ \<Rightarrow> (case k of Some j \<Rightarrow> if j = 0 then tp_default (fst (so_topics (fst s), snd s)) else j
              | None \<Rightarrow> tp_default (fst (so_topics (fst s), snd s))))"
    using n k S(4) by (auto simp: settings_def split: option.splits sum.splits)
  from topic_create_ok [OF S(1) name tame_no_file [OF S(3)] _ this, of tick] metas obtain st1 where
    "topic_create own name k tick (so_topics (fst s), snd s) = (Inr n, st1)"
    "metas (snd st1) = (metas (snd s))(name := Some (Inr n))" by auto
  then have "res = Inr n" "metas (snd s1) = (metas (snd s))(name := Some (Inr n))"
    using run by (auto simp: store_create_def in_topics_def split: prod.splits)
  with store_create_sound [OF s run] show ?thesis by simp
qed

section \<open>Syncing keeps everything\<close>

lemma on_log_sync_sound:
  assumes s: "sound own cf C K st" and e: "open_entry st name p = Some e"
    and run: "on_log name p lg0 log_sync st = (res, st')"
  shows "sound own cf C (K(name := (K name)(p := length (snd (C name p))))) st'"
proof -
  note S = soundD [OF s]
  note h = open_entry_holds [OF S(1) e]
  from entry_sync_ok [OF h(1,2), of 0] obtain lg d where
    l: "log_sync (pe_log e) (part_dir name p (snd st)) = (Inr (), lg, d)"
      "entry_durable (C name p) (mark_synced 0 (e\<lparr>pe_log := lg\<rparr>)) d" by blast
  have st': "st' = put_entry name p (e\<lparr>pe_log := lg\<rparr>) d st"
    using run on_log_put [where f = log_sync and ?lg0.0 = lg0, OF e l(1)] by simp
  have "log_kept (lg_max lg) (fst (C name p) + int (length (snd (C name p)))) (lg, d) (fst (C name p)) (snd (C name p))"
    using l(2) by (simp add: entry_durable_def mark_synced_def)
  then have "kept_ok (put_contents name p (C name p) C) (K(name := (K name)(p := length (snd (C name p))))) st'"
    unfolding st' by (intro kept_put [OF S(2) e]) simp_all
  moreover have "topics_ok own C st'" using on_log_sync [where ?lg0.0 = lg0, OF S(1) e] run by auto
  moreover have "tame (snd st')" "settings (fst st') = cf" using S by (simp_all add: st')
  ultimately show ?thesis by (simp add: sound_def)
qed

lemma sync_logs_sound:
  assumes "store_sound own cf C K s" "\<forall>p \<in> fst ` set lgs. open_entry (so_topics (fst s), snd s) name p \<noteq> None"
    "distinct (map fst lgs)" "sync_logs name lgs s = (res, s')"
  shows "store_sound own cf C (K(name := \<lambda>p. if p \<in> fst ` set lgs then length (snd (C name p)) else K name p)) s'"
  using assms
proof (induction lgs arbitrary: s K)
  case (Cons x lgs)
  obtain p lg where x: "x = (p, lg)" by (cases x)
  obtain so rt where s: "s = (so, rt)" by (cases s)
  obtain e where e: "open_entry (so_topics so, rt) name p = Some e" using Cons.prems(2) by (auto simp: s x)
  have st: "sound own cf C K (so_topics so, rt)" using Cons.prems(1) by (simp add: s store_sound_def)
  from on_log_sync [where ?lg0.0 = lg, OF soundD(1) [OF st] e] obtain tp' rt' lg1 where
    l: "on_log name p lg log_sync (so_topics so, rt) = (Inr lg1, (tp', rt'))"
      "\<forall>q. q \<noteq> p \<longrightarrow> open_entry (tp', rt') name q = open_entry (so_topics so, rt) name q"
    by auto
  let ?s = "(so\<lparr>so_topics := tp'\<rparr>, rt')" and ?K = "K(name := (K name)(p := length (snd (C name p))))"
  have "store_sound own cf C ?K ?s"
    using on_log_sync_sound [OF st e l(1)] Cons.prems(1) by (simp add: store_sound_def s)
  moreover have "\<forall>q \<in> fst ` set lgs. open_entry (so_topics (fst ?s), snd ?s) name q \<noteq> None"
  proof
    fix q assume q: "q \<in> fst ` set lgs"
    then have "q \<noteq> p" using Cons.prems(3) by (auto simp: x)
    moreover have "open_entry (so_topics so, rt) name q \<noteq> None" using Cons.prems(2) q by (auto simp: s)
    ultimately show "open_entry (so_topics (fst ?s), snd ?s) name q \<noteq> None" using l(2) by simp
  qed
  moreover have "sync_logs name lgs ?s = (res, s')" "distinct (map fst lgs)"
    using Cons.prems(3,4) l(1) by (auto simp: s x in_topics_def thread_answer_def)
  ultimately have "store_sound own cf C
      (?K(name := \<lambda>q. if q \<in> fst ` set lgs then length (snd (C name q)) else ?K name q)) s'"
    using Cons.IH by blast
  moreover have "?K(name := \<lambda>q. if q \<in> fst ` set lgs then length (snd (C name q)) else ?K name q)
    = K(name := \<lambda>q. if q \<in> fst ` set (x # lgs) then length (snd (C name q)) else K name q)"
    by (auto simp: x fun_eq_iff)
  ultimately show ?case by (simp only:)
qed (simp add: fun_upd_idem_iff)

section \<open>The broker's events\<close>

text \<open>
  One event with its answer, under any reading of the clock. A restart closes the store and opens a new one
  with the same settings on the same data root; after a power cut a new one finds what the cut has left.
\<close>

inductive broker_step ::
  "'a broker_of \<Rightarrow> 'a ring_scheme \<Rightarrow> int \<times> sync_policy \<times> int \<Rightarrow> store_state \<Rightarrow> operation \<Rightarrow> response \<Rightarrow> store_state \<Rightarrow> bool"
  for bf r cf where
  create_topic: "create_topic (ring_owns bf r) name k tick s = (a, s') \<Longrightarrow>
    broker_step bf r cf s (Create_Topic name k) (Created a) s'"
| produce: "produce bf r rq now_ns tick s = (a, s') \<Longrightarrow> broker_step bf r cf s (Produce_One rq now_ns) (Produced a) s'"
| consume: "consume bf r (bounded_request topic p off limit) tick s = Some (a, s') \<Longrightarrow>
    broker_step bf r cf s (Consume_From topic p off limit) (Streamed a) s'"
| metadata: "metadata bf r names tick s = (a, s') \<Longrightarrow> broker_step bf r cf s (Get_Metadata names) (Described a) s'"
| sync_topic: "sync_topic (ring_owns bf r) name tick s = (a, s') \<Longrightarrow> broker_step bf r cf s (Sync_Topic name) (Synced a) s'"
| restart: "store_close s = (Inr (), s1) \<Longrightarrow>
    store_init (fst cf) (fst (snd cf)) (snd (snd cf)) (so_allow (fst s)) = Inr so \<Longrightarrow>
    store_open (ring_owns bf r) tick (so, snd s1) = (a, s') \<Longrightarrow> broker_step bf r cf s Restart (Started a) s'"
| power_cut: "root_cut (snd s) rt \<Longrightarrow>
    store_init (fst cf) (fst (snd cf)) (snd (snd cf)) (so_allow (fst s)) = Inr so \<Longrightarrow>
    store_open (ring_owns bf r) tick (so, rt) = (a, s') \<Longrightarrow> broker_step bf r cf s Power_Cut (Started a) s'"

inductive_cases broker_stepE:
  "broker_step bf r cf s (Create_Topic name k) a s'" "broker_step bf r cf s (Produce_One rq now_ns) a s'"
  "broker_step bf r cf s (Consume_From topic p off limit) a s'" "broker_step bf r cf s (Get_Metadata names) a s'"
  "broker_step bf r cf s (Sync_Topic name) a s'" "broker_step bf r cf s Restart a s'" "broker_step bf r cf s Power_Cut a s'"

section \<open>The abstraction\<close>

definition implements ::
  "'a broker_of \<Rightarrow> 'a ring_scheme \<Rightarrow> int \<times> sync_policy \<times> int \<Rightarrow> service \<Rightarrow> store_state \<Rightarrow> bool" where
  "implements bf r cf v s \<longleftrightarrow> in_ring bf r \<and> store_sound (ring_owns bf r) cf (service_contents v) (sv_safe v) s
     \<and> metas (snd s) = service_metas v \<and> (\<forall>n k. sv_counts v n = Some k \<longrightarrow> is_valid_name n \<and> 1 \<le> k)
     \<and> sv_default v = fst cf \<and> sv_policy v = fst (snd cf) \<and> 1 \<le> fst cf"

lemma implementsD:
  assumes "implements bf r cf v s"
  shows "in_ring bf r" "store_sound (ring_owns bf r) cf (service_contents v) (sv_safe v) s"
    "store_ok (ring_owns bf r) (service_contents v) s" "metas (snd s) = service_metas v"
    "sv_counts v n = Some k \<Longrightarrow> is_valid_name n \<and> 1 \<le> k"
    "sv_default v = fst cf" "sv_policy v = fst (snd cf)" "1 \<le> fst cf"
  using assms store_soundD(1) [of "ring_owns bf r" cf "service_contents v" "sv_safe v" s] by (auto simp: implements_def)

lemma service_metas_simps [simp]:
  "service_metas v n = Some (Inr k) \<longleftrightarrow> sv_counts v n = Some k" "service_metas v n \<noteq> Some (Inl e)"
  "service_metas v n = None \<longleftrightarrow> sv_counts v n = None"
  by (auto simp: service_metas_def)

lemma service_fields [simp]:
  "sv_default (all_safe v) = sv_default v" "sv_policy (all_safe v) = sv_policy v" "sv_counts (all_safe v) = sv_counts v"
  "sv_default (truncated M v) = sv_default v" "sv_policy (truncated M v) = sv_policy v"
  "sv_counts (truncated M v) = sv_counts v" "sv_safe (truncated M v) = M"
  "sv_default (with_topic name n v) = sv_default v" "sv_policy (with_topic name n v) = sv_policy v"
  "sv_counts (with_topic name n v) = (sv_counts v)(name := Some n)" "sv_log (with_topic name n v) = sv_log v"
  "sv_safe (with_topic name n v) = sv_safe v"
  by (simp_all add: service_updates)

lemma service_contents_simps [simp]:
  "service_contents (with_topic name n v) = service_contents v"
  "service_contents (with_record name p x k v) = put_contents name p (0, sv_log v name p @ [x]) (service_contents v)"
  "service_contents (all_safe v) = service_contents v" "service_contents (topic_safe name n v) = service_contents v"
  by (auto simp: service_contents_def service_updates put_contents_def fun_eq_iff)

lemma service_metas_updates [simp]:
  "service_metas (with_topic name n v) = (service_metas v)(name := Some (Inr n))"
  "service_metas (with_record name p x k v) = service_metas v" "service_metas (all_safe v) = service_metas v"
  "service_metas (topic_safe name n v) = service_metas v" "service_metas (truncated M v) = service_metas v"
  by (auto simp: service_metas_def service_updates)

lemma implements_keeps:
  "implements bf r cf v s \<Longrightarrow> store_sound (ring_owns bf r) cf (service_contents v) (sv_safe v) s' \<Longrightarrow>
    metas (snd s') = metas (snd s) \<Longrightarrow> implements bf r cf v s'"
  by (simp add: implements_def)

text \<open>The names it lists are the topics there are.\<close>

lemma listed_names:
  assumes "implements bf r cf v s"
  shows "store_names s = sorted_list_of_set (dom (sv_counts v))"
proof -
  note I = implementsD [OF assms]
  note t = store_soundD(3) [OF I(2)]
  have "distinct (map fst (snd s))" using t by (simp add: tame_def)
  then have "distinct (store_names s)" "sorted (store_names s)"
    by (simp_all add: store_names_def topic_names_def distinct_topic_names)
  moreover have "set (store_names s) = dom (sv_counts v)"
  proof (intro set_eqI iffI)
    fix n assume "n \<in> set (store_names s)"
    with topic_names_meta [of n "snd s"] have "metas (snd s) n \<noteq> None" by (simp add: store_names_def)
    then show "n \<in> dom (sv_counts v)" by (simp add: I(4) dom_def)
  next
    fix n assume "n \<in> dom (sv_counts v)"
    then obtain k where k: "sv_counts v n = Some k" by blast
    then have m: "metas (snd s) n = Some (Inr k)" by (simp add: I(4))
    then obtain e where e: "map_of (snd s) n = Some e"
      by (auto simp: metas_def topic_at_def no_topic_def split: option.splits)
    moreover have "e \<noteq> Plain_File" using tame_no_file [OF t] e by auto
    ultimately show "n \<in> set (store_names s)" using I(5) [OF k] m
      by (cases e) (force simp: store_names_def topic_names_def meta_is_file_metas dest: map_of_SomeD)+
  qed
  ultimately show ?thesis by (metis sorted_list_of_set.idem_if_sorted_distinct)
qed

text \<open>A topic there is now.\<close>

lemma implements_create:
  assumes i: "implements bf r cf v s" and name: "is_valid_name name" and k: "\<forall>j. k = Some j \<longrightarrow> 1 \<le> j"
    and run: "store_create (ring_owns bf r) name k tick s = (res, s1)"
  shows "res = Inr (count_for v name k) \<and> implements bf r cf (with_topic name (count_for v name k) v) s1
    \<and> 1 \<le> count_for v name k"
proof -
  note I = implementsD [OF i]
  have n: "count_for v name k = (case metas (snd s) name of Some (Inr n) \<Rightarrow> n
      | _ \<Rightarrow> (case k of Some j \<Rightarrow> j | None \<Rightarrow> fst cf))"
    by (auto simp: count_for_def I(4,6) service_metas_def split: option.split)
  have "k \<noteq> Some 0" using k by auto
  from store_create_found [OF I(2) name _ run this n] I(4) have
    c: "res = Inr (count_for v name k)" "store_sound (ring_owns bf r) cf (service_contents v) (sv_safe v) s1"
    "metas (snd s1) = (metas (snd s))(name := Some (Inr (count_for v name k)))" by auto
  have pos: "1 \<le> count_for v name k" using I(5,6,8) k by (auto simp: count_for_def split: option.split)
  with c name show ?thesis using i by (auto simp: implements_def)
qed

section \<open>The simulation\<close>

lemma create_topic_simulated:
  assumes i: "implements bf r cf v s" and run: "create_topic (ring_owns bf r) name k tick s = (a, s')"
  shows "\<exists>v'. service_step bf r v (Create_Topic name k) (Created a) v' \<and> implements bf r cf v' s'"
proof -
  consider j where "k = Some j" "j < 1" | "\<forall>j. k = Some j \<longrightarrow> 1 \<le> j" "\<not> is_valid_name name"
    | "\<forall>j. k = Some j \<longrightarrow> 1 \<le> j" "is_valid_name name" by (cases k) force+
  then show ?thesis
  proof cases
    case 1
    with run have "a = Inl Http_422" "s' = s" by (simp_all add: create_topic_def)
    with i 1 service_step.create_bad_count show ?thesis by blast
  next
    case 2
    then have "validate_name name = Inl ValueError"
      by (auto simp: is_valid_name_def validate_name_def split: if_split_asm)
    then have "store_create (ring_owns bf r) name k tick s = (Inl ValueError, s)"
      by (simp add: store_create_def in_topics_def topic_create_def)
    with run 2 have "a = Inl Http_400" "s' = s" by (auto simp: create_topic_def split: option.splits)
    with i service_step.create_bad_name [OF 2(2,1)] show ?thesis by blast
  next
    case 3
    obtain res s1 where c: "store_create (ring_owns bf r) name k tick s = (res, s1)" by (meson surj_pair)
    note n = implements_create [OF i 3(2,1) c]
    then have "a = Inr (name, count_for v name k)" "s' = s1"
      using run c 3(1) by (auto simp: create_topic_def split: option.splits)
    with n service_step.create [OF 3(2,1) refl] show ?thesis by blast
  qed
qed

lemma consume_simulated:
  assumes i: "implements bf r cf v s" and run: "consume bf r (bounded_request topic p off limit) tick s = Some (a, s')"
  shows "service_step bf r v (Consume_From topic p off limit) (Streamed a) v \<and> implements bf r cf v s'"
proof -
  let ?rq = "bounded_request topic p off limit"
  note I = implementsD [OF i]
  have "\<not> cq_follow ?rq" by (simp add: bounded_request_def)
  from consume_outcomes [OF I(3) this, of tick] run have
    k: "a = get_answer bf r v ?rq" "metas (snd s') = metas (snd s)"
    by (auto simp: get_answer_def I(4) from_offset_def service_contents_def split: option.splits)
  have "store_sound (ring_owns bf r) cf (service_contents v) (sv_safe v) s'"
    using consume_loop_sound [OF run [unfolded consume_def]] I(2) by simp
  with k implements_keeps [OF i] service_step.get show ?thesis by metis
qed

lemma metadata_simulated:
  assumes i: "implements bf r cf v s" and run: "metadata bf r names tick s = (a, s')"
  shows "service_step bf r v (Get_Metadata names) (Described a) v \<and> implements bf r cf v s'"
proof -
  note I = implementsD [OF i]
  let ?names = "if names \<noteq> [] then names else store_names s"
  obtain ds s1 where d: "describe_topics bf r (names \<noteq> []) ?names tick s = (ds, s1)" by (meson surj_pair)
  from describe_topics_described [OF I(3) refl d] have
    k: "metas (snd s1) = metas (snd s)" "ds = described bf r (names \<noteq> []) (service_metas v) ?names"
    by (simp_all add: I(4))
  have "store_sound (ring_owns bf r) cf (service_contents v) (sv_safe v) s1" by (rule describe_topics_sound [OF d I(2)])
  from implements_keeps [OF i this k(1)] have "implements bf r cf v s1" .
  moreover have "s' = s1" "a = metadata_answer bf r v names"
    using run d k(2) listed_names [OF i] by (auto simp: metadata_def metadata_answer_def split: sum.splits)
  ultimately show ?thesis using service_step.describe by metis
qed

lemma sync_topic_simulated:
  assumes i: "implements bf r cf v s" and run: "sync_topic (ring_owns bf r) name tick s = (a, s')"
  shows "\<exists>v'. service_step bf r v (Sync_Topic name) (Synced a) v' \<and> implements bf r cf v' s'"
proof -
  note I = implementsD [OF i]
  show ?thesis
  proof (cases "is_valid_name name \<and> sv_counts v name \<noteq> None")
    case False
    obtain c s1 where c: "store_partitions_of (ring_owns bf r) name tick s = (c, s1)" by (meson surj_pair)
    from store_partitions_of_decides [OF I(3) c] False have
      k: "metas (snd s1) = metas (snd s)" "c = Inl (topic_error name (metas (snd s)))"
      by (auto simp: I(4) topic_error_def split: option.splits sum.splits)
    have te: "topic_error name (metas (snd s)) = (if is_valid_name name then UnknownTopic else ValueError)"
      using False by (auto simp: topic_error_def I(4) service_metas_def)
    have "a = sync_answer bf r v name" "\<exists>e. a = Inl e" "s' = s1"
      using run c k(2) False unfolding te
      by (auto simp: sync_topic_def all_logs_def thread_answer_def sync_answer_def)
    with implements_keeps [OF i store_partitions_of_sound [OF I(2) c] k(1)] service_step.sync_refused show ?thesis
      by metis
  next
    case True
    then obtain n where n: "is_valid_name name" "sv_counts v name = Some n" by blast
    then have meta: "metas (snd s) name = Some (Inr n)" by (simp add: I(4))
    have own: "ring_owns bf r name p \<longleftrightarrow> bf r name p = Inr (rg_me r)" for p by (rule ring_owns_iff)
    obtain c s1 where c: "store_partitions_of (ring_owns bf r) name tick s = (c, s1)" by (meson surj_pair)
    obtain l s2 where l: "all_logs (ring_owns bf r) name tick s = (l, s2)" by (meson surj_pair)
    note k = all_logs_decides [OF I(3) n(1) meta l]
    have s1: "store_sound (ring_owns bf r) cf (service_contents v) (sv_safe v) s1"
      by (rule store_partitions_of_sound [OF I(2) c])
    have s2: "store_sound (ring_owns bf r) cf (service_contents v) (sv_safe v) s2"
      using l c s1 by (auto simp: all_logs_def split: sum.splits dest: get_logs_sound)
    then have i2: "implements bf r cf v s2" using implements_keeps [OF i] k by blast
    show ?thesis
    proof (cases "\<forall>p \<in> {0 ..< n}. ring_owns bf r name p")
      case False
      then have "a = Inl (Uncaught PartitionNotLocal)" "s' = s2" using k run l by (auto simp: sync_topic_def)
      moreover have "sync_answer bf r v name = Inl (Uncaught PartitionNotLocal)"
        using n False by (auto simp: sync_answer_def own)
      ultimately show ?thesis using i2 service_step.sync_refused by blast
    next
      case True
      then obtain lgs where lgs: "l = Inr lgs" "distinct (map fst lgs)" "fst ` set lgs = {0 ..< n}"
        "\<forall>p \<in> {0 ..< n}. open_entry (so_topics (fst s2), snd s2) name p \<noteq> None" using k by auto
      have sync: "sync_logs name lgs s2 = (a, s')" using run l lgs(1) by (simp add: sync_topic_def)
      have "\<forall>p \<in> fst ` set lgs. open_entry (so_topics (fst s2), snd s2) name p \<noteq> None" using lgs(3,4) by simp
      note s' = sync_logs_sound [OF s2 this lgs(2) sync] and ok = sync_logs_ok [OF store_soundD(1) [OF s2] lgs(2) this]
      then have a: "a = Inr ()" "metas (snd s') = metas (snd s2)" using sync by auto
      have "sv_safe (topic_safe name n v)
        = (sv_safe v)(name := \<lambda>p. if p \<in> fst ` set lgs then length (snd (service_contents v name p)) else sv_safe v name p)"
        unfolding lgs(3) topic_safe_def service_contents_def by (simp cong: if_cong)
      with s' have "store_sound (ring_owns bf r) cf (service_contents (topic_safe name n v)) (sv_safe (topic_safe name n v)) s'"
        by simp
      then have "implements bf r cf (topic_safe name n v) s'"
        using i2 a(2) by (simp add: implements_def) (simp add: topic_safe_def)
      moreover have "sync_answer bf r v name = Inr ()" using n True by (simp add: sync_answer_def own)
      moreover have "n = count_for v name None" using n by (simp add: count_for_def)
      ultimately show ?thesis using a(1) service_step.sync by blast
    qed
  qed
qed

lemma produce_simulated:
  assumes i: "implements bf r cf v s" and run: "produce bf r rq now_ns tick s = (a, s')"
  shows "\<exists>v'. service_step bf r v (Produce_One rq now_ns) (Produced a) v' \<and> implements bf r cf v' s'"
proof (cases "is_valid_name (pq_topic rq)")
  case False
  then have "validate_name (pq_topic rq) = Inl ValueError"
    by (auto simp: is_valid_name_def validate_name_def split: if_split_asm)
  then have "store_append (ring_owns bf r) (pq_topic rq) key val ts part now_ns tick s = (Inl ValueError, s)"
    for key val ts part by (simp add: store_append_def store_write_def in_topics_def topic_append_def)
  then have "a = Inl (Invalid_Argument ValueError)" "s' = s"
    using run by (auto simp: produce_def handler_append_def)
  with i service_step.put_bad_name [OF False] show ?thesis by blast
next
  case name: True
  let ?t = "pq_topic rq" and ?n = "count_for v (pq_topic rq) None"
  let ?v = "with_topic ?t ?n v"
  obtain res s1 where c: "store_create (ring_owns bf r) ?t None tick s = (res, s1)" by (meson surj_pair)
  from implements_create [OF i name _ c] have
    k: "res = Inr ?n" "implements bf r cf ?v s1" "1 \<le> ?n" by auto
  note I = implementsD [OF k(2)]
  have run1: "produce bf r rq now_ns tick s1 = (a, s')" using run produce_creates [of bf r rq tick s ?n s1] c k(1) by simp
  have meta: "metas (snd s1) ?t = Some (Inr ?n)" by (simp add: I(4))
  let ?p = "destination (so_topics (fst s1)) ?n (pq_key rq) (pq_partition rq)"

  have rec: "put_at v rq ?p now_ns = stamped (fst (service_contents ?v ?t ?p) + int (length (snd (service_contents ?v ?t ?p))))
      (pq_key rq) (pq_value rq) (pq_timestamp rq) now_ns"
    by (simp add: put_at_def service_contents_def)
  note out = produce_outcomes [OF I(1,3) name meta k(3) run1 refl refl rec]
  note snd = produce_sound [OF I(2) name meta k(3) run1]
  have there: "goes_to ?n rq ?p" using k(3) by (auto simp: goes_to_def destination_def split: option.split)
  have metas: "metas (snd s') = metas (snd s1)" using out by blast
  have stays: "implements bf r cf ?v s'" if "a = Inl e" for e
    using implements_keeps [OF k(2) _ metas] snd that by simp
  consider (range) "\<not> (0 \<le> ?p \<and> ?p < ?n)"
    | (elsewhere) "0 \<le> ?p" "?p < ?n" "bf r ?t ?p \<noteq> Inr (rg_me r)"
    | (large) e where "0 \<le> ?p" "?p < ?n" "bf r ?t ?p = Inr (rg_me r)" "encode (put_at v rq ?p now_ns) = Inl e"
    | (fits) "0 \<le> ?p" "?p < ?n" "bf r ?t ?p = Inr (rg_me r)" "encodable (put_at v rq ?p now_ns)"
    using out by (auto simp: not_le split: if_split_asm)
  then show ?thesis
  proof cases
    case range
    then have "a = Inl (Invalid_Argument ValueError)" using out by simp
    with stays service_step.put_no_partition [OF name refl there range] show ?thesis by blast
  next
    case elsewhere
    then obtain q where q: "a = Inl (redirect_to bf r ?t q)" "0 \<le> q" "q < ?n"
      "pq_partition rq \<noteq> None \<or> pq_key rq \<noteq> None \<longrightarrow> q = ?p" using out by auto
    then have "goes_to ?n rq q" using there by (auto simp: goes_to_def split: option.splits)
    note service_step.put_elsewhere [where bf = bf and r = r and v = v and now_ns = now_ns, OF name refl there elsewhere this q(2,3)]
    with stays [OF q(1)] q(1) show ?thesis by blast
  next
    case large
    then have "\<not> encodable (put_at v rq ?p now_ns)" by (auto dest: encode_encodable)
    with large have "a = Inl (if is_value_error e then Invalid_Argument e else Unknown e)"
      using out by (auto split: if_split_asm)
    moreover note service_step.put_too_large [where bf = bf and r = r and v = v and now_ns = now_ns, OF name refl there large]
    ultimately show ?thesis using stays by blast
  next
    case fits
    then have a: "a = Inr \<lparr>pr_partition = ?p, pr_offset = int (length (sv_log v ?t ?p)), pr_correlation = pq_correlation rq\<rparr>"
      using out by (simp add: service_contents_def)
    with snd obtain kk where kk: "kk = sv_safe v ?t ?p \<and> sv_policy v \<noteq> SYNC_EVERY_RECORD \<or> kk = Suc (length (sv_log v ?t ?p))"
      "store_sound (ring_owns bf r) cf (put_contents ?t ?p (0, sv_log v ?t ?p @ [put_at v rq ?p now_ns]) (service_contents ?v))
        ((sv_safe v)(?t := (sv_safe v ?t)(?p := kk))) s'"
      using I(7) by (auto simp: service_contents_def put_at_def)
    let ?v' = "with_record ?t ?p (put_at v rq ?p now_ns) kk ?v"
    have "implements bf r cf ?v' s'"
      using k(2) kk(2) metas by (simp add: implements_def) (simp add: with_record_def)
    moreover note service_step.put [where bf = bf and r = r and v = v and now_ns = now_ns, OF name refl there fits kk(1)]
    ultimately show ?thesis using a by blast
  qed
qed

text \<open>A new store on what a data root holds.\<close>

lemma new_store_implements:
  assumes new: "store_init (fst cf) (fst (snd cf)) (snd (snd cf)) allow = Inr so"
    and s: "sound (ring_owns bf r) cf (service_contents v) (sv_safe v) (so_topics so, rt)"
    and m: "metas rt = service_metas v" "in_ring bf r" "\<forall>n k. sv_counts v n = Some k \<longrightarrow> is_valid_name n \<and> 1 \<le> k"
      "sv_default v = fst cf" "sv_policy v = fst (snd cf)"
    and op: "store_open (ring_owns bf r) tick (so, rt) = (a, s')"
  shows "a = Inr () \<and> implements bf r cf v s'"
proof -
  obtain tp where tp: "topics_init (fst cf) (fst (snd cf)) (snd (snd cf)) = Inr tp"
    "so = \<lparr>so_topics = tp, so_tail = tail_init, so_ready = False, so_allow = allow, so_orphans = []\<rparr>"
    using new by (cases "topics_init (fst cf) (fst (snd cf)) (snd (snd cf))") (auto simp: store_init_def)
  have st: "store_sound (ring_owns bf r) cf (service_contents v) (sv_safe v) (so, rt)"
    using s tp(2) tail_ok_init by (simp add: store_sound_def)
  have "\<forall>name e. metas (snd (so, rt)) name \<noteq> Some (Inl e)" by (simp add: m(1))
  from store_open_succeeds [OF st this op] have a: "a = Inr ()" .
  have fresh: "\<not> so_ready (fst (so, rt))" "distinct (map fst (snd (so, rt)))"
    using tp(2) store_soundD(3) [OF st] by (simp_all add: tame_def)
  from store_open_decides [OF store_soundD(1) [OF st] fresh op] have "metas (snd s') = metas rt" by simp
  moreover have "1 \<le> fst cf" using tp(1) by (auto simp: topics_init_def split: if_split_asm)
  ultimately show ?thesis using a store_open_sound [OF st op] m by (simp add: implements_def)
qed

lemma restart_simulated:
  assumes i: "implements bf r cf v s" and close: "store_close s = (Inr (), s1)"
    and new: "store_init (fst cf) (fst (snd cf)) (snd (snd cf)) allow = Inr so"
    and op: "store_open (ring_owns bf r) tick (so, snd s1) = (a, s')"
  shows "service_step bf r v Restart (Started a) (all_safe v) \<and> implements bf r cf (all_safe v) s'"
proof -
  note I = implementsD [OF i]
  obtain tp where tp: "topics_init (fst cf) (fst (snd cf)) (snd (snd cf)) = Inr tp" "so_topics so = tp"
    using new by (cases "topics_init (fst cf) (fst (snd cf)) (snd (snd cf))") (auto simp: store_init_def)
  note c = store_close_sound [OF I(2) close, of "ring_owns bf r"]
  have s1: "sound (ring_owns bf r) cf (service_contents v) (\<lambda>n p. length (snd (service_contents v n p))) (so_topics (fst s1), snd s1)"
    using store_soundD(2) [OF c] by simp
  have metas: "metas (snd s1) = metas (snd s)" and none: "tp_open (so_topics (fst s1)) = []"
    using store_close_ok [OF I(3) close, of "ring_owns bf r"] by blast+
  have disk: "on_disk (service_contents v n p) (part_dir n p (snd s1)) \<and> all_synced (part_dir n p (snd s1))" for n p
  proof
    show "on_disk (service_contents v n p) (part_dir n p (snd s1))"
      using topics_ok_on_disk [OF soundD(1) [OF s1]] by simp
    have "open_entry (so_topics (fst s1), snd s1) n p = None" by (simp add: open_entry_def none)
    from kept_closed [OF soundD(2) [OF s1] this] show "all_synced (part_dir n p (snd s1))" by simp
  qed
  have mx: "0 < snd (snd cf)" "snd (snd cf) \<le> MAX_U32 + 1"
    using soundD(1,4) [OF s1] by (auto simp: topics_ok_def settings_def)
  have "sound (ring_owns bf r) cf (service_contents v) (\<lambda>n p. length (snd (service_contents v n p))) (tp, snd s1)"
    by (rule fresh_sound [OF tp(1) mx _ store_soundD(3) [OF c]]) (use disk in blast)
  moreover have "sv_safe (all_safe v) = (\<lambda>n p. length (snd (service_contents v n p)))"
    by (simp add: all_safe_def service_contents_def)
  moreover have "metas (snd s1) = service_metas (all_safe v)" using metas I(4) by simp
  ultimately have "a = Inr () \<and> implements bf r cf (all_safe v) s'"
    using I(1,5-7) tp(2) op by (intro new_store_implements [OF new]) simp_all
  with service_step.restart show ?thesis by metis
qed

lemma power_cut_simulated:
  assumes i: "implements bf r cf v s" and cut: "root_cut (snd s) rt"
    and new: "store_init (fst cf) (fst (snd cf)) (snd (snd cf)) allow = Inr so"
    and op: "store_open (ring_owns bf r) tick (so, rt) = (a, s')"
  shows "\<exists>v'. service_step bf r v Power_Cut (Started a) v' \<and> implements bf r cf v' s'"
proof -
  note I = implementsD [OF i]
  obtain tp where tp: "topics_init (fst cf) (fst (snd cf)) (snd (snd cf)) = Inr tp" "so_topics so = tp"
    using new by (cases "topics_init (fst cf) (fst (snd cf)) (snd (snd cf))") (auto simp: store_init_def)
  have cut': "root_cut (snd (so_topics (fst s), snd s)) rt" using cut by simp
  from sound_cut [OF store_soundD(2) [OF I(2)] cut' tp(1), of "ring_owns bf r"] obtain M where
    M: "\<forall>n p. sv_safe v n p \<le> M n p \<and> M n p \<le> length (sv_log v n p)"
      "sound (ring_owns bf r) cf (\<lambda>n p. (0, take (M n p) (sv_log v n p))) M (tp, rt)"
    by (auto simp: service_contents_def)
  have "service_contents (truncated M v) = (\<lambda>n p. (0, take (M n p) (sv_log v n p)))"
    by (simp add: service_contents_def truncated_def)
  moreover have "metas rt = service_metas (truncated M v)" using root_cut_metas [OF cut] I(4) by simp
  ultimately have "a = Inr () \<and> implements bf r cf (truncated M v) s'"
    using I(1,5-7) tp(2) op M(2) by (intro new_store_implements [OF new]) simp_all
  with service_step.power_cut [OF M(1)] show ?thesis by metis
qed

lemma broker_answers:
  assumes i: "implements bf r cf v s"
  shows "\<exists>a s'. broker_step bf r cf s x a s'"
proof -
  note I = implementsD [OF i]
  obtain so where new: "store_init (fst cf) (fst (snd cf)) (snd (snd cf)) (so_allow (fst s)) = Inr so"
    using I(8) by (auto simp: store_init_def topics_init_def)
  show ?thesis
  proof (cases x)
    case (Consume_From topic p off limit)
    have "\<not> cq_follow (bounded_request topic p off limit)" by (simp add: bounded_request_def)
    from consume_outcomes [OF I(3) this] Consume_From show ?thesis by (blast intro: broker_step.consume)
  next
    case Restart
    obtain res s1 where c: "store_close s = (res, s1)" by (meson surj_pair)
    with store_close_ok [OF I(3) c] have "store_close s = (Inr (), s1)" by simp
    moreover obtain a s' where "store_open (ring_owns bf r) 0 (so, snd s1) = (a, s')" by (meson surj_pair)
    ultimately show ?thesis unfolding Restart using new broker_step.restart by blast
  next
    case Power_Cut
    obtain rt where "root_cut (snd s) rt" using root_cut_exists [OF store_soundD(2) [OF I(2)]] by auto
    moreover obtain a s' where "store_open (ring_owns bf r) 0 (so, rt) = (a, s')" by (meson surj_pair)
    ultimately show ?thesis unfolding Power_Cut using new broker_step.power_cut by blast
  qed (meson surj_pair broker_step.create_topic broker_step.produce broker_step.metadata broker_step.sync_topic)+
qed

interpretation broker: simulation "broker_step bf r cf" "service_step bf r" "implements bf r cf" for bf r cf
proof
  fix v s x a s' assume i: "implements bf r cf v s" and step: "broker_step bf r cf s x a s'"
  from step show "\<exists>v'. service_step bf r v x a v' \<and> implements bf r cf v' s'"
  proof cases
    case (create_topic name k tick a1)
    show ?thesis unfolding create_topic(1,2) by (rule create_topic_simulated [OF i create_topic(3)])
  next
    case (produce rq now_ns tick a1)
    show ?thesis unfolding produce(1,2) by (rule produce_simulated [OF i produce(3)])
  next
    case (consume topic p off limit tick a1)
    show ?thesis unfolding consume(1,2) using consume_simulated [OF i consume(3)] by blast
  next
    case (metadata names tick a1)
    show ?thesis unfolding metadata(1,2) using metadata_simulated [OF i metadata(3)] by blast
  next
    case (sync_topic name tick a1)
    show ?thesis unfolding sync_topic(1,2) by (rule sync_topic_simulated [OF i sync_topic(3)])
  next
    case (restart s1 so tick a1)
    show ?thesis unfolding restart(1,2) using restart_simulated [OF i restart(3-5)] by blast
  next
    case (power_cut rt so tick a1)
    show ?thesis unfolding power_cut(1,2) by (rule power_cut_simulated [OF i power_cut(3-5)])
  qed
qed (rule broker_answers)

text \<open>The first start, on an empty data root.\<close>

lemma started_implements:
  assumes "in_ring bf r" "store_init k pol mx allow = Inr so" "0 < mx" "mx \<le> MAX_U32 + 1"
    and "store_open (ring_owns bf r) tick (so, []) = (res, s)"
  shows "res = Inr () \<and> implements bf r (k, pol, mx) (empty_service k pol) s"
proof -
  obtain tp where tp: "topics_init k pol mx = Inr tp" "so_topics so = tp"
    using assms(2) by (cases "topics_init k pol mx") (auto simp: store_init_def)
  have root: "on_disk (service_contents (empty_service k pol) n p) (part_dir n p []) \<and> all_synced (part_dir n p [])" for n p
    by (simp add: service_contents_def empty_service_def part_dir_def topic_at_def no_topic_def all_synced_Nil on_disk_Nil)
  have "sound (ring_owns bf r) (k, pol, mx) (service_contents (empty_service k pol))
      (\<lambda>n p. length (snd (service_contents (empty_service k pol) n p))) (tp, [])"
    by (rule fresh_sound) (use tp assms(3,4) root in \<open>simp_all add: tame_def\<close>)
  then have "sound (ring_owns bf r) (k, pol, mx) (service_contents (empty_service k pol))
      (sv_safe (empty_service k pol)) (so_topics so, [])"
    by (simp add: service_contents_def empty_service_def tp(2))
  moreover have "metas [] = service_metas (empty_service k pol)"
    by (simp add: fun_eq_iff service_metas_def empty_service_def)
  moreover have "store_init (fst (k, pol, mx)) (fst (snd (k, pol, mx))) (snd (snd (k, pol, mx))) allow = Inr so"
    using assms(2) by simp
  ultimately show ?thesis using assms(1,5)
    by (intro new_store_implements) (simp_all add: empty_service_def)
qed

text \<open>What a broker started on an empty root has answered, the service could have.\<close>

lemma broker_history:
  assumes "in_ring bf r" "store_init k pol mx allow = Inr so" "0 < mx" "mx \<le> MAX_U32 + 1"
    and "store_open (ring_owns bf r) tick (so, []) = (res, s0)" "steps (broker_step bf r (k, pol, mx)) s0 h s"
  obtains v where "steps (service_step bf r) (empty_service k pol) h v" "implements bf r (k, pol, mx) v s"
  using broker.runs_simulated [OF assms(6)] started_implements [OF assms(1-5)] by blast

section \<open>Properties\<close>



section \<open>A concrete run\<close>

text \<open>Broker 0 of two starts, takes a record for partition 0 of topic \<open>a\<close>, loses power and is asked for it.\<close>

lemma sample_store_init: "store_init 1 SYNC_EVERY_RECORD 1024 False = Inr sample_store"
  by (simp add: store_init_def sample_init)

lemma sample_broker_start:
  "\<exists>s. store_open (ring_owns ring_broker_for (two_brokers 0)) 0 (sample_store, []) = (Inr (), s)
    \<and> implements ring_broker_for (two_brokers 0) (1, SYNC_EVERY_RECORD, 1024) (empty_service 1 SYNC_EVERY_RECORD) s"
proof -
  obtain res s where o: "store_open (ring_owns ring_broker_for (two_brokers 0)) 0 (sample_store, []) = (res, s)" by (meson surj_pair)
  from started_implements [OF two_brokers_in_ring sample_store_init _ _ o] show ?thesis using o by (simp add: MAX_U32_def)
qed

lemma sample_broker_takes:
  "\<exists>s0 s1. store_open (ring_owns ring_broker_for (two_brokers 0)) 0 (sample_store, []) = (Inr (), s0)
    \<and> broker_step ring_broker_for (two_brokers 0) (1, SYNC_EVERY_RECORD, 1024) s0 (Produce_One (sample_request 0) 0)
        (Produced (Inr \<lparr>pr_partition = 0, pr_offset = 0, pr_correlation = Some 7\<rparr>)) s1
    \<and> (\<exists>v. implements ring_broker_for (two_brokers 0) (1, SYNC_EVERY_RECORD, 1024) v s1)"
proof -
  let ?bf = ring_broker_for and ?r = "two_brokers 0" and ?v = "empty_service 1 SYNC_EVERY_RECORD"
  obtain s0 where s0: "store_open (ring_owns ?bf ?r) 0 (sample_store, []) = (Inr (), s0)"
    "implements ?bf ?r (1, SYNC_EVERY_RECORD, 1024) ?v s0" using sample_broker_start by blast
  obtain a s1 where p: "broker_step ?bf ?r (1, SYNC_EVERY_RECORD, 1024) s0 (Produce_One (sample_request 0) 0) a s1"
    using broker_answers [OF s0(2)] by blast
  from broker.simulated [OF s0(2) p] obtain v where
    v: "service_step ?bf ?r ?v (Produce_One (sample_request 0) 0) a v" "implements ?bf ?r (1, SYNC_EVERY_RECORD, 1024) v s1" by blast
  have "put_at ?v (sample_request 0) 0 0 = sample_stamped" by (simp add: put_at_def empty_service_def)
  then have enc: "encodable (put_at ?v (sample_request 0) 0 0)" using sample_encodable by simp
  have g: "goes_to n (sample_request 0) p \<longleftrightarrow> p = 0" for n p by (simp add: goes_to_def)
  from v(1) have "a = Produced (Inr \<lparr>pr_partition = 0, pr_offset = 0, pr_correlation = Some 7\<rparr>)"
  proof cases
    case (put_too_large n p e)
    with g encode_encodable [OF enc] show ?thesis by auto
  next
    case (put n p k)
    with g show ?thesis by (auto simp: empty_service_def)
  qed (use name_a g in \<open>auto simp: count_for_def empty_service_def ring_broker_for_def\<close>)
  with s0(1) p v(2) show ?thesis by blast
qed



end
