(* ===== verification/Wire_Types.thy ===== *)
theory Wire_Types
  imports Broker_Refinement
begin

text \<open>
  The types of \<open>proto/pyka/v1/broker.proto\<close>: the handler puts Python integers into \<open>int32\<close> and \<open>int64\<close>
  fields, which protobuf refuses when they do not fit. They do.
\<close>

section \<open>Types\<close>

definition record_fits :: "proto_record \<Rightarrow> bool" where
  "record_fits x \<longleftrightarrow> in_i64 (po_offset x) \<and> in_i64 (po_timestamp x)"

fun error_fits :: "rpc_error \<Rightarrow> bool" where
  "error_fits (Failed_Precondition p owner addr) \<longleftrightarrow> in_i32 p \<and> in_i32 owner"
| "error_fits e \<longleftrightarrow> True"

definition produced_fits :: "produce_response \<Rightarrow> bool" where
  "produced_fits x \<longleftrightarrow> in_i32 (pr_partition x) \<and> in_i64 (pr_offset x)
     \<and> (\<forall>c. pr_correlation x = Some c \<longrightarrow> in_i64 c)"

definition metadata_fits :: "metadata_response \<Rightarrow> bool" where
  "metadata_fits m \<longleftrightarrow> in_i32 (mr_broker_count m) \<and> in_i32 (mr_broker_id m)
     \<and> (\<forall>(name, es) \<in> set (mr_topics m). \<forall>(p, broker, addr) \<in> set es. in_i32 p \<and> in_i32 broker)"

fun response_fits :: "response \<Rightarrow> bool" where
  "response_fits (Produced (Inr x)) \<longleftrightarrow> produced_fits x"
| "response_fits (Produced (Inl e)) \<longleftrightarrow> error_fits e"
| "response_fits (Streamed (xs, err)) \<longleftrightarrow> (\<forall>x \<in> set xs. record_fits x)"
| "response_fits (Described (Inr m)) \<longleftrightarrow> metadata_fits m"
| "response_fits a \<longleftrightarrow> True"

text \<open>What protobuf guarantees of a request, and a number of partitions whose numbers are \<open>int32\<close>.\<close>

fun request_fits :: "operation \<Rightarrow> bool" where
  "request_fits (Produce_One rq now_ns) \<longleftrightarrow> (\<forall>c. pq_correlation rq = Some c \<longrightarrow> in_i64 c)"
| "request_fits (Create_Topic name k) \<longleftrightarrow> (\<forall>j. k = Some j \<longrightarrow> j \<le> 2147483648)"
| "request_fits x \<longleftrightarrow> True"

section \<open>Preservation\<close>

definition service_fits :: "service \<Rightarrow> bool" where
  "service_fits v \<longleftrightarrow> sv_default v \<le> 2147483648 \<and> (\<forall>n k. sv_counts v n = Some k \<longrightarrow> k \<le> 2147483648)
     \<and> (\<forall>n p. sequential 0 (sv_log v n p))"

definition ring_fits :: "'a broker_of \<Rightarrow> 'a ring_scheme \<Rightarrow> bool" where
  "ring_fits bf r \<longleftrightarrow> in_ring bf r \<and> 0 \<le> rg_me r \<and> rg_me r < rg_brokers r \<and> rg_brokers r < 2147483648"

lemma count_fits: "service_fits v \<Longrightarrow> \<forall>j. k = Some j \<longrightarrow> j \<le> 2147483648 \<Longrightarrow> count_for v name k \<le> 2147483648"
  by (auto simp: service_fits_def count_for_def split: option.split)

lemma in_range_i32 [intro]: "0 \<le> p \<Longrightarrow> p < n \<Longrightarrow> n \<le> 2147483648 \<Longrightarrow> in_i32 p"
  by (simp add: in_i32_def)

lemma owner_fits: "ring_fits bf r \<Longrightarrow> 0 \<le> p \<Longrightarrow> bf r name p = Inr owner \<Longrightarrow> in_i32 owner"
proof -
  assume r: "ring_fits bf r" and p: "0 \<le> p" and owner: "bf r name p = Inr owner"
  from r p obtain b where "bf r name p = Inr b" "0 \<le> b" "b < rg_brokers r" unfolding ring_fits_def in_ring_def by blast
  with r owner show ?thesis by (simp add: ring_fits_def in_i32_def)
qed

lemma with_topic_fits: "service_fits v \<Longrightarrow> n \<le> 2147483648 \<Longrightarrow> service_fits (with_topic name n v)"
  by (auto simp: service_fits_def)

lemma redirect_fits: "ring_fits bf r \<Longrightarrow> 0 \<le> q \<Longrightarrow> q < n \<Longrightarrow> n \<le> 2147483648 \<Longrightarrow> error_fits (redirect_to bf r name q)"
  by (auto simp: redirect_to_def intro: owner_fits split: sum.split)

lemma streamed_fits:
  assumes "service_fits v"
  shows "response_fits (Streamed (get_answer bf r v rq))"
proof -
  have "record_fits (to_proto x)" if "x \<in> set (batch_of n (drop k (sv_log v t p)))" for x n k t p
  proof -
    have "x \<in> set (sv_log v t p)" using that by (auto simp: batch_of_def dest: in_set_takeD in_set_dropD split: if_split_asm)
    moreover have "sequential 0 (sv_log v t p)" using assms by (simp add: service_fits_def)
    ultimately have "encodable x" by (simp add: sequential_encodable)
    then show ?thesis by (simp add: record_fits_def encodable_def)
  qed
  then show ?thesis by (auto simp: get_answer_def split: option.split)
qed

lemma described_fits:
  assumes "ring_fits bf r" "service_fits v"
  shows "response_fits (Described (metadata_answer bf r v names))"
proof -
  have "in_i32 p \<and> in_i32 broker"
    if ds: "described bf r asked (service_metas v) ns = Inr ts" and es: "(name, es) \<in> set ts" and x: "(p, broker, addr) \<in> set es"
    for asked ns ts name es p broker addr
  proof -
    from described_sound [OF ds es] x obtain k where
      k: "sv_counts v name = Some k" "map fst es = [0 .. k - 1]" "bf r name p = Inr broker" by fastforce
    have "p \<in> fst ` set es" using x by force
    then have "p \<in> set [0 .. k - 1]" unfolding k(2) [symmetric] by simp
    then have "0 \<le> p" "p < k" by simp_all
    moreover have "k \<le> 2147483648" using assms(2) k(1) by (simp add: service_fits_def)
    ultimately show ?thesis using owner_fits [OF assms(1) _ k(3)] by blast
  qed
  moreover have "in_i32 (rg_brokers r)" "in_i32 (rg_me r)" using assms(1) by (auto simp: ring_fits_def in_i32_def)
  ultimately show ?thesis by (auto simp: metadata_answer_def metadata_fits_def split: sum.split)
qed

lemma service_step_fits:
  assumes "ring_fits bf r"
  shows "service_step bf r v x a v' \<Longrightarrow> service_fits v \<Longrightarrow> request_fits x \<Longrightarrow> service_fits v' \<and> response_fits a"
proof (induction rule: service_step.induct)
  case (create name k n v)
  then show ?case using count_fits with_topic_fits by simp
next
  case (put_no_partition rq n v p now_ns)
  then show ?case using count_fits [of v None] with_topic_fits by simp
next
  case (put_elsewhere rq n v p q now_ns)
  then show ?case using count_fits [of v None] with_topic_fits redirect_fits [OF assms] by simp
next
  case (put_too_large rq n v p now_ns e)
  then show ?case using count_fits [of v None] with_topic_fits by simp
next
  case (put rq n v p now_ns k)
  have n: "n \<le> 2147483648" using count_fits [of v None] put.prems(1) by (simp add: put.hyps(2))
  let ?l = "sv_log v (pq_topic rq) p"
  have "sequential 0 (?l @ [put_at v rq p now_ns])"
    using put.prems(1) put.hyps(7) by (simp add: service_fits_def) (simp add: put_at_def stamped_def)
  then have "service_fits (with_record (pq_topic rq) p (put_at v rq p now_ns) k (with_topic (pq_topic rq) n v))"
    using with_topic_fits [OF put.prems(1) n] by (simp add: service_fits_def with_record_def)
  moreover have "in_i64 (int (length ?l))" using put.hyps(7) by (simp add: encodable_def put_at_def stamped_def)
  ultimately show ?case using put.hyps(4,5) put.prems(2) n by (auto simp: produced_fits_def)
next
  case (power_cut v M)
  then show ?case by (auto simp: service_fits_def truncated_def sequential_take)
next
  case (describe v names)
  then show ?case using described_fits [OF assms] by simp
next
  case (get v topic p off limit)
  then show ?case using streamed_fits by simp
qed (simp_all add: service_fits_def all_safe_def topic_safe_def)

lemma service_run_fits:
  assumes "ring_fits bf r"
  shows "steps (service_step bf r) v h v' \<Longrightarrow> service_fits v \<Longrightarrow> \<forall>(x, a) \<in> set h. request_fits x \<Longrightarrow>
    \<forall>(x, a) \<in> set h. response_fits a"
proof (induction rule: steps.induct)
  case (more v x a v1 h v2)
  with service_step_fits [OF assms more.hyps(1)] show ?case by simp
qed simp

section \<open>Property\<close>

text \<open>
  Property C24. Type safety of the wire: in every run of a broker, with requests that protobuf delivers and
  no topic created with more than 2^31 partitions, every number in every answer (partitions, offsets,
  timestamps, correlation ids, owners, the broker's own number) fits the \<open>int32\<close> or \<open>int64\<close> field of
  \<open>broker.proto\<close> it is put into, so that building an answer never raises.
\<close>

theorem answers_fit_the_wire:
  assumes "ring_fits bf r" and "store_init k pol mx allow = Inr so" and "0 < mx" and "mx \<le> MAX_U32 + 1"
    and "store_open (ring_owns bf r) tick (so, []) = (res, s0)" and "steps (broker_step bf r (k, pol, mx)) s0 h s"
    and "k \<le> 2147483648" and "\<forall>(x, a) \<in> set h. request_fits x"
  shows "\<forall>(x, a) \<in> set h. response_fits a"
proof -
  have "in_ring bf r" using assms(1) by (simp add: ring_fits_def)
  from broker_history [OF this assms(2-6)] obtain v where v: "steps (service_step bf r) (empty_service k pol) h v" by blast
  have "service_fits (empty_service k pol)" using assms(7) by (simp add: service_fits_def empty_service_def)
  from service_run_fits [OF assms(1) v this assms(8)] show ?thesis .
qed

theorem answers_fit_the_wire_witness:
  "\<exists>s0 s. store_open (ring_owns ring_broker_for (two_brokers 0)) 0 (sample_store, []) = (Inr (), s0)
    \<and> steps (broker_step ring_broker_for (two_brokers 0) (1, SYNC_EVERY_RECORD, 1024)) s0
      [(Produce_One (sample_request 0) 0, Produced (Inr \<lparr>pr_partition = 0, pr_offset = 0, pr_correlation = Some 7\<rparr>))] s
    \<and> response_fits (Produced (Inr \<lparr>pr_partition = 0, pr_offset = 0, pr_correlation = Some 7\<rparr>))"
proof -
  let ?step = "broker_step ring_broker_for (two_brokers 0) (1, SYNC_EVERY_RECORD, 1024)"
  let ?a = "Produced (Inr \<lparr>pr_partition = 0, pr_offset = 0, pr_correlation = Some 7\<rparr>)"
  from sample_broker_takes obtain s0 s1 where
    s: "store_open (ring_owns ring_broker_for (two_brokers 0)) 0 (sample_store, []) = (Inr (), s0)"
      "?step s0 (Produce_One (sample_request 0) 0) ?a s1" by auto
  have run: "steps ?step s0 [(Produce_One (sample_request 0) 0, ?a)] s1"
    by (rule steps.more [where step = ?step, OF s(2) steps.none])
  have "ring_fits ring_broker_for (two_brokers 0)" using two_brokers_in_ring by (simp add: ring_fits_def)
  from answers_fit_the_wire [OF this sample_store_init _ _ s(1) run] have "response_fits ?a"
    by (simp add: MAX_U32_def in_i64_def)
  with s(1) run show ?thesis by blast
qed

end
