(* ===== verification/Serve.thy ===== *)
theory Serve
  imports Durability Startup
begin

text \<open>
  \<open>serve\<close> of \<open>cli/broker.py\<close>: the whole process, from the environment to its end. What binding the ports
  comes to is an argument; so are the signal (what comes after it is a function of its own) and what the
  requests in between do.
\<close>

section \<open>The environment\<close>

text \<open>Which texts \<open>float\<close> takes.\<close>

definition lower_char :: "char \<Rightarrow> char" where
  "lower_char c = (let n = of_char c :: nat in if 65 \<le> n \<and> n \<le> 90 then char_of (n + 32) else c)"

definition digit_text :: "string \<Rightarrow> bool" where
  "digit_text s \<longleftrightarrow> digits_value 0 False s \<noteq> None"

definition drop_sign :: "string \<Rightarrow> string" where
  "drop_sign s = (case s of [] \<Rightarrow> [] | c # cs \<Rightarrow> if c = CHR ''+'' \<or> c = CHR ''-'' then cs else s)"

definition decimal_text :: "string \<Rightarrow> bool" where
  "decimal_text s \<longleftrightarrow>
     (let is_e = (\<lambda>c. c = CHR ''e'' \<or> c = CHR ''E'');
          mantissa = takeWhile (\<lambda>c. \<not> is_e c) s; expo = dropWhile (\<lambda>c. \<not> is_e c) s;
          whole = takeWhile (\<lambda>c. c \<noteq> CHR ''.'') mantissa; frac = dropWhile (\<lambda>c. c \<noteq> CHR ''.'') mantissa
      in (case expo of [] \<Rightarrow> True | e # ds \<Rightarrow> digit_text (drop_sign ds))
       \<and> (case frac of
            [] \<Rightarrow> digit_text whole
          | dot # ds \<Rightarrow> (whole = [] \<or> digit_text whole) \<and> (ds = [] \<or> digit_text ds) \<and> (whole \<noteq> [] \<or> ds \<noteq> [])))"

definition float_text :: "string \<Rightarrow> bool" where
  "float_text s \<longleftrightarrow>
     (let t = drop_sign (strip s)
      in map lower_char t \<in> {''inf'', ''infinity'', ''nan''} \<or> decimal_text t)"

definition DEFAULT_PORT :: int where "DEFAULT_PORT = 9092"

definition DEFAULT_ADMIN_PORT :: int where "DEFAULT_ADMIN_PORT = 8080"

definition port_from :: "(string \<times> string) list \<Rightarrow> string \<Rightarrow> int \<Rightarrow> int result" where
  "port_from env name dflt = (case map_of env name of None \<Rightarrow> Inr dflt | Some v \<Rightarrow> parse_int v)"

text \<open>\<open>float(os.environ.get("PYKA_GRACE", DEFAULT_GRACE))\<close>, as far as whether it raises.\<close>

definition grace_from :: "(string \<times> string) list \<Rightarrow> unit result" where
  "grace_from env =
     (case map_of env ''PYKA_GRACE'' of
        None \<Rightarrow> Inr ()
      | Some v \<Rightarrow> if float_text v then Inr () else Inl ValueError)"

section \<open>Coming up\<close>

text \<open>What the admin server does first: it binds, it fails, or it ends without failing.\<close>

datatype admin_start = Admin_Bound | Admin_Failed py_error | Admin_Exited

fun ring_predicate :: "any_ring \<Rightarrow> string \<Rightarrow> int \<Rightarrow> bool" where
  "ring_predicate (Modulo_Ring r) = ring_owns ring_broker_for r"
| "ring_predicate (Circle_Ring r) = ring_owns hash_broker_for r"

text \<open>Up to the wait for a signal: the process, or why there is none, and the data root.\<close>

definition serve_up ::
  "(string \<times> string) list \<Rightarrow> string \<Rightarrow> mkdir_result \<Rightarrow> unit result \<Rightarrow> admin_start \<Rightarrow> rat \<Rightarrow> root
    \<Rightarrow> (exit_reason + any_ring \<times> process) \<times> root" where
  "serve_up env host made bound admin tick rt =
     (case store_from_env env host made of
        Inl x \<Rightarrow> (Inl x, rt)
      | Inr (r, so) \<Rightarrow>
          (case bind_result (port_from env ''PYKA_PORT'' DEFAULT_PORT) (\<lambda>port. bind_result bound (\<lambda>u.
                port_from env ''PYKA_ADMIN_PORT'' DEFAULT_ADMIN_PORT)) of
             Inl e \<Rightarrow> (Inl (Raised e), rt)
           | Inr admin_port \<Rightarrow>
               (case admin of
                  Admin_Failed e \<Rightarrow> (Inl (Raised e), rt)
                | Admin_Exited \<Rightarrow> (Inl (Raised RuntimeError), rt)
                | Admin_Bound \<Rightarrow>
                    (case startup (ring_predicate r) tick \<lparr>ps_store = (so, rt), ps_health = []\<rparr> of
                       (Inl e, ps) \<Rightarrow> (Inl (Raised e), snd (ps_store ps))
                     | (Inr u, ps) \<Rightarrow> (Inr (r, ps), snd (ps_store ps))))))"

text \<open>From the signal on.\<close>

definition serve_down :: "(string \<times> string) list \<Rightarrow> process \<Rightarrow> unit result \<times> process" where
  "serve_down env ps =
     (let ps1 = begin_shutdown ps
      in case grace_from env of
           Inl e \<Rightarrow> (Inl e, ps1)
         | Inr u \<Rightarrow> end_shutdown ps1)"

section \<open>Properties\<close>

lemma store_from_env_init:
  assumes "store_from_env env host made = Inr (r, so)"
  shows "made = Made \<and> ring_from_env env host = Inr r
    \<and> (\<exists>k pol mx. store_init k pol mx (map_of env ''PYKA_ALLOW_ORPHANS'' = Some ''1'') = Inr so \<and> tp_max (so_topics so) = mx)"
proof -
  have made: "made = Made" "ring_from_env env host = Inr r" "configure_store env = Inr so"
    using assms by (auto simp: store_from_env_def split: sum.splits mkdir_result.splits)
  then obtain k pol mx where "store_init k pol mx (map_of env ''PYKA_ALLOW_ORPHANS'' = Some ''1'') = Inr so"
    by (fastforce simp: configure_store_def)
  moreover from this have "tp_max (so_topics so) = mx" by (auto simp: store_init_def topics_init_def split: if_split_asm)
  ultimately show ?thesis using made by blast
qed

text \<open>
  The data root is touched only once the configuration is read, both ports are bound and the admin server
  is up; then health and readiness say the same.
\<close>

lemma serve_up_decides:
  assumes up: "serve_up env host made bound admin tick rt = (res, rt')"
    and disk: "\<forall>n p. on_disk (C n p) (part_dir n p rt)" "distinct (map fst rt)"
    and mx: "\<And>r so. store_from_env env host made = Inr (r, so) \<Longrightarrow> 0 < tp_max (so_topics so) \<and> tp_max (so_topics so) \<le> MAX_U32 + 1"
  shows "(rt' = rt \<or> made = Made \<and> bound = Inr () \<and> admin = Admin_Bound)
    \<and> (\<forall>r ps. res = Inr (r, ps) \<longrightarrow> ring_from_env env host = Inr r \<and> store_ok (ring_predicate r) C (ps_store ps)
        \<and> snd (ps_store ps) = rt' \<and> reports (so_ready (fst (ps_store ps))) ps)"
proof (cases "\<exists>r so port. store_from_env env host made = Inr (r, so)
    \<and> bind_result (port_from env ''PYKA_PORT'' DEFAULT_PORT) (\<lambda>port. bind_result bound (\<lambda>u.
                port_from env ''PYKA_ADMIN_PORT'' DEFAULT_ADMIN_PORT)) = Inr port \<and> admin = Admin_Bound")
  case False
  then have "(\<exists>x. res = Inl x) \<and> rt' = rt"
    using up by (auto simp: serve_up_def split: sum.splits admin_start.splits)
  then show ?thesis by auto
next
  case True
  then obtain r so where c: "store_from_env env host made = Inr (r, so)" "bound = Inr ()" "admin = Admin_Bound" by auto
  let ?ps0 = "\<lparr>ps_store = (so, rt), ps_health = []\<rparr>"
  obtain res1 ps where s: "startup (ring_predicate r) tick ?ps0 = (res1, ps)" by (meson surj_pair)
  have res: "res = (case res1 of Inl e \<Rightarrow> Inl (Raised e) | Inr u \<Rightarrow> Inr (r, ps))" "rt' = snd (ps_store ps)"
    using up True c(1) s by (auto simp: serve_up_def split: sum.splits)
  from store_from_env_init [OF c(1)] obtain k pol mx where
    i: "made = Made" "ring_from_env env host = Inr r" "store_init k pol mx (map_of env ''PYKA_ALLOW_ORPHANS'' = Some ''1'') = Inr so"
      "tp_max (so_topics so) = mx" by blast
  from i(3) obtain tp where tp: "topics_init k pol mx = Inr tp" "so_topics so = tp" "\<not> so_ready so" "so_tail so = tail_init"
    by (cases "topics_init k pol mx") (auto simp: store_init_def)
  have "topics_ok (ring_predicate r) C (tp, rt)"
    using fresh_topics_ok(1) [OF tp(1)] mx [OF c(1)] i(4) disk(1) by blast
  then have ok: "store_ok (ring_predicate r) C (so, rt)" using tp by (simp add: store_ok_def)
  obtain res2 s2 where o: "store_open (ring_predicate r) tick (so, rt) = (res2, s2)" by (meson surj_pair)
  have "store_ok (ring_predicate r) C s2"
    using store_open_decides [OF ok _ _ o] tp(3) disk(2) by simp
  moreover have "ps_store ps = s2" "res1 = Inr () \<longrightarrow> reports (so_ready (fst s2)) ps"
    using s o by (auto simp: startup_def Let_def server_start_def split: sum.splits)
  ultimately show ?thesis using res i c by (auto split: sum.splits)
qed

text \<open>
  Property C25. What the signal leads to depends on \<open>PYKA_GRACE\<close>, which nothing has read before. If it is
  not set or is a number, the process ends without an error and every byte it holds is synced, whatever
  the sync policy was. If it is any other text, reading it raises after the live tails are released: the
  server is not stopped and the store not closed, so the files are as they were, nothing more is synced,
  and the topics are still open.
\<close>

theorem shutdown_decided:
  assumes "store_sound own cf C K (ps_store ps)" and "serve_down env ps = (res, ps')"
  shows "if grace_from env = Inr () then
      res = Inr () \<and> store_ok own C (ps_store ps') \<and> (\<forall>n p. all_synced (part_dir n p (snd (ps_store ps'))))
    else res = Inl ValueError \<and> snd (ps_store ps') = snd (ps_store ps)
      \<and> so_topics (fst (ps_store ps')) = so_topics (fst (ps_store ps))"
proof (cases "grace_from env = Inr ()")
  case True
  let ?s = "((fst (ps_store ps))\<lparr>so_tail := tail_close (so_tail (fst (ps_store ps)))\<rparr>, snd (ps_store ps))"
  have s: "store_sound own cf C K ?s" using assms(1) tail_ok_close by (auto simp: store_sound_def)
  obtain r s2 where c: "store_close ?s = (r, s2)" by (meson surj_pair)
  note k = store_close_ok [OF store_soundD(1) [OF s] c, of own]
  have "ps_store (begin_shutdown ps) = ?s" by (simp add: begin_shutdown_def Let_def)
  then have "res = r" "ps_store ps' = s2"
    using assms(2) True c by (auto simp: serve_down_def end_shutdown_def server_stop_def Let_def)
  moreover have "all_synced (part_dir n p (snd s2))" for n p
  proof -
    have "open_entry (so_topics (fst s2), snd s2) n p = None" using k by (simp add: open_entry_def)
    moreover have "kept_ok C (\<lambda>n p. length (snd (C n p))) (so_topics (fst s2), snd s2)"
      using store_soundD(2) [OF store_close_sound [OF s c, of own]] soundD(2) by blast
    ultimately show ?thesis using kept_closed by fastforce
  qed
  ultimately show ?thesis using True k by auto
next
  case False
  then have "grace_from env = Inl ValueError" by (auto simp: grace_from_def split: option.splits if_split_asm)
  then show ?thesis using assms(2) by (auto simp: serve_down_def begin_shutdown_def Let_def)
qed

text \<open>\<open>30\<close> is a number, \<open>30s\<close> is not.\<close>

theorem shutdown_decided_witness:
  "\<exists>s ps1 ps2. serve_down [(''PYKA_GRACE'', ''30'')] \<lparr>ps_store = s, ps_health = []\<rparr> = (Inr (), ps1)
    \<and> (\<forall>n p. all_synced (part_dir n p (snd (ps_store ps1))))
    \<and> serve_down [(''PYKA_GRACE'', ''30s'')] \<lparr>ps_store = s, ps_health = []\<rparr> = (Inl ValueError, ps2)
    \<and> so_topics (fst (ps_store ps2)) = so_topics (fst s)"
proof -
  let ?s = "(sample_store, [])"
  have "sound all_mine (1, SYNC_EVERY_RECORD, 1024) empty_contents (\<lambda>n p. length (snd (empty_contents n p))) (sample_topics, [])"
    by (rule fresh_sound) (simp_all add: sample_init MAX_U32_def tame_def empty_contents_def part_dir_def topic_at_def no_topic_def
        on_disk_Nil all_synced_Nil)
  then have s: "store_sound all_mine (1, SYNC_EVERY_RECORD, 1024) empty_contents (\<lambda>n p. length (snd (empty_contents n p)))
      (ps_store \<lparr>ps_store = ?s, ps_health = []\<rparr>)" by (simp add: store_sound_def)
  have g: "grace_from [(''PYKA_GRACE'', ''30'')] = Inr ()" "grace_from [(''PYKA_GRACE'', ''30s'')] \<noteq> Inr ()" by code_simp+
  obtain r1 ps1 where 1: "serve_down [(''PYKA_GRACE'', ''30'')] \<lparr>ps_store = ?s, ps_health = []\<rparr> = (r1, ps1)" by (meson surj_pair)
  obtain r2 ps2 where 2: "serve_down [(''PYKA_GRACE'', ''30s'')] \<lparr>ps_store = ?s, ps_health = []\<rparr> = (r2, ps2)" by (meson surj_pair)
  from shutdown_decided [OF s 1] shutdown_decided [OF s 2] g 1 2 show ?thesis
    by (intro exI [where x = ?s] exI [where x = ps1] exI [where x = ps2]) simp
qed

end
