(* ===== verification/Rest_Client.thy ===== *)
theory Rest_Client
  imports Admin_Api
begin

text \<open>
  The class \<open>Admin\<close> of \<open>client.py\<close>: the control plane from a client's side. HTTP is a function from a
  request to what \<open>urlopen\<close> makes of it; \<open>admin_app\<close> is the routing table of \<open>broker/admin.py\<close> behind it.
\<close>

section \<open>HTTP and JSON\<close>

datatype json =
    J_Null
  | J_Bool bool
  | J_Int int
  | J_Text string
  | J_List "json list"
  | J_Object "(string \<times> json) list"

record http_request =
  hr_url :: string
  hr_method :: string
  hr_body :: "json option"

text \<open>\<open>HTTPError\<close> with its status, any other \<open>OSError\<close>; else the body, if it is JSON.\<close>

datatype http_failure = Status int | Unreachable

type_synonym 'w http = "http_request \<Rightarrow> 'w \<Rightarrow> (http_failure + json option) \<times> 'w"

datatype rest_error = Rest_Pyka_Error | Rest_Value_Error | Rest_Key_Error | Rest_Type_Error

type_synonym 'a rest_outcome = "rest_error + 'a"

section \<open>The client\<close>

record rest =
  re_url :: string
  re_timeout :: rat

text \<open>\<open>url.rstrip("/")\<close>\<close>

definition rest_init :: "string \<Rightarrow> rat \<Rightarrow> rest" where
  "rest_init url timeout = \<lparr>re_url = rev (dropWhile (\<lambda>c. c = CHR ''/'') (rev url)), re_timeout = timeout\<rparr>"

definition rest_request :: "'w http \<Rightarrow> rest \<Rightarrow> string \<Rightarrow> string \<Rightarrow> json option \<Rightarrow> 'w \<Rightarrow> json rest_outcome \<times> 'w" where
  "rest_request http ad path meth body w =
     (case http \<lparr>hr_url = re_url ad @ path, hr_method = meth, hr_body = body\<rparr> w of
        (Inl (Status code), w1) \<Rightarrow> (Inl Rest_Pyka_Error, w1)
      | (Inl Unreachable, w1) \<Rightarrow> (Inl Rest_Pyka_Error, w1)
      | (Inr None, w1) \<Rightarrow> (Inl Rest_Value_Error, w1)
      | (Inr (Some j), w1) \<Rightarrow> (Inr j, w1))"

definition rest_create_topic :: "'w http \<Rightarrow> rest \<Rightarrow> string \<Rightarrow> int \<Rightarrow> 'w \<Rightarrow> json rest_outcome \<times> 'w" where
  "rest_create_topic http ad name partitions =
     rest_request http ad ''/topics'' ''POST'' (Some (J_Object [(''name'', J_Text name), (''partitions'', J_Int partitions)]))"

definition rest_topics :: "'w http \<Rightarrow> rest \<Rightarrow> 'w \<Rightarrow> json rest_outcome \<times> 'w" where
  "rest_topics http ad = rest_request http ad ''/topics'' ''GET'' None"

definition rest_describe :: "'w http \<Rightarrow> rest \<Rightarrow> string \<Rightarrow> 'w \<Rightarrow> json rest_outcome \<times> 'w" where
  "rest_describe http ad name = rest_request http ad (''/topics/'' @ name) ''GET'' None"

definition rest_partition_info :: "'w http \<Rightarrow> rest \<Rightarrow> string \<Rightarrow> int \<Rightarrow> 'w \<Rightarrow> json rest_outcome \<times> 'w" where
  "rest_partition_info http ad name p =
     rest_request http ad (''/topics/'' @ name @ ''/partitions/'' @ int_text p) ''GET'' None"

definition rest_broker :: "'w http \<Rightarrow> rest \<Rightarrow> 'w \<Rightarrow> json rest_outcome \<times> 'w" where
  "rest_broker http ad = rest_request http ad ''/'' ''GET'' None"

text \<open>\<open>bool(value)\<close> and \<open>value["ready"]\<close>.\<close>

fun truthy :: "json \<Rightarrow> bool" where
  "truthy J_Null \<longleftrightarrow> False"
| "truthy (J_Bool b) \<longleftrightarrow> b"
| "truthy (J_Int n) \<longleftrightarrow> n \<noteq> 0"
| "truthy (J_Text s) \<longleftrightarrow> s \<noteq> []"
| "truthy (J_List xs) \<longleftrightarrow> xs \<noteq> []"
| "truthy (J_Object ms) \<longleftrightarrow> ms \<noteq> []"

fun member :: "string \<Rightarrow> json \<Rightarrow> json rest_outcome" where
  "member k (J_Object ms) = (case map_of (rev ms) k of None \<Rightarrow> Inl Rest_Key_Error | Some v \<Rightarrow> Inr v)"
| "member k j = Inl Rest_Type_Error"

definition rest_ready :: "'w http \<Rightarrow> rest \<Rightarrow> 'w \<Rightarrow> bool rest_outcome \<times> 'w" where
  "rest_ready http ad w =
     (case rest_request http ad ''/readyz'' ''GET'' None w of
        (Inl e, w1) \<Rightarrow> (if e = Rest_Pyka_Error then Inr False else Inl e, w1)
      | (Inr j, w1) \<Rightarrow> ((case member ''ready'' j of Inl e \<Rightarrow> Inl e | Inr v \<Rightarrow> Inr (truthy v)), w1))"

section \<open>The routes\<close>

definition segment_json :: "segment_info \<Rightarrow> json" where
  "segment_json s =
     J_Object [(''base_offset'', J_Int (si_base s)), (''next_offset'', J_Int (si_next s)), (''size_bytes'', J_Int (int (si_size s))),
       (''index_entries'', J_Int (int (si_entries s))), (''sealed'', J_Bool (si_sealed s))]"

definition partition_json :: "partition_info \<Rightarrow> json" where
  "partition_json p =
     J_Object [(''partition'', J_Int (pi_partition p)), (''base_offset'', J_Int (pi_base p)), (''next_offset'', J_Int (pi_next p)),
       (''size_bytes'', J_Int (int (pi_size p))), (''segments'', J_List (map segment_json (pi_segments p)))]"

definition topic_json :: "string \<times> int \<Rightarrow> json" where
  "topic_json x = J_Object [(''name'', J_Text (fst x)), (''partitions'', J_Int (snd x))]"

definition broker_json :: "broker_info \<Rightarrow> json" where
  "broker_json b =
     J_Object [(''broker_id'', J_Int (bi_id b)), (''brokers'', J_Int (bi_brokers b)), (''ready'', J_Bool (bi_ready b)),
       (''topics'', J_Int (int (bi_topics b)))]"

fun status_of :: "http_error \<Rightarrow> int" where
  "status_of Http_400 = 400"
| "status_of Http_404 = 404"
| "status_of Http_422 = 422"
| "status_of (Uncaught e) = 500"

definition app_answer :: "('a \<Rightarrow> json) \<Rightarrow> 'a answer \<times> store_state \<Rightarrow> (http_failure + json option) \<times> store_state" where
  "app_answer enc x = (case x of (Inl e, s) \<Rightarrow> (Inl (Status (status_of e)), s) | (Inr y, s) \<Rightarrow> (Inr (Some (enc y)), s))"

text \<open>The body of \<open>POST /topics\<close>, as the schema takes it.\<close>

fun create_body :: "json option \<Rightarrow> (string \<times> int option) option" where
  "create_body (Some (J_Object ms)) =
     (case (map_of (rev ms) ''name'', map_of (rev ms) ''partitions'') of
        (Some (J_Text name), None) \<Rightarrow> Some (name, None)
      | (Some (J_Text name), Some J_Null) \<Rightarrow> Some (name, None)
      | (Some (J_Text name), Some (J_Int k)) \<Rightarrow> Some (name, Some k)
      | _ \<Rightarrow> None)"
| "create_body _ = None"

text \<open>The pieces of a path between slashes.\<close>

fun pieces :: "string \<Rightarrow> string list" where
  "pieces [] = [[]]"
| "pieces (c # cs) =
     (if c = CHR ''/'' then [] # pieces cs
      else (case pieces cs of [] \<Rightarrow> [[c]] | x # xs \<Rightarrow> (c # x) # xs))"

fun route_get :: "(string \<Rightarrow> int \<Rightarrow> bool) \<Rightarrow> 'a ring_scheme \<Rightarrow> string list \<Rightarrow> rat \<Rightarrow> store_state \<Rightarrow> (http_failure + json option) \<times> store_state" where
  "route_get own r [a, b] tick s =
     (if b = [] then (Inr (Some (broker_json (broker_info_of r s))), s)
      else if b = ''healthz'' then (Inr (Some (J_Object [(''status'', J_Text ''ok'')])), s)
      else if b = ''readyz'' then
        (case readyz s of (code, ready) \<Rightarrow>
           (if code = 200 then Inr (Some (J_Object [(''ready'', J_Bool ready)])) else Inl (Status code), s))
      else if b = ''topics'' then (Inr (Some (J_List (map J_Text (list_topics s)))), s)
      else (Inl (Status 404), s))"
| "route_get own r [a, b, name] tick s =
     (if b = ''topics'' \<and> name \<noteq> [] then app_answer topic_json (describe_topic own name tick s)
      else (Inl (Status 404), s))"
| "route_get own r [a, b, name, c, p] tick s =
     (if b = ''topics'' \<and> name \<noteq> [] \<and> c = ''partitions'' \<and> p \<noteq> [] then
        (case py_int p of
           None \<Rightarrow> (Inl (Status 422), s)
         | Some n \<Rightarrow> app_answer partition_json (describe_partition own name n tick s))
      else (Inl (Status 404), s))"
| "route_get own r _ tick s = (Inl (Status 404), s)"

fun route_post :: "(string \<Rightarrow> int \<Rightarrow> bool) \<Rightarrow> string list \<Rightarrow> json option \<Rightarrow> rat \<Rightarrow> store_state \<Rightarrow> (http_failure + json option) \<times> store_state" where
  "route_post own [a, b] body tick s =
     (if b = ''topics'' then
        (case create_body body of
           None \<Rightarrow> (Inl (Status 422), s)
         | Some (name, k) \<Rightarrow> app_answer topic_json (create_topic own name k tick s))
      else (Inl (Status 404), s))"
| "route_post own [a, b, name, c] body tick s =
     (if b = ''topics'' \<and> name \<noteq> [] \<and> c = ''sync'' then
        app_answer (\<lambda>u. J_Object [(''status'', J_Text ''synced'')]) (sync_topic own name tick s)
      else (Inl (Status 404), s))"
| "route_post own [a, b, name, c, p, d] body tick s =
     (if b = ''topics'' \<and> name \<noteq> [] \<and> c = ''partitions'' \<and> p \<noteq> [] \<and> d = ''roll'' then
        (case py_int p of
           None \<Rightarrow> (Inl (Status 422), s)
         | Some n \<Rightarrow> app_answer segment_json (roll_partition own name n tick s))
      else (Inl (Status 404), s))"
| "route_post own _ body tick s = (Inl (Status 404), s)"

definition admin_app :: "(string \<Rightarrow> int \<Rightarrow> bool) \<Rightarrow> 'a ring_scheme \<Rightarrow> string \<Rightarrow> rat \<Rightarrow> store_state http" where
  "admin_app own r base tick rq s =
     (if \<not> prefix base (hr_url rq) then (Inl Unreachable, s)
      else let path = pieces (drop (length base) (hr_url rq)) in
        if hr_method rq = ''GET'' then route_get own r path tick s
        else if hr_method rq = ''POST'' then route_post own path (hr_body rq) tick s
        else (Inl (Status 405), s))"

section \<open>The client before the broker\<close>

lemma pieces_append: "CHR ''/'' \<notin> set x \<Longrightarrow> pieces (x @ CHR ''/'' # y) = x # pieces y"
  by (induction x) auto

lemma pieces_last: "CHR ''/'' \<notin> set x \<Longrightarrow> pieces x = [x]"
  by (induction x) auto

lemma valid_name_no_slash: "is_valid_name name \<Longrightarrow> CHR ''/'' \<notin> set name \<and> name \<noteq> []"
  by (auto simp: is_valid_name_def validate_name_def allowed_char_def Let_def split: if_split_asm)

lemma int_text_no_slash: "CHR ''/'' \<notin> set (int_text p) \<and> int_text p \<noteq> []"
proof -
  have "CHR ''/'' \<notin> set (nat_text n)" for n
    using nat_text_digits [of n] by (auto simp: is_ascii_digit_def)
  then show ?thesis by (auto simp: int_text_def)
qed

definition outcome_of :: "('a \<Rightarrow> json) \<Rightarrow> 'a answer \<times> store_state \<Rightarrow> json rest_outcome \<times> store_state" where
  "outcome_of enc x = (case x of (Inl e, s) \<Rightarrow> (Inl Rest_Pyka_Error, s) | (Inr y, s) \<Rightarrow> (Inr (enc y), s))"

lemma rest_request_app:
  "rest_request (admin_app own r (re_url ad) tick) ad path meth body s =
     (case (if meth = ''GET'' then route_get own r (pieces path) tick s
            else if meth = ''POST'' then route_post own (pieces path) body tick s else (Inl (Status 405), s)) of
        (Inl e, s1) \<Rightarrow> (Inl Rest_Pyka_Error, s1)
      | (Inr None, s1) \<Rightarrow> (Inl Rest_Value_Error, s1)
      | (Inr (Some j), s1) \<Rightarrow> (Inr j, s1))"
  by (simp add: rest_request_def admin_app_def Let_def split: prod.split sum.split http_failure.split option.split)



end
