(* ===== verification/Demo.thy ===== *)
theory Demo
  imports Cluster_Run Rest_Client
begin

text \<open>
  \<open>scripts/demo.py\<close>: a client of its own, with a command per thing to see. What a command prints is a list
  of lines, each a constructor with the values it shows; floating point is exact here.
\<close>

section \<open>The cluster as the script sees it\<close>

text \<open>Besides the calls of the client library: \<open>Metadata\<close> for the number of brokers, and the REST API.\<close>

record 'w demo_net = "'w net" +
  dn_count :: "string \<Rightarrow> 'w \<Rightarrow> (grpc_code + int) \<times> 'w"
  dn_http :: "'w http"

datatype demo_error =
    Demo_Rpc grpc_code
  | Demo_Http http_failure
  | Demo_Value_Error
  | Demo_Key_Error
  | Demo_Index_Error
  | Demo_Type_Error

type_synonym 'a demo = "demo_error + 'a"

datatype demo_line =
    Created_On int json
  | Spread string int int
  | Placed_On int int
  | Held_By int "int list"
  | Totals int int
  | Layout_Row string int "int list list"
  | Sent_To string int int int
  | Bulk_Sent int int
  | Reading int int
  | Following string int int
  | Shown int "bytes option" "bytes option"
  | Asking int int int
  | Accepted
  | Refused grpc_code
  | Buffered int int int "int option list" rat
  | Gave_Up rat int
  | All_Delivered int rat
  | Chain int int int int
  | Chain_Segment int int int bool

definition demo_int :: "string \<Rightarrow> int demo" where
  "demo_int s = (case py_int s of None \<Rightarrow> Inl Demo_Value_Error | Some n \<Rightarrow> Inr n)"

text \<open>\<open>localhost:909{broker}\<close>, also for a broker that is \<open>None\<close>.\<close>

definition demo_address :: "int option \<Rightarrow> string" where
  "demo_address b = ''localhost:909'' @ (case b of None \<Rightarrow> ''None'' | Some n \<Rightarrow> int_text n)"

definition demo_admin :: "'w demo_net \<Rightarrow> int \<Rightarrow> string \<Rightarrow> string \<Rightarrow> json option \<Rightarrow> 'w \<Rightarrow> json demo \<times> 'w" where
  "demo_admin net b path meth body w =
     (case dn_http net \<lparr>hr_url = ''http://localhost:808'' @ int_text b @ path, hr_method = meth, hr_body = body\<rparr> w of
        (Inl x, w1) \<Rightarrow> (Inl (Demo_Http x), w1)
      | (Inr None, w1) \<Rightarrow> (Inl Demo_Value_Error, w1)
      | (Inr (Some j), w1) \<Rightarrow> (Inr j, w1))"

definition demo_count :: "'w demo_net \<Rightarrow> 'w \<Rightarrow> int demo \<times> 'w" where
  "demo_count net w =
     (case dn_count net (demo_address (Some 0)) w of
        (Inl code, w1) \<Rightarrow> (Inl (Demo_Rpc code), w1)
      | (Inr n, w1) \<Rightarrow> (Inr n, w1))"

type_synonym placing = "(int \<times> int) list"

definition demo_routing :: "'w demo_net \<Rightarrow> string \<Rightarrow> 'w \<Rightarrow> placing demo \<times> 'w" where
  "demo_routing net topic w =
     (case nt_metadata net (demo_address (Some 0)) [topic] w of
        (Inl code, w1) \<Rightarrow> (Inl (Demo_Rpc code), w1)
      | (Inr [], w1) \<Rightarrow> (Inl Demo_Index_Error, w1)
      | (Inr (t # ts), w1) \<Rightarrow> (Inr (fold (\<lambda>(p, b, a) rt. al_set p b rt) (snd t) []), w1))"

text \<open>Sequencing: \<open>f\<close> continues with the value; an exception ends the command after what was printed.\<close>

type_synonym 'w printed = "(demo_line list \<times> demo_error option) \<times> 'w"

definition demo_then :: "'a demo \<times> 'w \<Rightarrow> ('a \<Rightarrow> 'w \<Rightarrow> 'w printed) \<Rightarrow> 'w printed" where
  "demo_then x f = (case x of (Inl e, w) \<Rightarrow> (([], Some e), w) | (Inr a, w) \<Rightarrow> f a w)"

definition demo_print :: "demo_line list \<Rightarrow> 'w printed \<Rightarrow> 'w printed" where
  "demo_print ls x = (case x of ((rest, err), w) \<Rightarrow> ((ls @ rest, err), w))"

definition mine :: "placing \<Rightarrow> int \<Rightarrow> int list" where
  "mine rt b = sort (map fst (filter (\<lambda>(p, b'). b' = b) rt))"

section \<open>Looking\<close>

fun create_on :: "'w demo_net \<Rightarrow> string \<Rightarrow> string \<Rightarrow> int list \<Rightarrow> 'w \<Rightarrow> 'w printed" where
  "create_on net topic partitions [] w = (([], None), w)"
| "create_on net topic partitions (b # bs) w =
     demo_then (demo_int partitions, w) (\<lambda>k w.
       demo_then (demo_admin net b ''/topics'' ''POST'' (Some (J_Object [(''name'', J_Text topic), (''partitions'', J_Int k)])) w)
         (\<lambda>info w1. demo_print [Created_On b info] (create_on net topic partitions bs w1)))"

definition demo_create :: "'w demo_net \<Rightarrow> string \<Rightarrow> string \<Rightarrow> 'w \<Rightarrow> 'w printed" where
  "demo_create net topic partitions w =
     demo_then (demo_count net w) (\<lambda>n. create_on net topic partitions [0 .. n - 1])"

definition demo_map :: "'w demo_net \<Rightarrow> string \<Rightarrow> 'w \<Rightarrow> 'w printed" where
  "demo_map net topic w =
     demo_then (demo_routing net topic w) (\<lambda>rt w1.
       demo_then (demo_count net w1) (\<lambda>n w2.
         ((Spread topic (int (length rt)) n # map (\<lambda>(p, b). Placed_On p b) (sort_key fst rt)
            @ map (\<lambda>b. Held_By b (mine rt b)) [0 .. n - 1], None), w2)))"

text \<open>
  What iterating over an answer gives \<open>names.update\<close>. An element that is not a string is a \<open>TypeError\<close> here; in
  the script it is one too, at the latest when the names are sorted or sent.
\<close>

fun json_names :: "json \<Rightarrow> string list demo" where
  "json_names (J_List js) =
     (case those (map (\<lambda>j. case j of J_Text s \<Rightarrow> Some s | _ \<Rightarrow> None) js) of
        None \<Rightarrow> Inl Demo_Type_Error
      | Some names \<Rightarrow> Inr names)"
| "json_names (J_Text s) = Inr (map (\<lambda>c. [c]) s)"
| "json_names (J_Object ms) = Inr (map fst ms)"
| "json_names _ = Inl Demo_Type_Error"

fun topics_of :: "'w demo_net \<Rightarrow> int list \<Rightarrow> 'w \<Rightarrow> string list demo \<times> 'w" where
  "topics_of net [] w = (Inr [], w)"
| "topics_of net (b # bs) w =
     (case demo_admin net b ''/topics'' ''GET'' None w of
        (Inl e, w1) \<Rightarrow> (Inl e, w1)
      | (Inr j, w1) \<Rightarrow>
          (case json_names j of
             Inl e \<Rightarrow> (Inl e, w1)
           | Inr xs \<Rightarrow>
               (case topics_of net bs w1 of
                  (Inl e, w2) \<Rightarrow> (Inl e, w2)
                | (Inr names, w2) \<Rightarrow> (Inr (xs @ names), w2))))"

fun layout_rows :: "'w demo_net \<Rightarrow> int \<Rightarrow> string list \<Rightarrow> 'w \<Rightarrow> 'w printed" where
  "layout_rows net n [] w = (([], None), w)"
| "layout_rows net n (name # names) w =
     demo_then (demo_routing net name w) (\<lambda>rt w1.
       demo_print [Layout_Row name (int (length rt)) (map (mine rt) [0 .. n - 1])] (layout_rows net n names w1))"

definition demo_layout :: "'w demo_net \<Rightarrow> 'w \<Rightarrow> 'w printed" where
  "demo_layout net w =
     demo_then (demo_count net w) (\<lambda>n w1.
       demo_then (topics_of net [0 .. n - 1] w1) (\<lambda>names w2.
         demo_print [Totals (int (length (remdups names))) n] (layout_rows net n (sort (remdups names)) w2)))"

definition routed :: "placing \<Rightarrow> int \<Rightarrow> int demo" where
  "routed rt p = (case map_of rt p of None \<Rightarrow> Inl Demo_Key_Error | Some b \<Rightarrow> Inr b)"

text \<open>One partition of the JSON of \<open>/topics/{name}/partitions/{partition}\<close>.\<close>

definition json_int :: "string \<Rightarrow> json \<Rightarrow> int demo" where
  "json_int k j = (case member k j of
       Inr (J_Int n) \<Rightarrow> Inr n
     | Inl Rest_Key_Error \<Rightarrow> Inl Demo_Key_Error
     | _ \<Rightarrow> Inl Demo_Type_Error)"

fun chain_segments :: "json list \<Rightarrow> 'w \<Rightarrow> 'w printed" where
  "chain_segments [] w = (([], None), w)"
| "chain_segments (j # js) w =
     demo_then (case member ''sealed'' j of Inr v \<Rightarrow> Inr (truthy v) | Inl Rest_Key_Error \<Rightarrow> Inl Demo_Key_Error | _ \<Rightarrow> Inl Demo_Type_Error, w)
       (\<lambda>sealed w. demo_then (json_int ''base_offset'' j, w) (\<lambda>base w.
         demo_then (json_int ''size_bytes'' j, w) (\<lambda>size_bytes w.
           demo_then (json_int ''index_entries'' j, w) (\<lambda>entries w.
             demo_print [Chain_Segment base size_bytes entries sealed] (chain_segments js w)))))"

definition demo_show :: "'w demo_net \<Rightarrow> string \<Rightarrow> string \<Rightarrow> 'w \<Rightarrow> 'w printed" where
  "demo_show net topic part w =
     demo_then (demo_int part, w) (\<lambda>p w.
       demo_then (demo_routing net topic w) (\<lambda>rt w.
         demo_then (routed rt p, w) (\<lambda>b w.
           demo_then (demo_admin net b (''/topics/'' @ topic @ ''/partitions/'' @ int_text p) ''GET'' None w) (\<lambda>info w.
             demo_then (json_int ''next_offset'' info, w) (\<lambda>nxt w.
               demo_then (json_int ''size_bytes'' info, w) (\<lambda>wanted w.
                 demo_print [Chain b p nxt wanted]
                   (case member ''segments'' info of
                      Inr (J_List js) \<Rightarrow> chain_segments js w
                    | Inl Rest_Key_Error \<Rightarrow> (([], Some Demo_Key_Error), w)
                    | _ \<Rightarrow> (([], Some Demo_Type_Error), w))))))))"

section \<open>Producing\<close>

definition demo_request :: "string \<Rightarrow> bytes option \<Rightarrow> bytes \<Rightarrow> int \<Rightarrow> produce_request" where
  "demo_request topic key val p =
     \<lparr>pq_topic = topic, pq_key = key, pq_value = Some val, pq_timestamp = None, pq_correlation = None, pq_partition = Some p\<rparr>"

text \<open>Every command makes its own \<open>Partitioner\<close>.\<close>

definition demo_partition :: "partitioner \<Rightarrow> bytes option \<Rightarrow> placing \<Rightarrow> int demo \<times> partitioner" where
  "demo_partition nxt key rt =
     (case partition_for nxt key (int (length rt)) of (Inl e, nxt1) \<Rightarrow> (Inl Demo_Value_Error, nxt1) | (Inr p, nxt1) \<Rightarrow> (Inr p, nxt1))"

definition demo_produce :: "'w demo_net \<Rightarrow> string \<Rightarrow> string \<Rightarrow> string \<Rightarrow> 'w \<Rightarrow> 'w printed" where
  "demo_produce net topic key val w =
     demo_then (demo_routing net topic w) (\<lambda>rt w.
       let key_bytes = (if key \<noteq> ''-'' then Some (utf8 key) else None) in
       demo_then (fst (demo_partition partitioner_init key_bytes rt), w) (\<lambda>p w.
         demo_then (routed rt p, w) (\<lambda>b w.
           (case nt_produce net (demo_address (Some b)) (demo_request topic key_bytes (utf8 val) p) w of
              (Inl code, w1) \<Rightarrow> (([], Some (Demo_Rpc code)), w1)
            | (Inr resp, w1) \<Rightarrow> (([Sent_To key (pr_partition resp) b (pr_offset resp)], None), w1)))))"

definition bulk_key :: "int \<Rightarrow> bytes" where
  "bulk_key n = utf8 (''user-'' @ int_text (n mod 50))"

definition bulk_value :: "int \<Rightarrow> bytes" where
  "bulk_value n = utf8 (''record '' @ zero_pad 5 (int_text n) @ '' '') @ replicate 180 120"

fun bulk_batches ::
  "string \<Rightarrow> placing \<Rightarrow> int list \<Rightarrow> partitioner \<Rightarrow> (int \<times> produce_request list) list \<Rightarrow> (int \<times> produce_request list) list demo" where
  "bulk_batches topic rt [] nxt gs = Inr gs"
| "bulk_batches topic rt (n # ns) nxt gs =
     (case demo_partition nxt (Some (bulk_key n)) rt of
        (Inl e, nxt1) \<Rightarrow> Inl e
      | (Inr p, nxt1) \<Rightarrow>
          (case routed rt p of
             Inl e \<Rightarrow> Inl e
           | Inr b \<Rightarrow>
               bulk_batches topic rt ns nxt1
                 (al_set b ((case map_of gs b of None \<Rightarrow> [] | Some xs \<Rightarrow> xs)
                    @ [demo_request topic (Some (bulk_key n)) (bulk_value n) p]) gs)))"

fun bulk_send :: "'w demo_net \<Rightarrow> (int \<times> produce_request list) list \<Rightarrow> 'w \<Rightarrow> 'w printed" where
  "bulk_send net [] w = (([], None), w)"
| "bulk_send net ((b, rqs) # gs) w =
     (case nt_stream net (demo_address (Some b)) rqs w of
        ((rs, Some code), w1) \<Rightarrow> (([], Some (Demo_Rpc code)), w1)
      | ((rs, None), w1) \<Rightarrow> demo_print [Bulk_Sent b (int (length rs))] (bulk_send net gs w1))"

definition demo_bulk :: "'w demo_net \<Rightarrow> string \<Rightarrow> string \<Rightarrow> 'w \<Rightarrow> 'w printed" where
  "demo_bulk net topic many w =
     demo_then (demo_routing net topic w) (\<lambda>rt w.
       demo_then (demo_int many, w) (\<lambda>n w.
         demo_then (bulk_batches topic rt [0 .. n - 1] partitioner_init [], w) (\<lambda>gs.
           bulk_send net (sort_key fst gs))))"

text \<open>Asking the broker after the owner.\<close>

definition demo_wrong :: "'w demo_net \<Rightarrow> string \<Rightarrow> string \<Rightarrow> 'w \<Rightarrow> 'w printed" where
  "demo_wrong net topic part w =
     demo_then (demo_int part, w) (\<lambda>p w.
       demo_then (demo_routing net topic w) (\<lambda>rt w.
         demo_then (routed rt p, w) (\<lambda>owner w.
           demo_then (demo_count net w) (\<lambda>n w.
             let victim = (owner + 1) mod n
             in demo_print [Asking p owner victim]
                  (case nt_produce net (demo_address (Some victim)) (demo_request topic (Some (utf8 ''k'')) (utf8 ''v'') p) w of
                     (Inr resp, w1) \<Rightarrow> (([Accepted], None), w1)
                   | (Inl code, w1) \<Rightarrow> (([Refused code], None), w1))))))"

section \<open>Consuming\<close>

text \<open>\<open>_print_record\<close> decodes the key strictly: one that is not UTF-8 makes it raise.\<close>

fun utf8_valid :: "bytes \<Rightarrow> bool" where
  "utf8_valid [] \<longleftrightarrow> True"
| "utf8_valid (a # bs) \<longleftrightarrow>
     (let tail = (\<lambda>b :: byte. 128 \<le> b \<and> b \<le> 191) in
      if a \<le> 127 then utf8_valid bs
      else if 194 \<le> a \<and> a \<le> 223 then (case bs of b # cs \<Rightarrow> tail b \<and> utf8_valid cs | _ \<Rightarrow> False)
      else if 224 \<le> a \<and> a \<le> 239 then
        (case bs of
           b # c # cs \<Rightarrow> tail b \<and> tail c \<and> (a = 224 \<longrightarrow> 160 \<le> b) \<and> (a = 237 \<longrightarrow> b \<le> 159) \<and> utf8_valid cs
         | _ \<Rightarrow> False)
      else if 240 \<le> a \<and> a \<le> 244 then
        (case bs of
           b # c # d # cs \<Rightarrow> tail b \<and> tail c \<and> tail d \<and> (a = 240 \<longrightarrow> 144 \<le> b) \<and> (a = 244 \<longrightarrow> b \<le> 143) \<and> utf8_valid cs
         | _ \<Rightarrow> False)
      else False)"

definition shown_record :: "proto_record \<Rightarrow> demo_line demo" where
  "shown_record r =
     (if has_field (po_key r) \<and> \<not> utf8_valid (field_value [] (po_key r)) then Inl Demo_Value_Error
      else Inr (Shown (po_offset r) (po_key r) (po_value r)))"

fun shown_records :: "proto_record list \<Rightarrow> demo_line list \<times> demo_error option" where
  "shown_records [] = ([], None)"
| "shown_records (r # rs) =
     (case shown_record r of
        Inl e \<Rightarrow> ([], Some e)
      | Inr l \<Rightarrow> (case shown_records rs of (ls, err) \<Rightarrow> (l # ls, err)))"

definition demo_stream :: "'w demo_net \<Rightarrow> int \<Rightarrow> consume_request \<Rightarrow> 'w \<Rightarrow> 'w printed" where
  "demo_stream net b rq w =
     (case nt_consume net (demo_address (Some b)) rq w of
        ((rs, code), w1) \<Rightarrow>
          (case shown_records rs of
             (ls, Some e) \<Rightarrow> ((ls, Some e), w1)
           | (ls, None) \<Rightarrow> ((ls, map_option Demo_Rpc code), w1)))"

definition demo_consume :: "'w demo_net \<Rightarrow> string \<Rightarrow> string \<Rightarrow> string \<Rightarrow> string \<Rightarrow> 'w \<Rightarrow> 'w printed" where
  "demo_consume net topic part offset limit w =
     demo_then (demo_int part, w) (\<lambda>p w.
       demo_then (demo_routing net topic w) (\<lambda>rt w.
         demo_then (routed rt p, w) (\<lambda>b w.
           demo_print [Reading p b]
             (demo_then (demo_int offset, w) (\<lambda>off w.
               demo_then (demo_int limit, w) (\<lambda>n w.
                 demo_stream net b \<lparr>cq_topic = topic, cq_partition = p, cq_offset = off, cq_follow = False, cq_max_records = n\<rparr> w))))))"

text \<open>The records until it is interrupted.\<close>

definition demo_tail :: "'w demo_net \<Rightarrow> string \<Rightarrow> string \<Rightarrow> string \<Rightarrow> 'w \<Rightarrow> 'w printed" where
  "demo_tail net topic part offset w =
     demo_then (demo_int part, w) (\<lambda>p w.
       demo_then (demo_routing net topic w) (\<lambda>rt w.
         demo_then (routed rt p, w) (\<lambda>b w.
           demo_print [Following topic p b]
             (demo_then (demo_int offset, w) (\<lambda>off w.
               demo_stream net b \<lparr>cq_topic = topic, cq_partition = p, cq_offset = off, cq_follow = True, cq_max_records = 0\<rparr> w)))))"

section \<open>Producing through failures\<close>

type_synonym buffered = "int \<times> bytes \<times> bytes"

text \<open>The partitioner does not change on keyed records.\<close>

definition resilient_key :: "int \<Rightarrow> bytes" where
  "resilient_key n = utf8 (''user-'' @ int_text n)"

definition resilient_value :: "int \<Rightarrow> bytes" where
  "resilient_value n = utf8 (''record-'' @ zero_pad 4 (int_text n))"

fun resilient_records :: "placing \<Rightarrow> int list \<Rightarrow> buffered list demo" where
  "resilient_records rt [] = Inr []"
| "resilient_records rt (n # ns) =
     (case fst (demo_partition partitioner_init (Some (resilient_key n)) rt) of
        Inl e \<Rightarrow> Inl e
      | Inr p \<Rightarrow>
          (case resilient_records rt ns of
             Inl e \<Rightarrow> Inl e
           | Inr xs \<Rightarrow> Inr ((p, resilient_key n, resilient_value n) # xs)))"

text \<open>One pass over the buffer: what was refused, how many were not, and the routing, which may have been read again.\<close>

fun resilient_pass ::
  "'w demo_net \<Rightarrow> string \<Rightarrow> buffered list \<Rightarrow> placing \<times> 'w \<Rightarrow> (buffered list \<times> int) demo \<times> placing \<times> 'w" where
  "resilient_pass net topic [] rw = (Inr ([], 0), rw)"
| "resilient_pass net topic ((p, key, val) # xs) (rt, w) =
     (case nt_produce net (demo_address (map_of rt p)) (demo_request topic (Some key) val p) w of
        (Inr resp, w1) \<Rightarrow>
          (case resilient_pass net topic xs (rt, w1) of
             (Inl e, rw) \<Rightarrow> (Inl e, rw)
           | (Inr (still, n), rw) \<Rightarrow> (Inr (still, n + 1), rw))
      | (Inl code, w1) \<Rightarrow>
          (case (if code = Code_Failed_Precondition then demo_routing net topic w1 else (Inr rt, w1)) of
             (Inl e, w2) \<Rightarrow> (Inl e, (rt, w2))
           | (Inr rt1, w2) \<Rightarrow>
               (case resilient_pass net topic xs (rt1, w2) of
                  (Inl e, rw) \<Rightarrow> (Inl e, rw)
                | (Inr (still, n), rw) \<Rightarrow> (Inr ((p, key, val) # still, n), rw))))"

text \<open>\<open>sorted\<close> of the brokers waited on; \<open>None\<close> does not compare with a number.\<close>

definition waiting_on :: "placing \<Rightarrow> buffered list \<Rightarrow> int option list demo" where
  "waiting_on rt pending =
     (let bs = remdups (map (\<lambda>x. map_of rt (fst x)) pending)
      in if None \<in> set bs \<and> 1 < length bs then Inl Demo_Type_Error
         else Inr (if None \<in> set bs then bs else map Some (sort (map the bs))))"

text \<open>The loop: the lines, the exception, or what is left in the buffer with the number delivered.\<close>

partial_function (option) resilient_loop ::
  "'w demo_net \<Rightarrow> string \<Rightarrow> int \<Rightarrow> rat \<Rightarrow> rat \<Rightarrow> buffered list \<Rightarrow> int \<Rightarrow> rat \<Rightarrow> placing \<times> 'w
    \<Rightarrow> (demo_line list \<times> (buffered list \<times> int) demo \<times> 'w) option" where
  "resilient_loop net topic wanted limit started pending delivered backoff rw =
     (if pending \<noteq> [] \<and> nt_now net (snd rw) - started < limit then
        (case resilient_pass net topic pending rw of
           (Inl e, rw1) \<Rightarrow> Some ([], Inl e, snd rw1)
         | (Inr (still, n), (rt1, w1)) \<Rightarrow>
             if still = [] then resilient_loop net topic wanted limit started [] (delivered + n) backoff (rt1, w1)
             else
               (case waiting_on rt1 still of
                  Inl e \<Rightarrow> Some ([], Inl e, w1)
                | Inr bs \<Rightarrow>
                    Option.bind (resilient_loop net topic wanted limit started still (delivered + n) (min (backoff * 2) 4)
                        (rt1, nt_sleep net backoff w1))
                      (\<lambda>(ls, res, w2). Some (Buffered (delivered + n) wanted (int (length still)) bs backoff # ls, res, w2))))
      else Some ([], Inr (pending, delivered), snd rw))"

text \<open>\<open>float(deadline)\<close> is an argument, and finite.\<close>

definition demo_resilient :: "'w demo_net \<Rightarrow> string \<Rightarrow> string \<Rightarrow> rat \<Rightarrow> 'w \<Rightarrow> 'w printed option" where
  "demo_resilient net topic many limit w =
     (case demo_int many of
        Inl e \<Rightarrow> Some (([], Some e), w)
      | Inr wanted \<Rightarrow>
          (case demo_routing net topic w of
             (Inl e, w1) \<Rightarrow> Some (([], Some e), w1)
           | (Inr rt, w1) \<Rightarrow>
               (case resilient_records rt [0 .. wanted - 1] of
                  Inl e \<Rightarrow> Some (([], Some e), w1)
                | Inr pending \<Rightarrow>
                    Option.bind (resilient_loop net topic wanted limit (nt_now net w1) pending 0 (1 / 4) (rt, w1))
                      (\<lambda>(ls, res, w2). Some
                        (case res of
                           Inl e \<Rightarrow> ((ls, Some e), w2)
                         | Inr (left, delivered) \<Rightarrow>
                             ((ls @ [if left \<noteq> [] then Gave_Up limit (int (length left))
                                     else All_Delivered wanted (nt_now net w2 - nt_now net w1)], None), w2))))))"

section \<open>The command line\<close>

text \<open>
  \<open>COMMANDS[sys.argv[1]](*sys.argv[2:])\<close>: the arguments with their defaults; a wrong number of them is a
  \<open>TypeError\<close>. \<open>fl\<close> is \<open>float\<close>. \<open>Usage\<close> is the help text; a \<open>resilient\<close> that never ends has no result.
\<close>

datatype demo_exit = Usage | Ran "demo_line list" "demo_error option"

definition COMMANDS :: "string list" where
  "COMMANDS = [''create'', ''map'', ''layout'', ''produce'', ''bulk'', ''consume'', ''tail'', ''wrong'', ''resilient'', ''show'']"

definition demo_done :: "'w printed \<Rightarrow> (demo_exit \<times> 'w) option" where
  "demo_done x = (case x of ((ls, err), w) \<Rightarrow> Some (Ran ls err, w))"

definition demo_run :: "(string \<Rightarrow> rat option) \<Rightarrow> 'w demo_net \<Rightarrow> string \<Rightarrow> string list \<Rightarrow> 'w \<Rightarrow> (demo_exit \<times> 'w) option" where
  "demo_run fl net cmd args w =
     (let arity = Some (Ran [] (Some Demo_Type_Error), w);
          resilient = (\<lambda>topic many limit.
            if py_int many = None then Some (Ran [] (Some Demo_Value_Error), w)
            else (case fl limit of
              None \<Rightarrow> Some (Ran [] (Some Demo_Value_Error), w)
            | Some d \<Rightarrow> Option.bind (demo_resilient net topic many d w) demo_done)) in
      if cmd = ''create'' then
        (case args of [t] \<Rightarrow> demo_done (demo_create net t ''1'' w) | [t, n] \<Rightarrow> demo_done (demo_create net t n w) | _ \<Rightarrow> arity)
      else if cmd = ''map'' then (case args of [t] \<Rightarrow> demo_done (demo_map net t w) | _ \<Rightarrow> arity)
      else if cmd = ''layout'' then (case args of [] \<Rightarrow> demo_done (demo_layout net w) | _ \<Rightarrow> arity)
      else if cmd = ''produce'' then (case args of [t, k, v] \<Rightarrow> demo_done (demo_produce net t k v w) | _ \<Rightarrow> arity)
      else if cmd = ''bulk'' then (case args of [t, n] \<Rightarrow> demo_done (demo_bulk net t n w) | _ \<Rightarrow> arity)
      else if cmd = ''consume'' then
        (case args of
           [t] \<Rightarrow> demo_done (demo_consume net t ''0'' ''0'' ''10'' w)
         | [t, p] \<Rightarrow> demo_done (demo_consume net t p ''0'' ''10'' w)
         | [t, p, off] \<Rightarrow> demo_done (demo_consume net t p off ''10'' w)
         | [t, p, off, n] \<Rightarrow> demo_done (demo_consume net t p off n w)
         | _ \<Rightarrow> arity)
      else if cmd = ''tail'' then
        (case args of
           [t] \<Rightarrow> demo_done (demo_tail net t ''0'' ''0'' w)
         | [t, p] \<Rightarrow> demo_done (demo_tail net t p ''0'' w)
         | [t, p, off] \<Rightarrow> demo_done (demo_tail net t p off w)
         | _ \<Rightarrow> arity)
      else if cmd = ''wrong'' then
        (case args of [t] \<Rightarrow> demo_done (demo_wrong net t ''0'' w) | [t, p] \<Rightarrow> demo_done (demo_wrong net t p w) | _ \<Rightarrow> arity)
      else if cmd = ''resilient'' then
        (case args of
           [t] \<Rightarrow> resilient t ''60'' ''30''
         | [t, n] \<Rightarrow> resilient t n ''30''
         | [t, n, d] \<Rightarrow> resilient t n d
         | _ \<Rightarrow> arity)
      else if cmd = ''show'' then
        (case args of [t] \<Rightarrow> demo_done (demo_show net t ''0'' w) | [t, p] \<Rightarrow> demo_done (demo_show net t p w) | _ \<Rightarrow> arity)
      else Some (Usage, w))"

section \<open>The loop of resilient\<close>

lemma routing_time: "clocked (net.truncate net) \<Longrightarrow> demo_routing net topic w = (res, w') \<Longrightarrow> nt_now net w \<le> nt_now net w'"
  using clocked.metadata_forward [of "net.truncate net" "demo_address (Some 0)" "[topic]" w]
  by (auto simp: demo_routing_def net.truncate_def split: prod.splits sum.splits list.splits)

lemma pass_time:
  assumes "clocked (net.truncate net)"
  shows "resilient_pass net topic xs rw = (res, rw') \<Longrightarrow> nt_now net (snd rw) \<le> nt_now net (snd rw')"
proof (induction xs arbitrary: rw res rw')
  case (Cons x xs)
  obtain p key val where x: "x = (p, key, val)" by (cases x)
  obtain rt w where rw: "rw = (rt, w)" by (cases rw)
  obtain y w1 where 1: "nt_produce net (demo_address (map_of rt p)) (demo_request topic (Some key) val p) w = (y, w1)"
    by (meson surj_pair)
  have t: "nt_now net w \<le> nt_now net w1"
    using clocked.produce_forward [OF assms, of "demo_address (map_of rt p)" "demo_request topic (Some key) val p" w] 1
    by (simp add: net.truncate_def)
  obtain z w2 where 2: "(case y of Inl code \<Rightarrow> if code = Code_Failed_Precondition then demo_routing net topic w1 else (Inr rt, w1)
      | Inr resp \<Rightarrow> (Inr rt, w1)) = (z, w2)" by (meson surj_pair)
  have t2: "nt_now net w1 \<le> nt_now net w2"
    using 2 routing_time [OF assms] by (auto split: sum.splits if_split_asm)
  show ?case
  proof (cases z)
    case (Inl e)
    with Cons.prems 1 2 have "snd rw' = w2" by (auto simp: x rw split: sum.splits if_split_asm)
    with t t2 show ?thesis by (simp add: rw)
  next
    case (Inr rt1)
    obtain r rw2 where r: "resilient_pass net topic xs (rt1, w2) = (r, rw2)" by (meson surj_pair)
    have "rw' = rw2" using Cons.prems 1 2 Inr r by (auto simp: x rw split: sum.splits if_split_asm prod.splits)
    with Cons.IH [OF r] t t2 show ?thesis by (simp add: rw)
  qed
qed simp

text \<open>
  The loop ends, and what holds of the buffer, the number delivered and the world before a pass and after
  it holds at the end, or what follows from it when an exception ends the loop.
\<close>

lemma resilient_loop_rule:
  assumes clk: "clocked (net.truncate net)" and backoff: "1 / 4 \<le> backoff"
    and start: "I pending delivered rw"
    and pass: "\<And>xs n rw res rw'. I xs n rw \<Longrightarrow> resilient_pass net topic xs rw = (res, rw') \<Longrightarrow>
      (case res of Inl e \<Rightarrow> E (snd rw') | Inr (still, k) \<Rightarrow> I still (n + k) rw')"
    and sleep: "\<And>xs n rt w d. I xs n (rt, w) \<Longrightarrow> I xs n (rt, nt_sleep net d w)"
    and left: "\<And>xs n rw. I xs n rw \<Longrightarrow> E (snd rw)"
    and lines: "\<And>xs n rw bs d. I xs n rw \<Longrightarrow> xs \<noteq> [] \<Longrightarrow> L (Buffered n wanted (int (length xs)) bs d)"
  shows "\<exists>ls res w'. resilient_loop net topic wanted limit started pending delivered backoff rw = Some (ls, res, w')
    \<and> E w' \<and> (\<forall>l \<in> set ls. L l) \<and> (\<forall>xs n. res = Inr (xs, n) \<longrightarrow> (\<exists>rt. I xs n (rt, w')) \<and> (xs \<noteq> [] \<longrightarrow> started + limit \<le> nt_now net w'))"
  using backoff start
proof (induction "clocked.turns (net.truncate net) (1 / 4) (started + limit) (undefined, snd rw)"
    arbitrary: pending delivered rw backoff rule: less_induct)
  case less
  obtain rt w where rw: "rw = (rt, w)" by (cases rw)
  note unf = resilient_loop.simps [of net topic wanted limit started pending delivered backoff rw, unfolded rw]
  show ?case
  proof (cases "pending \<noteq> [] \<and> nt_now net w - started < limit")
    case False
    then have "resilient_loop net topic wanted limit started pending delivered backoff rw = Some ([], Inr (pending, delivered), w)"
      unfolding rw unf by auto
    with False less.prems(2) left [OF less.prems(2)] show ?thesis by (auto simp: rw)
  next
    case True
    obtain res rt1 w1 where p: "resilient_pass net topic pending rw = (res, (rt1, w1))" by (metis prod_cases3)
    note q = pass [OF less.prems(2) p]
    show ?thesis
    proof (cases res)
      case (Inl e)
      with True p have "resilient_loop net topic wanted limit started pending delivered backoff rw = Some ([], Inl e, w1)"
        unfolding rw unf by simp
      with q Inl show ?thesis by auto
    next
      case (Inr sn)
      obtain still n where sn: "sn = (still, n)" by (cases sn)
      have I: "I still (delivered + n) (rt1, w1)" using q Inr sn by simp
      show ?thesis
      proof (cases "still = []")
        case sent: True
        have "resilient_loop net topic wanted limit started [] (delivered + n) backoff (rt1, w1)
            = Some ([], Inr ([], delivered + n), w1)"
          by (simp add: resilient_loop.simps [of net topic wanted limit started "[]"])
        with True p Inr sn sent have "resilient_loop net topic wanted limit started pending delivered backoff rw
            = Some ([], Inr ([], delivered + n), w1)" unfolding rw unf by simp
        with I sent left [OF I] show ?thesis by auto
      next
        case more: False
        show ?thesis
        proof (cases "waiting_on rt1 still")
          case (Inl e)
          with True p sn more \<open>res = Inr sn\<close> have
            "resilient_loop net topic wanted limit started pending delivered backoff rw = Some ([], Inl e, w1)"
            unfolding rw unf by simp
          with left [OF I] show ?thesis by auto
        next
          case (Inr bs)
          let ?w2 = "nt_sleep net backoff w1"
          note goes = clocked.turns_less [OF clk, of "1 / 4" "(undefined, w)" w1 "started + limit" backoff undefined]
          have I2: "I still (delivered + n) (rt1, ?w2)" by (rule sleep [OF I])
          have cont: "resilient_loop net topic wanted limit started pending delivered backoff rw
            = Option.bind (resilient_loop net topic wanted limit started still (delivered + n) (min (backoff * 2) 4) (rt1, ?w2))
                (\<lambda>(ls, res, w2). Some (Buffered (delivered + n) wanted (int (length still)) bs backoff # ls, res, w2))"
            using True p \<open>res = Inr sn\<close> sn more Inr unfolding rw unf by simp
          have time: "nt_now net w \<le> nt_now net w1" using pass_time [OF clk p] by (simp add: rw)
          have "\<exists>ls res w'. resilient_loop net topic wanted limit started still (delivered + n) (min (backoff * 2) 4) (rt1, ?w2)
              = Some (ls, res, w') \<and> E w' \<and> (\<forall>l \<in> set ls. L l) \<and> (\<forall>xs n. res = Inr (xs, n) \<longrightarrow> (\<exists>rt. I xs n (rt, w')) \<and> (xs \<noteq> [] \<longrightarrow> started + limit \<le> nt_now net w'))"
          proof (cases "nt_now net w1 < started + limit")
            case early: True
            have "clocked.turns (net.truncate net) (1 / 4) (started + limit) (undefined, ?w2)
                < clocked.turns (net.truncate net) (1 / 4) (started + limit) (undefined, w)"
              using goes time early less.prems(1) by (simp add: net.truncate_def)
            from less.hyps [OF _ _ I2, of "min (backoff * 2) 4"] this less.prems(1) show ?thesis by (simp add: rw)
          next
            case late: False
            have "nt_now net w1 \<le> nt_now net ?w2"
              using clocked.sleep_forward [OF clk, of backoff w1] less.prems(1) by (simp add: net.truncate_def)
            then have "\<not> nt_now net ?w2 - started < limit" using late by simp
            then have "resilient_loop net topic wanted limit started still (delivered + n) (min (backoff * 2) 4) (rt1, ?w2)
              = Some ([], Inr (still, delivered + n), ?w2)"
              by (simp add: resilient_loop.simps [of net topic wanted limit started still])
            with I2 left [OF I2] \<open>\<not> nt_now net ?w2 - started < limit\<close> show ?thesis by auto
          qed
          with cont lines [OF I more] show ?thesis by auto
        qed
      qed
    qed
  qed
qed

text \<open>A pass keeps what it could not deliver, in order, and counts the rest.\<close>

lemma pass_splits:
  "resilient_pass net topic xs rw = (Inr (still, n), rw') \<Longrightarrow> subseq still xs \<and> int (length xs) = int (length still) + n"
proof (induction xs arbitrary: rw still n)
  case (Cons x xs)
  obtain p key val where x: "x = (p, key, val)" by (cases x)
  obtain rt w where rw: "rw = (rt, w)" by (cases rw)
  obtain y w1 where 1: "nt_produce net (demo_address (map_of rt p)) (demo_request topic (Some key) val p) w = (y, w1)"
    by (meson surj_pair)
  show ?case
  proof (cases y)
    case (Inl code)
    then obtain rt1 w2 still1 where "resilient_pass net topic xs (rt1, w2) = (Inr (still1, n), rw')" "still = x # still1"
      using Cons.prems 1 by (auto simp: x rw split: sum.splits prod.splits if_split_asm)
    with Cons.IH show ?thesis by auto
  next
    case (Inr resp)
    then obtain k where "resilient_pass net topic xs (rt, w1) = (Inr (still, k), rw')" "n = k + 1"
      using Cons.prems 1 by (auto simp: x rw split: sum.splits prod.splits)
    with Cons.IH show ?thesis by auto
  qed
qed auto

section \<open>Property\<close>

lemma resilient_records_length: "resilient_records rt ns = Inr xs \<Longrightarrow> length xs = length ns"
  by (induction ns arbitrary: xs) (auto split: sum.splits)


section \<open>A network that delivers nothing\<close>

definition dead_world :: "rat demo_net" where
  "dead_world = \<lparr>nt_metadata = \<lambda>a ts w. (Inr [(''a'', [(0, 0, ''b'')])], w), nt_produce = \<lambda>a rq w. (Inl Code_Unavailable, w),
     nt_stream = \<lambda>a rqs w. (([], Some Code_Unavailable), w), nt_consume = \<lambda>a rq w. (([], Some Code_Unavailable), w),
     nt_now = \<lambda>w. w, nt_sleep = \<lambda>d w. w + max 0 d, dn_count = \<lambda>a w. (Inr 1, w), dn_http = \<lambda>rq w. (Inl Unreachable, w)\<rparr>"

lemma dead_clocked: "clocked (net.truncate dead_world)"
  by unfold_locales (auto simp: dead_world_def net.truncate_def)


end
