(* ===== verification/Batch.thy ===== *)
theory Batch
  imports Cluster_Run
begin

text \<open>
  Many records over one call: \<open>ProduceStream\<close> of \<open>broker/handler.py\<close> in every outcome, and \<open>send_batch\<close> of
  \<open>client.py\<close>, which opens one such stream per broker, before a cluster that loses calls and answers.
\<close>

section \<open>A stream of appends\<close>

text \<open>The record \<open>x\<close> is what the request asked for, at the offset the response names.\<close>

definition answered :: "log_record \<Rightarrow> produce_request \<times> produce_response \<Rightarrow> bool" where
  "answered x = (\<lambda>(rq, resp). copy_of (pq_key rq) (pq_value rq) (pq_timestamp rq) x \<and> rec_offset x = pr_offset resp)"

text \<open>From \<open>C\<close> to \<open>C'\<close> the pairs were appended, each to the partition its response names, in their order.\<close>

definition appended :: "string \<Rightarrow> (produce_request \<times> produce_response) list \<Rightarrow> contents \<Rightarrow> contents \<Rightarrow> bool" where
  "appended topic ps C C' \<longleftrightarrow> (\<forall>n q. fst (C' n q) = fst (C n q)
     \<and> (\<exists>xs. snd (C' n q) = snd (C n q) @ xs
         \<and> list_all2 answered xs (filter (\<lambda>x. n = topic \<and> pr_partition (snd x) = q) ps)))"

lemma appended_Nil: "appended topic [] C C"
  by (simp add: appended_def)

lemma appended_Cons:
  assumes "appended topic ps (put_contents topic (pr_partition resp) (fst c, snd c @ [new]) C) C'"
    and "c = C topic (pr_partition resp)" and "answered new (rq, resp)"
  shows "appended topic ((rq, resp) # ps) C C'"
  unfolding appended_def
proof (intro allI conjI)
  fix n q
  let ?C1 = "put_contents topic (pr_partition resp) (fst c, snd c @ [new]) C"
  from assms(1) obtain xs where xs: "fst (C' n q) = fst (?C1 n q)" "snd (C' n q) = snd (?C1 n q) @ xs"
    "list_all2 answered xs (filter (\<lambda>x. n = topic \<and> pr_partition (snd x) = q) ps)"
    unfolding appended_def by blast
  show "fst (C' n q) = fst (C n q)" using xs(1) assms(2) by (simp split: if_split_asm)
  show "\<exists>ys. snd (C' n q) = snd (C n q) @ ys
      \<and> list_all2 answered ys (filter (\<lambda>x. n = topic \<and> pr_partition (snd x) = q) ((rq, resp) # ps))"
  proof (cases "n = topic \<and> q = pr_partition resp")
    case True
    then show ?thesis using xs(2,3) assms(2,3) by (intro exI [where x = "new # xs"]) simp
  next
    case False
    then show ?thesis using xs(2,3) by (intro exI [where x = xs]) (auto split: if_split_asm)
  qed
qed

lemma produce_stream_Cons:
  "produce_stream bf r ((rq, now_ns, tick) # rqs) s =
     (case produce bf r rq now_ns tick s of
        (Inl e, s1) \<Rightarrow> (([], Some e), s1)
      | (Inr resp, s1) \<Rightarrow> (case produce_stream bf r rqs s1 of ((rs, err), s2) \<Rightarrow> ((resp # rs, err), s2)))"
  by (simp add: produce_def split: prod.split sum.split)

text \<open>Where an acknowledged record was put, and why one was refused.\<close>

definition well_placed :: "(string \<Rightarrow> int \<Rightarrow> bool) \<Rightarrow> string \<Rightarrow> int \<Rightarrow> produce_request \<times> produce_response \<Rightarrow> bool" where
  "well_placed own topic m = (\<lambda>(rq, resp). 0 \<le> pr_partition resp \<and> pr_partition resp < m \<and> own topic (pr_partition resp)
     \<and> pr_correlation resp = pq_correlation rq
     \<and> (case pq_partition rq of Some q \<Rightarrow> pr_partition resp = q
        | None \<Rightarrow> (\<forall>k. pq_key rq = Some k \<longrightarrow> pr_partition resp = uint (crc32 k 0) mod m)))"

definition stream_refusal ::
  "'a broker_of \<Rightarrow> 'a ring_scheme \<Rightarrow> string \<Rightarrow> int \<Rightarrow> contents \<Rightarrow> produce_request \<Rightarrow> int \<Rightarrow> rpc_error \<Rightarrow> bool" where
  "stream_refusal bf r topic m C rq now_ns e \<longleftrightarrow>
     (\<exists>q. pq_partition rq = Some q \<and> \<not> (0 \<le> q \<and> q < m) \<and> e = Invalid_Argument ValueError)
     \<or> (\<exists>p q. 0 \<le> p \<and> p < m \<and> \<not> ring_owns bf r topic p \<and> 0 \<le> q \<and> q < m \<and> e = redirect_to bf r topic q
         \<and> (pq_partition rq \<noteq> None \<or> pq_key rq \<noteq> None \<longrightarrow> q = p) \<and> (\<forall>q. pq_partition rq = Some q \<longrightarrow> p = q))
     \<or> (\<exists>p x. 0 \<le> p \<and> p < m \<and> ring_owns bf r topic p \<and> (\<forall>q. pq_partition rq = Some q \<longrightarrow> p = q)
         \<and> encode (stamped (fst (C topic p) + int (length (snd (C topic p)))) (pq_key rq) (pq_value rq) (pq_timestamp rq) now_ns) = Inl x
         \<and> (x = ValueError \<and> e = Invalid_Argument x \<or> x = StructError \<and> e = Unknown x))"

lemma produce_step:
  assumes ring: "in_ring bf r" and ok: "store_ok (ring_owns bf r) C s" and name: "is_valid_name topic"
    and meta: "metas (snd s) topic = Some (Inr m)" and m: "1 \<le> m" and t: "pq_topic rq = topic"
    and run: "produce bf r rq now_ns tick s = (res, s')"
  shows "metas (snd s') topic = Some (Inr m) \<and> (case res of
      Inl e \<Rightarrow> store_ok (ring_owns bf r) C s' \<and> stream_refusal bf r topic m C rq now_ns e
    | Inr resp \<Rightarrow> well_placed (ring_owns bf r) topic m (rq, resp)
        \<and> (\<exists>new. answered new (rq, resp) \<and> store_ok (ring_owns bf r)
              (put_contents topic (pr_partition resp) (fst (C topic (pr_partition resp)), snd (C topic (pr_partition resp)) @ [new]) C) s'))"
proof -
  let ?p = "destination (so_topics (fst s)) m (pq_key rq) (pq_partition rq)"
  let ?c = "C topic ?p"
  let ?new = "stamped (fst ?c + int (length (snd ?c))) (pq_key rq) (pq_value rq) (pq_timestamp rq) now_ns"
  have meta': "metas (snd s) (pq_topic rq) = Some (Inr m)" "is_valid_name (pq_topic rq)" using meta name t by simp_all
  note k = produce_outcomes [OF ring ok meta'(2,1) m run refl refl refl, unfolded t]
  have range: "pq_partition rq = None \<Longrightarrow> 0 \<le> ?p \<and> ?p < m" using destination_in_range [OF m] by blast
  have new: "answered ?new (rq, resp)" if "pr_offset resp = rec_offset ?new" for resp
    using that by (simp add: answered_def copy_of_def stamped_def)
  consider (outside) "\<not> (0 \<le> ?p \<and> ?p < m)" | (foreign) "0 \<le> ?p \<and> ?p < m" "bf r topic ?p \<noteq> Inr (rg_me r)"
    | (taken) "0 \<le> ?p \<and> ?p < m" "bf r topic ?p = Inr (rg_me r)" "encodable ?new"
    | (unfit) "0 \<le> ?p \<and> ?p < m" "bf r topic ?p = Inr (rg_me r)" "\<not> encodable ?new" by blast
  then show ?thesis
  proof cases
    case outside
    then obtain q where "pq_partition rq = Some q" "\<not> (0 \<le> q \<and> q < m)" using range by (cases "pq_partition rq") (auto simp: destination_def)
    then show ?thesis using k outside meta by (auto simp: stream_refusal_def)
  next
    case foreign
    with k obtain q where q: "res = Inl (redirect_to bf r topic q)" "0 \<le> q" "q < m"
      "pq_partition rq \<noteq> None \<or> pq_key rq \<noteq> None \<longrightarrow> q = ?p" "store_ok (ring_owns bf r) C s'" "metas (snd s') = metas (snd s)"
      by auto
    have "stream_refusal bf r topic m C rq now_ns (redirect_to bf r topic q)"
      unfolding stream_refusal_def ring_owns_iff
      by (intro disjI2 disjI1 exI [where x = ?p] exI [where x = q]) (use foreign q in \<open>auto simp: destination_def\<close>)
    then show ?thesis using q meta by simp
  next
    case taken
    let ?resp = "\<lparr>pr_partition = ?p, pr_offset = fst ?c + int (length (snd ?c)), pr_correlation = pq_correlation rq\<rparr>"
    have r: "res = Inr ?resp" "store_ok (ring_owns bf r) (put_contents topic ?p (fst ?c, snd ?c @ [?new]) C) s'"
      "metas (snd s') = metas (snd s)" using k taken by simp_all
    have "well_placed (ring_owns bf r) topic m (rq, ?resp)"
      using taken by (auto simp: well_placed_def ring_owns_iff destination_def split: option.split)
    moreover have "answered ?new (rq, ?resp)" by (rule new) (simp add: stamped_def)
    ultimately show ?thesis using r meta by auto
  next
    case unfit
    then obtain x e where x: "encode ?new = Inl x" "x = ValueError \<and> e = Invalid_Argument x \<or> x = StructError \<and> e = Unknown x"
      "res = Inl e" "store_ok (ring_owns bf r) C s'" "metas (snd s') = metas (snd s)" using k by auto
    have "stream_refusal bf r topic m C rq now_ns e"
      unfolding stream_refusal_def ring_owns_iff
      by (intro disjI2 exI [where x = ?p] exI [where x = x]) (use unfit x in \<open>simp add: destination_def\<close>)
    then show ?thesis using x meta by simp
  qed
qed

text \<open>The \<open>i\<close>-th answer belongs to the \<open>i\<close>-th request; what comes after the first refusal is not looked at.\<close>

lemma stream_outcomes:
  assumes "in_ring bf r" and "is_valid_name topic" and "1 \<le> m"
    and "store_ok (ring_owns bf r) C s" and "metas (snd s) topic = Some (Inr m)" and "\<forall>x \<in> set rqs. pq_topic (fst x) = topic"
    and "produce_stream bf r rqs s = ((rs, err), s')"
  shows "metas (snd s') topic = Some (Inr m)
    \<and> (\<forall>x \<in> set (zip (map fst rqs) rs). well_placed (ring_owns bf r) topic m x)
    \<and> (\<exists>C'. store_ok (ring_owns bf r) C' s' \<and> appended topic (zip (map fst rqs) rs) C C'
        \<and> (case err of None \<Rightarrow> length rs = length rqs
           | Some e \<Rightarrow> length rs < length rqs
               \<and> stream_refusal bf r topic m C' (fst (rqs ! length rs)) (fst (snd (rqs ! length rs))) e))"
  using assms(4-)
proof (induction rqs arbitrary: s C rs)
  case Nil
  then show ?case using appended_Nil by auto
next
  case (Cons x rqs)
  obtain rq now_ns tick where x: "x = (rq, now_ns, tick)" by (metis prod_cases3)
  obtain res s1 where p: "produce bf r rq now_ns tick s = (res, s1)" by (meson surj_pair)
  have t: "pq_topic rq = topic" using Cons.prems(3) x by simp
  note k = produce_step [OF assms(1) Cons.prems(1) assms(2) Cons.prems(2) assms(3) t p]
  note run = Cons.prems(4) [unfolded x produce_stream_Cons p]
  show ?case
  proof (cases res)
    case (Inl e)
    with run have "rs = []" "err = Some e" "s' = s1" by simp_all
    then show ?thesis using k Inl appended_Nil by (auto simp: x)
  next
    case (Inr resp)
    obtain rs1 where q: "produce_stream bf r rqs s1 = ((rs1, err), s')" and rs: "rs = resp # rs1"
      using run Inr by (auto split: prod.splits)
    let ?c = "C topic (pr_partition resp)"
    obtain new where new: "answered new (rq, resp)"
      "store_ok (ring_owns bf r) (put_contents topic (pr_partition resp) (fst ?c, snd ?c @ [new]) C) s1"
      and w: "well_placed (ring_owns bf r) topic m (rq, resp)" "metas (snd s1) topic = Some (Inr m)" using k Inr by auto
    have t1: "\<forall>x \<in> set rqs. pq_topic (fst x) = topic" using Cons.prems(3) by simp
    from Cons.IH [OF new(2) w(2) t1 q] obtain C' where C': "metas (snd s') topic = Some (Inr m)"
      "\<forall>x \<in> set (zip (map fst rqs) rs1). well_placed (ring_owns bf r) topic m x" "store_ok (ring_owns bf r) C' s'"
      "appended topic (zip (map fst rqs) rs1) (put_contents topic (pr_partition resp) (fst ?c, snd ?c @ [new]) C) C'"
      "case err of None \<Rightarrow> length rs1 = length rqs
       | Some e \<Rightarrow> length rs1 < length rqs
           \<and> stream_refusal bf r topic m C' (fst (rqs ! length rs1)) (fst (snd (rqs ! length rs1))) e" by blast
    have "appended topic (zip (map fst (x # rqs)) rs) C C'" using appended_Cons [OF C'(4) refl new(1)] by (simp add: x rs)
    with C' w(1) show ?thesis by (intro conjI exI [where x = C']) (auto simp: x rs split: option.splits)
  qed
qed

section \<open>One stream on the cluster\<close>

abbreviation reached :: "config \<Rightarrow> string \<Rightarrow> int \<Rightarrow> 'a list \<Rightarrow> 'a list" where
  "reached cf a b ps \<equiv> (if broker_at cf a = Some b then ps else [])"

text \<open>
  The stream reaches one broker or none, which appends a prefix of it; the caller knows which if no error
  came back.
\<close>

lemma stream_call:
  assumes ok: "cluster_ok cf topic m D w" and cf: "0 < cf_vnodes cf" and name: "is_valid_name topic" and m: "1 \<le> m"
    and t: "\<forall>rq \<in> set rqs. pq_topic rq = topic" and run: "nt_stream (cluster_net cf) a rqs w = ((rs, code), w')"
  shows "\<exists>D' acks. cluster_ok cf topic m D' w' \<and> length acks \<le> length rqs
    \<and> (\<forall>b. appended topic (reached cf a b (zip rqs acks)) (D b) (D' b)
        \<and> (\<forall>x \<in> set (reached cf a b (zip rqs acks)). well_placed (owner_at cf b) topic m x))
    \<and> (code = None \<longrightarrow> acks = rs \<and> length rs = length rqs \<and> broker_at cf a \<noteq> None)"
proof -
  have "call cf a (serve_stream cf rqs) ([], Some Code_Unavailable) w = ((rs, code), w')" using run by (simp add: cluster_net_def)
  then show ?thesis
  proof (cases rule: call_cases)
    case 1
    then show ?thesis using cluster_ok_stores [OF ok 1(2)]
      by (intro exI [where x = D] exI [where x = "[]"]) (simp add: appended_Nil)
  next
    case (2 b s)
    have b: "0 \<le> b" "b < cf_brokers cf" using broker_at_in [OF 2(1)] by simp_all
    then have here: "store_ok (owner_at cf b) (D b) (cu_stores w b)" "metas (snd (cu_stores w b)) topic = Some (Inr m)"
      using ok by (auto simp: cluster_ok_def)
    let ?now = "\<lfloor>cu_clock w' * 1000000000\<rfloor>" and ?tick = "cu_clock w'"
    let ?reqs = "map (\<lambda>rq. (rq, ?now, ?tick)) rqs"
    obtain acks err s1 where p: "produce_stream hash_broker_for (ring_at cf b) ?reqs (cu_stores w b) = ((acks, err), s1)"
      by (metis surj_pair)
    have fst_reqs: "map fst ?reqs = rqs" by (simp add: o_def)
    have "\<forall>x \<in> set ?reqs. pq_topic (fst x) = topic" using t by simp
    from stream_outcomes [OF ring_at_built(3) [OF b cf] name m here this p, unfolded fst_reqs] obtain C' where
      k: "metas (snd s1) topic = Some (Inr m)" "\<forall>x \<in> set (zip rqs acks). well_placed (owner_at cf b) topic m x"
      "store_ok (owner_at cf b) C' s1" "appended topic (zip rqs acks) (D b) C'"
      "case err of None \<Rightarrow> length acks = length rqs | Some e \<Rightarrow> length acks < length rqs"
      by (auto split: option.splits)
    have serve: "serve_stream cf rqs b ?tick (cu_stores w b) = ((acks, map_option code_of err), s1)"
      using p by (simp add: serve_stream_def)
    have s: "s1 = s" using 2(3) serve by simp
    have "cluster_ok cf topic m (D(b := C')) w'" by (rule cluster_ok_upd [OF ok k(3,1) 2(4) [folded s]])
    moreover have "length acks \<le> length rqs" using k(5) by (auto split: option.splits)
    moreover have "code = None \<Longrightarrow> acks = rs \<and> length rs = length rqs" using 2(2) serve k(5) by auto
    ultimately show ?thesis using k(2,4) 2(1)
      by (intro exI [where x = "D(b := C')"] exI [where x = acks]) (auto simp: appended_Nil)
  qed
qed

section \<open>What a batch leaves behind\<close>

definition to_part :: "int \<Rightarrow> produce_request list \<Rightarrow> produce_request list" where
  "to_part q rqs = filter (\<lambda>rq. pq_partition rq = Some q) rqs"

definition stored :: "log_record \<Rightarrow> produce_request \<Rightarrow> bool" where
  "stored x rq \<longleftrightarrow> copy_of (pq_key rq) (pq_value rq) (pq_timestamp rq) x"

text \<open>
  From \<open>D\<close> to \<open>D'\<close>: at the end of each partition, on the broker that owns it and nowhere else, a prefix of the
  requests for it, each once and in their order. If the caller got the positions \<open>pos\<close>, it is all of them, and
  the positions it got for a partition are theirs, in that order.
\<close>

definition delivered_at ::
  "bool \<Rightarrow> produce_request list \<Rightarrow> offset list option \<Rightarrow> offset \<times> log_record list \<Rightarrow> offset \<times> log_record list \<Rightarrow> bool" where
  "delivered_at owned rqs offs c c' \<longleftrightarrow> fst c' = fst c
     \<and> (\<exists>xs ys. snd c' = snd c @ xs \<and> list_all2 stored xs ys \<and> prefix ys rqs \<and> (xs \<noteq> [] \<longrightarrow> owned)
         \<and> (\<forall>os. offs = Some os \<longrightarrow> owned \<longrightarrow> ys = rqs \<and> os = map rec_offset xs))"

definition delivered ::
  "config \<Rightarrow> string \<Rightarrow> produce_request list \<Rightarrow> (int \<times> int) list option \<Rightarrow> (int \<Rightarrow> contents) \<Rightarrow> (int \<Rightarrow> contents) \<Rightarrow> bool" where
  "delivered cf topic rqs pos D D' \<longleftrightarrow> (\<forall>b n q. 0 \<le> b \<longrightarrow> b < cf_brokers cf \<longrightarrow>
     delivered_at (n = topic \<and> owner_at cf b topic q) (to_part q rqs)
       (map_option (\<lambda>po. map snd (filter (\<lambda>x. fst x = q) po)) pos) (D b n q) (D' b n q))"

lemma to_part_append: "to_part q (xs @ ys) = to_part q xs @ to_part q ys"
  by (simp add: to_part_def)

lemma delivered_nothing: "delivered cf topic rqs None D D"
  by (simp add: delivered_def delivered_at_def)

lemma delivered_part: "delivered cf topic rqs None D D' \<Longrightarrow> delivered cf topic (rqs @ later) None D D'"
  by (fastforce simp: delivered_def delivered_at_def to_part_append intro: prefix_prefix)

lemma delivered_at_append:
  assumes "delivered_at owned r1 (Some o1) c c1" "delivered_at owned r2 o2 c1 c2" and "r1 = [] \<or> r2 = []"
  shows "delivered_at owned (r1 @ r2) (map_option (\<lambda>os. o1 @ os) o2) c c2"
proof -
  from assms(1) obtain x1 y1 where 1: "fst c1 = fst c" "snd c1 = snd c @ x1" "list_all2 stored x1 y1" "prefix y1 r1"
    "x1 \<noteq> [] \<longrightarrow> owned" "owned \<longrightarrow> y1 = r1 \<and> o1 = map rec_offset x1"
    unfolding delivered_at_def by auto
  from assms(2) obtain x2 y2 where 2: "fst c2 = fst c1" "snd c2 = snd c1 @ x2" "list_all2 stored x2 y2" "prefix y2 r2"
    "x2 \<noteq> [] \<longrightarrow> owned" "\<forall>os. o2 = Some os \<longrightarrow> owned \<longrightarrow> y2 = r2 \<and> os = map rec_offset x2"
    unfolding delivered_at_def by auto
  have "prefix (y1 @ y2) (r1 @ r2)" using 1(4) 2(4) assms(3) by auto
  moreover have "list_all2 stored (x1 @ x2) (y1 @ y2)" using 1(3) 2(3) by (rule list_all2_appendI)
  ultimately show ?thesis unfolding delivered_at_def
    using 1 2 by (intro conjI exI [where x = "x1 @ x2"] exI [where x = "y1 @ y2"]) auto
qed

lemma delivered_append:
  assumes "delivered cf topic r1 (Some p1) D D1" "delivered cf topic r2 pos D1 D2"
    and "\<And>q. to_part q r1 = [] \<or> to_part q r2 = []"
  shows "delivered cf topic (r1 @ r2) (map_option (\<lambda>p2. p1 @ p2) pos) D D2"
  unfolding delivered_def
proof (intro allI impI)
  fix b :: int and n q assume b: "0 \<le> b" "b < cf_brokers cf"
  let ?own = "n = topic \<and> owner_at cf b topic q" and ?f = "\<lambda>po. map snd (filter (\<lambda>x. fst x = q) po)"
  have "delivered_at ?own (to_part q r1) (Some (?f p1)) (D b n q) (D1 b n q)"
    "delivered_at ?own (to_part q r2) (map_option ?f pos) (D1 b n q) (D2 b n q)"
    using assms(1,2) b unfolding delivered_def by simp_all
  from delivered_at_append [OF this assms(3)]
  show "delivered_at ?own (to_part q (r1 @ r2)) (map_option ?f (map_option (\<lambda>p2. p1 @ p2) pos)) (D b n q) (D2 b n q)"
    by (simp add: to_part_append option.map_comp o_def)
qed

text \<open>One owner: all brokers of the cluster agree on it.\<close>

lemma owner_unique:
  assumes "0 < cf_vnodes cf" "0 \<le> b" "b < cf_brokers cf" "0 \<le> b'" "b' < cf_brokers cf"
    and "owner_at cf b t q" "owner_at cf b' t q"
  shows "b = b'"
proof -
  note r = ring_at_built [OF assms(2,3,1)] and r' = ring_at_built [OF assms(4,5,1)]
  from same_cluster(1) [OF r(1) r'(1), of t q] assms(6,7) r(2) r'(2) show ?thesis by (simp add: ring_owns_iff)
qed

lemma answered_all:
  "list_all2 answered xs ps \<Longrightarrow> list_all2 stored xs (map fst ps) \<and> map rec_offset xs = map (pr_offset \<circ> snd) ps"
  by (induction rule: list_all2_induct) (auto simp: answered_def stored_def)

lemma filter_take_prefix: "prefix (filter P (take k xs)) (filter P xs)"
  by (metis append_take_drop_id filter_append prefixI)

lemma map_fst_filter_zip:
  "map fst (filter (\<lambda>x. P (fst x)) (zip xs ys)) = filter P (take (length ys) xs)"
  by (induction xs ys rule: list_induct2') auto

lemma map_snd_filter_zip:
  "length ys = length xs \<Longrightarrow> map snd (filter (\<lambda>x. fst x = q) (map (\<lambda>r. (f r, g r)) ys))
    = map (g \<circ> snd) (filter (\<lambda>x. f (snd x) = q) (zip xs ys))"
  by (induction ys xs rule: list_induct2) auto

lemma delivered_stream:
  assumes run: "0 < cf_vnodes cf"
    and part: "\<forall>rq \<in> set rqs. \<exists>p. pq_partition rq = Some p"
    and app: "\<And>b. appended topic (reached cf a b (zip rqs acks)) (D b) (D' b)"
    and placed: "\<And>b. \<forall>x \<in> set (reached cf a b (zip rqs acks)). well_placed (owner_at cf b) topic m x"
    and all: "pos = None \<or> (pos = Some (map (\<lambda>r. (pr_partition r, pr_offset r)) acks) \<and> length acks = length rqs \<and> broker_at cf a \<noteq> None)"
  shows "delivered cf topic rqs pos D D'"
  unfolding delivered_def
proof (intro allI impI)
  fix b :: int and n q assume b: "0 \<le> b" "b < cf_brokers cf"
  let ?ps = "reached cf a b (zip rqs acks)"
  let ?L = "filter (\<lambda>x. n = topic \<and> pr_partition (snd x) = q) ?ps"
  from app [of b] obtain xs where xs: "fst (D' b n q) = fst (D b n q)" "snd (D' b n q) = snd (D b n q) @ xs" "list_all2 answered xs ?L"
    unfolding appended_def by blast
  have same: "pr_partition (snd x) = q \<longleftrightarrow> pq_partition (fst x) = Some q" if "x \<in> set ?ps" for x
  proof -
    have "x \<in> set (zip rqs acks)" using that by (simp split: if_split_asm)
    then have "fst x \<in> set rqs" by (metis prod.collapse set_zip_leftD)
    then obtain p where "pq_partition (fst x) = Some p" using part by blast
    then show ?thesis using placed [of b] that by (cases x) (force simp: well_placed_def)
  qed
  have L: "?L = (if n = topic then filter (\<lambda>x. pq_partition (fst x) = Some q) ?ps else [])"
    by (cases "n = topic") (use filter_cong [of ?ps ?ps, OF refl same] in simp_all)
  have "map fst ?L = (if n = topic \<and> broker_at cf a = Some b then to_part q (take (length acks) rqs) else [])"
    unfolding L by (simp add: to_part_def map_fst_filter_zip [where P = "\<lambda>rq. pq_partition rq = Some q"])
  then have pre: "prefix (map fst ?L) (to_part q rqs)" using filter_take_prefix by (auto simp: to_part_def)
  have owner: "n = topic \<and> owner_at cf b topic q" if "xs \<noteq> []"
  proof -
    have "length ?L = length xs" using xs(3) by (rule list_all2_lengthD [symmetric])
    with that have "?L \<noteq> []" by (metis length_0_conv)
    then obtain x where "x \<in> set ?L" by (meson last_in_set)
    then have "x \<in> set ?ps" "n = topic" "pr_partition (snd x) = q" by simp_all
    moreover from this have "well_placed (owner_at cf b) topic m x" using placed by blast
    ultimately show ?thesis by (simp add: well_placed_def split_beta)
  qed
  have full: "map fst ?L = to_part q rqs \<and> map snd (filter (\<lambda>x. fst x = q) po) = map rec_offset xs"
    if po: "pos = Some po" "n = topic" "owner_at cf b topic q" for po
  proof -
    from all po(1) obtain b0 where a: "po = map (\<lambda>r. (pr_partition r, pr_offset r)) acks" "length acks = length rqs"
      "broker_at cf a = Some b0" by auto
    let ?Z = "filter (\<lambda>x. pr_partition (snd x) = q) (zip rqs acks)"
    have "?Z = filter (\<lambda>x. pq_partition (fst x) = Some q) (zip rqs acks)"
      by (rule filter_cong) (use placed [of b0] a(3) part in \<open>force simp: well_placed_def dest: set_zip_leftD\<close>)+
    then have Z1: "map fst ?Z = to_part q rqs" using a(2) by (simp add: to_part_def map_fst_filter_zip [where P = "\<lambda>rq. pq_partition rq = Some q"])
    have Z2: "map snd (filter (\<lambda>x. fst x = q) po) = map (pr_offset \<circ> snd) ?Z"
      using a(2) by (simp add: a(1) map_snd_filter_zip)
    show ?thesis
    proof (cases "?Z = []")
      case True
      then have L: "?L = []" by (auto simp: filter_empty_conv)
      show ?thesis using Z1 Z2 xs(3) unfolding L True by simp
    next
      case False
      then obtain x where "x \<in> set ?Z" by (meson last_in_set)
      then have "x \<in> set (zip rqs acks)" "pr_partition (snd x) = q" by simp_all
      moreover from this have "well_placed (owner_at cf b0) topic m x" using placed [of b0] a(3) by simp
      ultimately have "owner_at cf b0 topic q" by (simp add: well_placed_def split_beta)
      with owner_unique [OF run b _ _ po(3)] broker_at_in [OF a(3)] have "b = b0" by blast
      then have "?L = ?Z" using a(3) po(2) by simp
      then show ?thesis using Z1 Z2 answered_all [OF xs(3)] by simp
    qed
  qed
  show "delivered_at (n = topic \<and> owner_at cf b topic q) (to_part q rqs)
      (map_option (\<lambda>po. map snd (filter (\<lambda>x. fst x = q) po)) pos) (D b n q) (D' b n q)"
    unfolding delivered_at_def
    using xs(1,2) answered_all [OF xs(3)] pre owner full by (intro conjI exI [where x = xs] exI [where x = "map fst ?L"]) auto
qed

section \<open>Grouping\<close>

text \<open>The request a record becomes.\<close>

definition message_of :: "string \<Rightarrow> int \<Rightarrow> bytes option \<times> bytes option \<Rightarrow> produce_request \<Rightarrow> bool" where
  "message_of topic m kv rq \<longleftrightarrow> (\<exists>p. produce_message topic (fst kv) (snd kv) None p = Inr rq \<and> target m (fst kv) p)"

definition group_of :: "(string \<times> 'a list) list \<Rightarrow> string \<Rightarrow> 'a list" where
  "group_of gs a = (case map_of gs a of None \<Rightarrow> [] | Some xs \<Rightarrow> xs)"

text \<open>The groups hold the requests, by the address they go to.\<close>

definition grouped :: "('a \<Rightarrow> string) \<Rightarrow> 'a list \<Rightarrow> (string \<times> 'a list) list \<Rightarrow> bool" where
  "grouped f rqs gs \<longleftrightarrow> distinct (map fst gs) \<and> (\<forall>a. group_of gs a = filter (\<lambda>rq. f rq = a) rqs)"

lemma grouped_Nil: "grouped f [] []"
  by (simp add: grouped_def group_of_def)

lemma grouped_add: "grouped f rqs gs \<Longrightarrow> grouped f (rqs @ [x]) (group_add (f x) x gs)"
  by (auto simp: grouped_def group_add_def group_of_def split: option.splits)

lemma message_fields:
  "produce_message topic key val None p = Inr rq \<Longrightarrow>
    pq_topic rq = topic \<and> pq_key rq = key \<and> pq_value rq = val \<and> pq_partition rq = Some p \<and> pq_timestamp rq = None"
  by (auto simp: produce_message_def Let_def)

lemma message_exists: "1 \<le> m \<Longrightarrow> \<exists>rq. message_of topic m kv rq"
proof -
  assume "1 \<le> m"
  then have "target m (fst kv) (case fst kv of None \<Rightarrow> 0 | Some k \<Rightarrow> uint (crc32 k 0) mod m)"
    by (auto simp: target_def split: option.split)
  then show ?thesis by (fastforce simp: message_of_def produce_message_def Let_def)
qed

lemma messages_exist: "1 \<le> m \<Longrightarrow> \<exists>rqs. list_all2 (message_of topic m) records rqs"
proof (induction records)
  case (Cons kv records)
  then show ?case using message_exists by (metis list_all2_Cons)
qed (simp add: exI [where x = "[]"])

lemma group_records_ok:
  assumes "running cf topic m D cw"
    and "group_records (cluster_net cf) topic rt records gs cw = (res, cw')"
    and "grouped (\<lambda>rq. the (map_of rt (the (pq_partition rq)))) done_rqs gs"
  shows "running cf topic m D cw' \<and> (\<forall>gs'. res = Inr gs' \<longrightarrow>
    (\<exists>rqs. list_all2 (message_of topic m) records rqs \<and> grouped (\<lambda>rq. the (map_of rt (the (pq_partition rq)))) (done_rqs @ rqs) gs'))"
  using assms
proof (induction records arbitrary: gs cw done_rqs)
  case Nil
  then show ?case by auto
next
  case (Cons kv records)
  obtain key val where kv: "kv = (key, val)" by (cases kv)
  obtain x cw1 where p: "client_partition_for (cluster_net cf) topic key cw = (x, cw1)" by (meson surj_pair)
  note k = client_partition_ok [OF Cons.prems(1) p]
  note run = Cons.prems(2) [unfolded kv group_records.simps p prod.case]
  show ?case
  proof (cases "\<exists>q a rq. x = Inr q \<and> map_of rt q = Some a \<and> produce_message topic key val None q = Inr rq")
    case False
    then have "(\<exists>e. res = Inl e) \<and> cw' = cw1" using run by (auto split: sum.splits option.splits)
    then show ?thesis using k by auto
  next
    case True
    then obtain q a rq where q: "x = Inr q" "map_of rt q = Some a" "produce_message topic key val None q = Inr rq" by blast
    let ?f = "\<lambda>rq. the (map_of rt (the (pq_partition rq)))"
    have a: "?f rq = a" using message_fields [OF q(3)] q(2) by simp
    have g: "grouped ?f (done_rqs @ [rq]) (group_add a rq gs)" using grouped_add [OF Cons.prems(3), of rq] a by simp
    have m: "message_of topic m kv rq" using k q by (auto simp: message_of_def kv)
    have rest: "group_records (cluster_net cf) topic rt records (group_add a rq gs) cw1 = (res, cw')" using run q by simp
    from Cons.IH [OF _ rest g] k m show ?thesis by (metis append.assoc append_Cons append_Nil list.rel_intros(2))
  qed
qed

section \<open>Sending the groups\<close>

text \<open>Each partition's requests are in one group.\<close>

definition group_routed :: "(int \<Rightarrow> string) \<Rightarrow> string \<Rightarrow> string \<times> produce_request list \<Rightarrow> bool" where
  "group_routed route topic g \<longleftrightarrow> (\<forall>rq \<in> set (snd g). pq_topic rq = topic \<and> (\<exists>p. pq_partition rq = Some p \<and> route p = fst g))"

lemma group_apart: "group_routed route topic (a, rqs) \<Longrightarrow> route q \<noteq> a \<Longrightarrow> to_part q rqs = []"
  by (auto simp: group_routed_def to_part_def filter_empty_conv)

lemma groups_apart:
  "\<forall>g \<in> set gs. group_routed route topic g \<Longrightarrow> route q \<notin> fst ` set gs \<Longrightarrow> to_part q (concat (map snd gs)) = []"
proof (induction gs)
  case Nil
  then show ?case by (simp add: to_part_def)
next
  case (Cons g gs)
  then show ?case using group_apart [of route topic "fst g" "snd g" q] by (simp add: to_part_append)
qed

lemma send_groups_ok:
  assumes "running cf topic m D cw" and "\<forall>g \<in> set gs. group_routed route topic g" and "distinct (map fst gs)"
    and "send_groups (cluster_net cf) gs cw = (res, cw')"
  shows "\<exists>D'. running cf topic m D' cw'
    \<and> delivered cf topic (concat (map snd gs)) (case res of Inl e \<Rightarrow> None | Inr pos \<Rightarrow> Some pos) D D'"
  using assms
proof (induction gs arbitrary: D cw res cw')
  case Nil
  have "delivered cf topic [] (Some []) D D" by (simp add: delivered_def delivered_at_def to_part_def)
  then show ?case using Nil by auto
next
  case (Cons g gs)
  obtain a rqs c w where g: "g = (a, rqs)" "cw = (c, w)" by (metis surj_pair)
  obtain rs code w1 where x: "nt_stream (cluster_net cf) a rqs w = ((rs, code), w1)" by (metis surj_pair)
  have R: "cluster_ok cf topic m D w" "0 < cf_vnodes cf" "is_valid_name topic" "1 \<le> m" "client_ok topic m c"
    using Cons.prems(1) by (simp_all add: running_def g)
  have rq: "\<forall>rq \<in> set rqs. pq_topic rq = topic" "\<forall>rq \<in> set rqs. \<exists>p. pq_partition rq = Some p"
    using Cons.prems(2) by (auto simp: group_routed_def g)
  from stream_call [OF R(1-4) rq(1) x] obtain D1 acks where s: "cluster_ok cf topic m D1 w1"
    "\<And>b. appended topic (reached cf a b (zip rqs acks)) (D b) (D1 b)"
    "\<And>b. \<forall>x \<in> set (reached cf a b (zip rqs acks)). well_placed (owner_at cf b) topic m x"
    "code = None \<longrightarrow> acks = rs \<and> length rs = length rqs \<and> broker_at cf a \<noteq> None" by blast
  have I: "running cf topic m D1 (stub a c, w1)" using R s(1) by (simp add: running_def client_ok_def stub_def)
  show ?case
  proof (cases code)
    case (Some e)
    then have "res = Inl (Rpc_Error e)" "cw' = (stub a c, w1)" using Cons.prems(4) by (simp_all add: g x)
    moreover have "delivered cf topic rqs None D D1" by (rule delivered_stream [OF R(2) rq(2) s(2,3)]) simp
    ultimately show ?thesis using I delivered_part by (auto simp: g)
  next
    case None
    let ?pos = "map (\<lambda>r. (pr_partition r, pr_offset r)) rs"
    obtain res2 cw2 where rest: "send_groups (cluster_net cf) gs (stub a c, w1) = (res2, cw2)" by (meson surj_pair)
    then have out: "cw' = cw2" "res = (case res2 of Inl e \<Rightarrow> Inl e | Inr r \<Rightarrow> Inr (?pos @ r))"
      using Cons.prems(4) None by (auto simp: g x split: sum.splits)
    have first: "delivered cf topic rqs (Some ?pos) D D1"
      by (rule delivered_stream [OF R(2) rq(2) s(2,3)]) (use s(4) None in simp)
    obtain D2 where 2: "running cf topic m D2 cw2"
      "delivered cf topic (concat (map snd gs)) (case res2 of Inl e \<Rightarrow> None | Inr pos \<Rightarrow> Some pos) D1 D2"
      using Cons.IH [OF I _ _ rest] Cons.prems(2,3) by auto
    have "to_part q rqs = [] \<or> to_part q (concat (map snd gs)) = []" for q
      using Cons.prems(2,3) group_apart [of route topic a rqs q] groups_apart [of gs route topic q] by (auto simp: g)
    from delivered_append [OF first 2(2) this] 2(1) out show ?thesis by (auto simp: g split: sum.split)
  qed
qed

text \<open>Grouping loses nothing and keeps the order within a partition.\<close>

lemma group_concat:
  assumes "distinct (map fst gs)" and "\<And>b. b \<noteq> a \<Longrightarrow> to_part q (group_of gs b) = []"
  shows "to_part q (concat (map snd gs)) = to_part q (group_of gs a)"
  using assms
proof (induction gs)
  case Nil
  then show ?case by (simp add: group_of_def)
next
  case (Cons g gs)
  have g: "group_of (g # gs) b = (if b = fst g then snd g else group_of gs b)" for b by (simp add: group_of_def)
  have out: "group_of gs (fst g) = []" using Cons.prems(1) map_of_eq_None_iff [of gs "fst g"] by (simp add: group_of_def)
  have "to_part q (group_of gs b) = []" if "b \<noteq> a" for b
    using Cons.prems(2) [OF that] out by (cases "b = fst g") (simp_all add: g to_part_def)
  with Cons have IH: "to_part q (concat (map snd gs)) = to_part q (group_of gs a)" by simp
  show ?case
  proof (cases "fst g = a")
    case True
    then show ?thesis using IH out g by (simp add: to_part_append to_part_def)
  next
    case False
    then have "to_part q (snd g) = []" using Cons.prems(2) [of "fst g"] by (simp add: g)
    then show ?thesis using False IH g by (simp add: to_part_append)
  qed
qed

lemma grouped_concat:
  assumes "grouped (\<lambda>rq. route (the (pq_partition rq))) rqs gs"
  shows "to_part q (concat (map snd gs)) = to_part q rqs"
proof -
  have g: "group_of gs a = filter (\<lambda>rq. route (the (pq_partition rq)) = a) rqs" for a using assms by (simp add: grouped_def)
  have "to_part q (group_of gs b) = (if b = route q then to_part q rqs else [])" for b
    unfolding g to_part_def filter_filter by (auto simp: filter_empty_conv intro: filter_cong)
  with group_concat [of gs "route q" q] assms show ?thesis by (simp add: grouped_def)
qed

lemma grouped_routed:
  assumes "grouped (\<lambda>rq. route (the (pq_partition rq))) rqs gs" and "list_all2 (message_of topic m) records rqs"
  shows "\<forall>g \<in> set gs. group_routed route topic g"
proof
  fix g assume "g \<in> set gs"
  with assms(1) have "snd g = filter (\<lambda>rq. route (the (pq_partition rq)) = fst g) rqs"
    by (cases g) (auto simp: grouped_def group_of_def dest: map_of_is_SomeI split: option.splits)
  moreover have "pq_topic rq = topic \<and> (\<exists>p. pq_partition rq = Some p)" if "rq \<in> set rqs" for rq
    using assms(2) that by (auto simp: list_all2_conv_all_nth in_set_conv_nth message_of_def dest!: message_fields)
  ultimately show "group_routed route topic g" by (force simp: group_routed_def)
qed

section \<open>Properties\<close>


text \<open>
  Property C10. What \<open>send_batch\<close> does to the cluster, whatever calls and answers are lost and however stale
  the routing is. Each record becomes one request for a partition it belongs to. At the end of a partition,
  on its owner and on no other broker, a prefix of the requests for it is added, each once and in the order
  of the batch, and nothing else changes anywhere. If \<open>send_batch\<close> returns, all of the batch is there, and
  the positions it returns for a partition are the offsets of its records, in order.
\<close>

theorem batch_keeps_order:
  assumes "running cf topic m D cw" and "send_batch (cluster_net cf) topic records cw = (res, cw')"
  shows "\<exists>rqs D'. list_all2 (message_of topic m) records rqs \<and> running cf topic m D' cw'
    \<and> delivered cf topic rqs (case res of Inl e \<Rightarrow> None | Inr pos \<Rightarrow> Some pos) D D'"
proof -
  have m: "1 \<le> m" using assms(1) by (simp add: running_def)
  have untouched: "\<exists>rqs D'. list_all2 (message_of topic m) records rqs \<and> running cf topic m D' cw' \<and> delivered cf topic rqs None D D'"
    if "running cf topic m D cw'"
    using messages_exist [OF m, of topic records] that delivered_nothing by fastforce
  obtain x cw1 where r: "routing_of (cluster_net cf) topic False cw = (x, cw1)" by (meson surj_pair)
  note k1 = routing_of_ok [OF assms(1) r]
  show ?thesis
  proof (cases x)
    case (Inl e)
    with k1 assms(2) r have "running cf topic m D cw'" "res = Inl e" by (auto simp: send_batch_def)
    then show ?thesis using untouched by auto
  next
    case (Inr rt)
    obtain y cw2 where g: "group_records (cluster_net cf) topic rt records [] cw1 = (y, cw2)" by (meson surj_pair)
    have k2: "running cf topic m D cw2 \<and> (\<forall>gs. y = Inr gs \<longrightarrow> (\<exists>rqs. list_all2 (message_of topic m) records rqs
        \<and> grouped (\<lambda>rq. the (map_of rt (the (pq_partition rq)))) ([] @ rqs) gs))"
      by (rule group_records_ok [OF _ g grouped_Nil]) (use k1 in simp)
    show ?thesis
    proof (cases y)
      case (Inl e)
      with k2 assms(2) r Inr g have "running cf topic m D cw'" "res = Inl e" by (auto simp: send_batch_def)
      then show ?thesis using untouched by auto
    next
      case (Inr gs)
      then obtain rqs where q: "list_all2 (message_of topic m) records rqs"
        "grouped (\<lambda>rq. the (map_of rt (the (pq_partition rq)))) rqs gs" using k2 by auto
      have run: "send_groups (cluster_net cf) gs cw2 = (res, cw')" using assms(2) r \<open>x = Inr rt\<close> g Inr by (simp add: send_batch_def)
      from q(2) have d: "distinct (map fst gs)" by (simp add: grouped_def)
      have k: "running cf topic m D cw2" using k2 by simp
      from send_groups_ok [OF k grouped_routed [OF q(2,1)] d run] obtain D' where "running cf topic m D' cw'"
        "delivered cf topic (concat (map snd gs)) (case res of Inl e \<Rightarrow> None | Inr pos \<Rightarrow> Some pos) D D'" by blast
      moreover have "delivered cf topic (concat (map snd gs)) pos D D' \<longleftrightarrow> delivered cf topic rqs pos D D'" for pos
        by (simp only: delivered_def grouped_concat [OF q(2)])
      ultimately show ?thesis using q(1) by blast
    qed
  qed
qed

section \<open>Concrete batches\<close>


text \<open>Three records without a key take turns.\<close>

lemma sample_batch:
  obtains w pos cw' where "running sample_config ''a'' 2 (\<lambda>b. empty_contents) (sample_client, w)"
    "send_batch (cluster_net sample_config) ''a'' (replicate 3 (None, Some [97])) (sample_client, w) = (Inr pos, cw')"
    "map fst pos = [0, 1, 0]"
proof -
  let ?rq = "\<lambda>p. \<lparr>pq_topic = ''a'', pq_key = None, pq_value = Some [97], pq_timestamp = None, pq_correlation = None, pq_partition = Some p\<rparr>"
  let ?r = "ring_at sample_config 0" and ?rqs = "[(?rq 0, 0 :: int, 0 :: rat), (?rq 1, 0, 0), (?rq 0, 0, 0)]"
  obtain w0 where w0: "running sample_config ''a'' 2 (\<lambda>b. empty_contents) (sample_client, w0)" "cu_faults w0 = []"
    by (rule sample_running)
  let ?w = "w0\<lparr>cu_clock := 0\<rparr>"
  have w: "running sample_config ''a'' 2 (\<lambda>b. empty_contents) (sample_client, ?w)" "cu_faults ?w = []"
    using w0 by (auto simp: running_def intro: cluster_ok_stores)
  then have here: "store_ok (owner_at sample_config 0) empty_contents (cu_stores ?w 0)" "metas (snd (cu_stores ?w 0)) ''a'' = Some (Inr 2)"
    by (auto simp: running_def cluster_ok_def)
  obtain rs err s' where p: "produce_stream hash_broker_for ?r ?rqs (cu_stores ?w 0) = ((rs, err), s')" by (metis surj_pair)
  have ring: "in_ring hash_broker_for ?r" by (rule ring_at_built(3)) simp_all
  have t: "\<forall>x \<in> set ?rqs. pq_topic (fst x) = ''a''" by simp
  from stream_outcomes [OF ring _ _ here t p] obtain C' where
    k: "\<forall>x \<in> set (zip (map fst ?rqs) rs). well_placed (owner_at sample_config 0) ''a'' 2 x"
      "appended ''a'' (zip (map fst ?rqs) rs) empty_contents C'"
      "case err of None \<Rightarrow> length rs = length ?rqs | Some e \<Rightarrow> length rs < length ?rqs
        \<and> stream_refusal hash_broker_for ?r ''a'' 2 C' (fst (?rqs ! length rs)) (fst (snd (?rqs ! length rs))) e"
    by auto
  have few: "fst (C' ''a'' p) = 0 \<and> length (snd (C' ''a'' p)) \<le> 3" for p
  proof -
    have "fst (C' ''a'' p) = 0"
      "list_all2 answered (snd (C' ''a'' p)) (filter (\<lambda>x. pr_partition (snd x) = p) (zip (map fst ?rqs) rs))"
      using k(2) [unfolded appended_def, rule_format, of "''a''" p] by (simp_all add: empty_contents_def)
    moreover have "length (filter (\<lambda>x. pr_partition (snd x) = p) (zip (map fst ?rqs) rs)) \<le> length (zip (map fst ?rqs) rs)"
      by (rule length_filter_le)
    ultimately show ?thesis by (auto dest: list_all2_lengthD)
  qed
  have enc: "encode (stamped (fst (C' ''a'' p) + int (length (snd (C' ''a'' p)))) None (Some [97]) None 0) \<noteq> Inl x" for p x
  proof -
    have "encodable (stamped (fst (C' ''a'' p) + int (length (snd (C' ''a'' p)))) None (Some [97]) None 0)"
      using few [of p] sample_encodable by (auto simp: encodable_def stamped_def in_i64_def payload_size_def)
    then show ?thesis using encode_encodable by fastforce
  qed
  have "err = None"
  proof (rule ccontr)
    assume "err \<noteq> None"
    with k(3) obtain e where e: "length rs < 3" "stream_refusal hash_broker_for ?r ''a'' 2 C'
      (fst (?rqs ! length rs)) (fst (snd (?rqs ! length rs))) e" by auto
    then have "\<exists>q \<in> {0, 1}. stream_refusal hash_broker_for ?r ''a'' 2 C' (?rq q) 0 e"
      by (auto simp: less_Suc_eq numeral_3_eq_3)
    then show False using enc sample_ring(2) by (auto simp: stream_refusal_def)
  qed
  with k(3) obtain a b c where rs: "rs = [a, b, c]" by (auto simp: length_Suc_conv eval_nat_numeral)
  with k(1) have parts: "pr_partition a = 0" "pr_partition b = 1" "pr_partition c = 0" by (simp_all add: well_placed_def)
  have "serve_stream sample_config [?rq 0, ?rq 1, ?rq 0] 0 0 (cu_stores w0 0) = ((rs, None), s')"
    using p \<open>err = None\<close> by (simp add: serve_stream_def del: produce_stream.simps)
  then have "nt_stream (cluster_net sample_config) ''b'' [?rq 0, ?rq 1, ?rq 0] ?w = ((rs, None), ?w\<lparr>cu_stores := (cu_stores ?w)(0 := s')\<rparr>)"
    using w(2) by (simp add: cluster_net_def call_def next_fault_def sample_ring)
  then have "send_batch (cluster_net sample_config) ''a'' (replicate 3 (None, Some [97])) (sample_client, ?w)
      = (Inr (map (\<lambda>r. (pr_partition r, pr_offset r)) rs), (stub ''b'' (sample_client\<lparr>cl_next := 3\<rparr>), ?w\<lparr>cu_stores := (cu_stores ?w)(0 := s')\<rparr>))"
    by (simp add: send_batch_def eval_nat_numeral client_partition_for_def routing_of_def partition_for_def
        produce_message_def group_add_def)
  then show ?thesis by (rule that [OF w(1)]) (simp add: rs parts)
qed

theorem batch_keeps_order_witness:
  "\<exists>w pos cw'. send_batch (cluster_net sample_config) ''a'' (replicate 3 (None, Some [97])) (sample_client, w) = (Inr pos, cw')
    \<and> map fst pos = [0, 1, 0] \<and> map snd (filter (\<lambda>x. fst x = 0) pos) = [0, 1]"
proof -
  obtain w pos cw' where s: "running sample_config ''a'' 2 (\<lambda>b. empty_contents) (sample_client, w)"
    "send_batch (cluster_net sample_config) ''a'' (replicate 3 (None, Some [97])) (sample_client, w) = (Inr pos, cw')"
    "map fst pos = [0, 1, 0]" by (rule sample_batch)
  from batch_keeps_order [OF s(1,2)] obtain rqs D' where D': "running sample_config ''a'' 2 D' cw'"
    "delivered sample_config ''a'' rqs (Some pos) (\<lambda>b. empty_contents) D'" by auto
  let ?os = "map snd (filter (\<lambda>x. fst x = 0) pos)"
  have "delivered_at True (to_part 0 rqs) (Some ?os) (0, []) (D' 0 ''a'' 0)"
    using D'(2) [unfolded delivered_def, rule_format, of 0 "''a''" 0] sample_ring(2) [of 0 "''a''"] by (simp add: empty_contents_def)
  then obtain xs where xs: "D' 0 ''a'' 0 = (0, xs)" "?os = map rec_offset xs"
    by (auto simp: delivered_at_def prod_eq_iff)
  have "store_ok (owner_at sample_config 0) (D' 0) (cu_stores (snd cw') 0)" using D'(1) by (simp add: running_def cluster_ok_def)
  from contents_sequential [OF this, of "''a''" 0] xs(1) have seq: "sequential 0 xs" by simp
  from s(3) obtain x y z where pos: "pos = [x, y, z]" "fst x = 0" "fst y = 1" "fst z = 0" by auto
  then have "length xs = 2" using arg_cong [OF xs(2), of length] by simp
  then obtain u v where "xs = [u, v]" by (auto simp: length_Suc_conv eval_nat_numeral)
  with seq xs(2) have "?os = [0, 1]" by simp
  with s(2,3) show ?thesis by (intro exI [where x = w] exI [where x = pos] exI [where x = cw']) simp
qed

end
