(* ===== verification/Demo_Cluster.thy ===== *)
theory Demo_Cluster
  imports Demo Batch
begin

text \<open>
  The commands of \<open>scripts/demo.py\<close> before the cluster of \<open>Cluster_Run\<close>, as \<open>scripts/cluster.sh\<close> starts it:
  broker \<open>b\<close> at \<open>localhost:909b\<close>, its REST API at \<open>localhost:808b\<close>.
\<close>

section \<open>The cluster behind the script\<close>

definition serve_count :: "config \<Rightarrow> int \<Rightarrow> rat \<Rightarrow> store_state \<Rightarrow> (grpc_code + int) \<times> store_state" where
  "serve_count cf b t s =
     (case metadata hash_broker_for (ring_at cf b) [] t s of (res, s1) \<Rightarrow> (map_sum id mr_broker_count (reply_of res), s1))"

abbreviation admin_base :: "int \<Rightarrow> string" where
  "admin_base b \<equiv> ''http://localhost:808'' @ int_text b"

definition http_call :: "config \<Rightarrow> cluster http" where
  "http_call cf rq w =
     (case next_fault w of
        (ft, w1) \<Rightarrow>
          (case (if ft = Request_Lost then None
                 else List.find (\<lambda>b. prefix (admin_base b @ ''/'') (hr_url rq)) [0 .. cf_brokers cf - 1]) of
             None \<Rightarrow> (Inl Unreachable, w1)
           | Some b \<Rightarrow>
               (case admin_app (owner_at cf b) (ring_at cf b) (admin_base b) (cu_clock w1) rq (cu_stores w1 b) of
                  (x, s) \<Rightarrow> ((if ft = Response_Lost then Inl Unreachable else x), w1\<lparr>cu_stores := (cu_stores w1)(b := s)\<rparr>))))"

definition cluster_demo :: "config \<Rightarrow> cluster demo_net" where
  "cluster_demo cf = net.extend (cluster_net cf)
     \<lparr>dn_count = \<lambda>a. call cf a (serve_count cf) (Inl Code_Unavailable), dn_http = http_call cf\<rparr>"

lemma cluster_demo_calls [simp]:
  "nt_metadata (cluster_demo cf) = nt_metadata (cluster_net cf)" "nt_produce (cluster_demo cf) = nt_produce (cluster_net cf)"
  "nt_now (cluster_demo cf) = cu_clock" "nt_sleep (cluster_demo cf) = nt_sleep (cluster_net cf)"
  "dn_count (cluster_demo cf) a = call cf a (serve_count cf) (Inl Code_Unavailable)"
  by (simp_all add: cluster_demo_def net.extend_def cluster_net_def)

lemma cluster_demo_clocked: "clocked (net.truncate (cluster_demo cf))"
proof -
  have "net.truncate (cluster_demo cf) = cluster_net cf" by (simp add: cluster_demo_def net.truncate_def net.extend_def)
  then show ?thesis using cluster.clocked_axioms by simp
qed

text \<open>A cluster that serves a topic of \<open>m\<close> partitions, with the contents \<open>D\<close>.\<close>

definition serving :: "config \<Rightarrow> string \<Rightarrow> int \<Rightarrow> (int \<Rightarrow> contents) \<Rightarrow> cluster \<Rightarrow> bool" where
  "serving cf topic m D w \<longleftrightarrow> 0 < cf_vnodes cf \<and> is_valid_name topic \<and> 1 \<le> m \<and> cluster_ok cf topic m D w"

text \<open>A call whose handler changes no contents.\<close>

lemma call_keeps:
  assumes ok: "cluster_ok cf topic m D w" and run: "call cf a serve lost w = (x, w')"
    and serve: "\<And>b t y s. broker_at cf a = Some b \<Longrightarrow> 0 \<le> b \<Longrightarrow> b < cf_brokers cf \<Longrightarrow> store_ok (owner_at cf b) (D b) (cu_stores w b) \<Longrightarrow>
      metas (snd (cu_stores w b)) topic = Some (Inr m) \<Longrightarrow> serve b t (cu_stores w b) = (y, s) \<Longrightarrow>
      store_ok (owner_at cf b) (D b) s \<and> metas (snd s) topic = Some (Inr m) \<and> P b y"
  shows "cluster_ok cf topic m D w' \<and> (x = lost \<or> (\<exists>b. broker_at cf a = Some b \<and> P b x))"
  using run
proof (cases rule: call_cases)
  case 1
  then show ?thesis using cluster_ok_stores [OF ok] by simp
next
  case (2 b s)
  have b: "0 \<le> b" "b < cf_brokers cf" using broker_at_in [OF 2(1)] by simp_all
  then have here: "store_ok (owner_at cf b) (D b) (cu_stores w b)" "metas (snd (cu_stores w b)) topic = Some (Inr m)"
    using ok by (auto simp: cluster_ok_def)
  obtain y where y: "serve b (cu_clock w') (cu_stores w b) = (y, s)" using 2(3) by (metis prod.collapse)
  note k = serve [OF 2(1) b here y]
  have "cluster_ok cf topic m (D(b := D b)) w'"
    by (rule cluster_ok_upd [OF ok _ _ 2(4)]) (use k in simp_all)
  then show ?thesis using k 2(1,2) y by auto
qed

text \<open>As long as nothing is lost, an answer comes from the broker that was called.\<close>

lemma call_delivered:
  assumes "cu_faults w = []" "call cf a serve lost w = (x, w')"
  shows "cu_faults w' = [] \<and> (\<forall>b. broker_at cf a = Some b \<longrightarrow> x = fst (serve b (cu_clock w) (cu_stores w b)))"
  using assms by (auto simp: call_def next_fault_def split: option.splits prod.splits)

section \<open>Routing and size\<close>

lemma serve_count_ok:
  assumes ok: "store_ok (owner_at cf b) C s" and run: "serve_count cf b t s = (res, s')"
    and b: "0 \<le> b" "b < cf_brokers cf" "0 < cf_vnodes cf"
  shows "store_ok (owner_at cf b) C s' \<and> metas (snd s') = metas (snd s) \<and> (\<forall>n. res = Inr n \<longrightarrow> n = cf_brokers cf)"
proof -
  obtain ds s1 where d: "describe_topics hash_broker_for (ring_at cf b) False (store_names s) t s = (ds, s1)" by (meson surj_pair)
  have "rg_brokers (ring_at cf b) = cf_brokers cf" using ring_at_built(1) [OF b] by (auto simp: hash_ring_init_ok)
  with describe_topics_described [OF ok refl d] run d show ?thesis
    by (auto simp: serve_count_def metadata_def split: sum.splits)
qed

lemma serve_routing_ok:
  assumes ok: "store_ok (owner_at cf b) C s" and meta: "metas (snd s) topic = Some (Inr m)" and name: "is_valid_name topic"
    and run: "serve_metadata cf [topic] b t s = (res, s')" and b: "0 \<le> b" "b < cf_brokers cf" "0 < cf_vnodes cf"
  shows "store_ok (owner_at cf b) C s' \<and> metas (snd s') topic = Some (Inr m)
    \<and> (\<forall>ts. res = Inr ts \<longrightarrow> (\<exists>es. ts = [(topic, es)] \<and> map fst es = [0 .. m - 1]
        \<and> (\<forall>x \<in> set es. 0 \<le> fst (snd x) \<and> fst (snd x) < cf_brokers cf \<and> owner_at cf (fst (snd x)) topic (fst x))))"
proof -
  obtain ds s1 where d: "describe_topics hash_broker_for (ring_at cf b) True [topic] t s = (ds, s1)" by (meson surj_pair)
  note k = describe_topics_described [OF ok refl d]
  note r = ring_at_built [OF b]
  have owner: "0 \<le> o' \<and> o' < cf_brokers cf \<and> owner_at cf o' topic p"
    if "hash_broker_for (ring_at cf b) topic p = Inr o'" "0 \<le> p" for o' p
  proof -
    have o: "0 \<le> o'" "o' < rg_brokers (ring_at cf b)"
      using r(3) [unfolded in_ring_def, rule_format, OF that(2), of topic] that(1) by auto
    moreover have "rg_brokers (ring_at cf b) = cf_brokers cf" using r(1) by (auto simp: hash_ring_init_ok)
    ultimately have o: "0 \<le> o'" "o' < cf_brokers cf" by simp_all
    note r' = ring_at_built [OF o b(3)]
    from same_cluster(1) [OF r(1) r'(1), of topic p] that(1) r'(2) o show ?thesis by (simp add: ring_owns_iff)
  qed
  have "\<exists>es. ts = [(topic, es)] \<and> map fst es = [0 .. m - 1]
      \<and> (\<forall>x \<in> set es. 0 \<le> fst (snd x) \<and> fst (snd x) < cf_brokers cf \<and> owner_at cf (fst (snd x)) topic (fst x))"
    if ts: "ds = Inr ts" for ts
  proof -
    obtain es where es: "ts = [(topic, es)]" "partition_entries hash_broker_for (ring_at cf b) topic [0 .. m - 1] = Inr es"
      using ts k meta name by (auto split: sum.splits)
    note e = partition_entries_sound [OF es(2)]
    then have "0 \<le> fst x" if "x \<in> set es" for x using that by (metis atLeastAtMost_iff image_eqI list.set_map set_upto)
    with e owner es(1) show ?thesis by auto
  qed
  moreover have "s' = s1" "res = map_sum code_of id ds"
    using run d by (auto simp: serve_metadata_def metadata_def split: sum.splits)
  moreover have "store_ok (owner_at cf b) C s1" "metas (snd s1) topic = Some (Inr m)" using k meta by simp_all
  ultimately show ?thesis by (cases ds) simp_all
qed

text \<open>A routing table that is right: each partition once, at its owner.\<close>

definition places :: "config \<Rightarrow> string \<Rightarrow> int \<Rightarrow> placing \<Rightarrow> bool" where
  "places cf topic m rt \<longleftrightarrow> map fst rt = [0 .. m - 1]
     \<and> (\<forall>(p, b) \<in> set rt. 0 \<le> b \<and> b < cf_brokers cf \<and> owner_at cf b topic p)"

lemma placing_fold:
  "distinct (map fst rt @ map fst es) \<Longrightarrow>
    fold (\<lambda>(p, b, a) rt. al_set p b rt) es rt = rt @ map (\<lambda>(p, b, a). (p, b)) es"
proof (induction es arbitrary: rt)
  case (Cons e es)
  obtain p b a where e: "e = (p, b, a)" by (cases e)
  have "p \<notin> fst ` set rt" using Cons.prems by (auto simp: e)
  then have "al_set p b rt = rt @ [(p, b)]" by (induction rt) auto
  with Cons.IH [of "rt @ [(p, b)]"] Cons.prems show ?case by (simp add: e)
qed simp

lemma routing_call:
  assumes "serving cf topic m D w" and "demo_routing (cluster_demo cf) topic w = (res, w')"
  shows "serving cf topic m D w' \<and> (\<forall>rt. res = Inr rt \<longrightarrow> places cf topic m rt)"
proof -
  from assms(1) have S: "0 < cf_vnodes cf" "is_valid_name topic" "1 \<le> m" "cluster_ok cf topic m D w" by (simp_all add: serving_def)
  let ?P = "\<lambda>b res. \<forall>ts. res = Inr ts \<longrightarrow> (\<exists>es. ts = [(topic, es)] \<and> map fst es = [0 .. m - 1]
        \<and> (\<forall>x \<in> set es. 0 \<le> fst (snd x) \<and> fst (snd x) < cf_brokers cf \<and> owner_at cf (fst (snd x)) topic (fst x)))"
  obtain x w1 where x: "call cf (demo_address (Some 0)) (serve_metadata cf [topic]) (Inl Code_Unavailable) w = (x, w1)"
    by (meson surj_pair)
  have k: "cluster_ok cf topic m D w1 \<and> (x = Inl Code_Unavailable \<or> (\<exists>b. broker_at cf (demo_address (Some 0)) = Some b \<and> ?P b x))"
    by (rule call_keeps [OF S(4) x]) (rule serve_routing_ok, assumption+, rule S(2), assumption+, rule S(1))
  have run: "(res, w') = (case x of Inl code \<Rightarrow> (Inl (Demo_Rpc code), w1) | Inr [] \<Rightarrow> (Inl Demo_Index_Error, w1)
      | Inr (t # ts) \<Rightarrow> (Inr (fold (\<lambda>(p, b, a) rt. al_set p b rt) (snd t) []), w1))"
    using assms(2) x by (simp add: demo_routing_def cluster_net_def split: sum.splits list.splits)
  show ?thesis
  proof (cases x)
    case (Inl e)
    then show ?thesis using run k S by (simp add: serving_def)
  next
    case (Inr ts)
    with k obtain es where es: "ts = [(topic, es)]" "map fst es = [0 .. m - 1]"
      "\<forall>x \<in> set es. 0 \<le> fst (snd x) \<and> fst (snd x) < cf_brokers cf \<and> owner_at cf (fst (snd x)) topic (fst x)" by auto
    then have "res = Inr (map (\<lambda>(p, b, a). (p, b)) es)" using run Inr placing_fold [of "[]" es] by simp
    moreover have "map fst (map (\<lambda>(p, b, a). (p, b)) es) = map fst es" by auto
    then have "places cf topic m (map (\<lambda>(p, b, a). (p, b)) es)" using es(2,3) unfolding places_def by auto
    moreover have "w' = w1" using run Inr es(1) by simp
    ultimately show ?thesis using k S by (simp add: serving_def)
  qed
qed

lemma count_call:
  assumes "serving cf topic m D w" and "demo_count (cluster_demo cf) w = (res, w')"
  shows "serving cf topic m D w' \<and> (\<forall>n. res = Inr n \<longrightarrow> n = cf_brokers cf)"
proof -
  from assms(1) have S: "0 < cf_vnodes cf" "cluster_ok cf topic m D w" by (simp_all add: serving_def)
  obtain x w1 where x: "call cf (demo_address (Some 0)) (serve_count cf) (Inl Code_Unavailable) w = (x, w1)"
    by (meson surj_pair)
  have k: "cluster_ok cf topic m D w1 \<and> (x = Inl Code_Unavailable
      \<or> (\<exists>b. broker_at cf (demo_address (Some 0)) = Some b \<and> (\<forall>n. x = Inr n \<longrightarrow> n = cf_brokers cf)))"
  proof (rule call_keeps [OF S(2) x])
    fix b t y s assume b: "0 \<le> b" "b < cf_brokers cf" "store_ok (owner_at cf b) (D b) (cu_stores w b)"
      "metas (snd (cu_stores w b)) topic = Some (Inr m)" "serve_count cf b t (cu_stores w b) = (y, s)"
    from serve_count_ok [OF b(3,5,1,2) S(1)] b(4)
    show "store_ok (owner_at cf b) (D b) s \<and> metas (snd s) topic = Some (Inr m) \<and> (\<forall>n. y = Inr n \<longrightarrow> n = cf_brokers cf)" by simp
  qed
  then show ?thesis using assms x by (auto simp: demo_count_def serving_def split: sum.splits)
qed

text \<open>Where \<open>cluster.sh\<close> puts the brokers.\<close>

lemma find_only: "b \<in> set xs \<Longrightarrow> P b \<Longrightarrow> \<forall>x \<in> set xs. P x \<longrightarrow> x = b \<Longrightarrow> List.find P xs = Some b"
  by (induction xs) fastforce+

lemma py_format_plain:
  "\<forall>c \<in> set xs. c \<noteq> CHR ''{'' \<and> c \<noteq> CHR ''}'' \<Longrightarrow>
    py_format n (xs @ ys) = bind_result (py_format n ys) (\<lambda>s. Inr (xs @ s))"
proof (induction xs)
  case (Cons c xs)
  then show ?case by (cases "py_format n ys") simp_all
qed (cases "py_format n ys"; simp)

lemma py_format_ordinal: "py_format n ''{ordinal}'' = Inr (int_text n)"
  by simp

lemma local_broker:
  assumes "cf_template cf = ''localhost:909{ordinal}''" "0 < cf_vnodes cf" "0 \<le> b" "b < cf_brokers cf"
  shows "broker_at cf (demo_address (Some b)) = Some b" "address_of (ring_at cf b) c = Inr a \<Longrightarrow> a = demo_address (Some c)"
    "0 \<le> c \<Longrightarrow> c < cf_brokers cf \<Longrightarrow> address_of (ring_at cf b) c = Inr (demo_address (Some c))"
proof -
  have "\<forall>c \<in> set ''localhost:909''. c \<noteq> CHR ''{'' \<and> c \<noteq> CHR ''}''" by simp
  from py_format_plain [OF this, of _ "''{ordinal}''"]
  have t: "py_format n ''localhost:909{ordinal}'' = Inr (''localhost:909'' @ int_text n)" for n
    by (simp only: py_format_ordinal bind_result.simps append.simps)
  have a: "address_of (ring_at cf b') c = (if 0 \<le> c \<and> c < cf_brokers cf then Inr (demo_address (Some c)) else Inl ValueError)"
    if "0 \<le> b'" "b' < cf_brokers cf" for b' c
    using ring_at_built(1) [OF that assms(2)] assms(1)
    by (auto simp: hash_ring_init_ok address_of_def t demo_address_def)
  show "broker_at cf (demo_address (Some b)) = Some b"
    unfolding broker_at_def
    by (rule find_only) (use assms(3,4) a in \<open>auto simp: demo_address_def\<close>)
  show "address_of (ring_at cf b) c = Inr a \<Longrightarrow> a = demo_address (Some c)"
    "0 \<le> c \<Longrightarrow> c < cf_brokers cf \<Longrightarrow> address_of (ring_at cf b) c = Inr (demo_address (Some c))"
    using a [OF assms(3,4)] by (auto split: if_split_asm)
qed

section \<open>Asking the wrong broker\<close>

lemma serve_produce_foreign:
  assumes cf: "0 \<le> b" "b < cf_brokers cf" "0 < cf_vnodes cf" "cf_template cf = ''localhost:909{ordinal}''"
    and ok: "store_ok (owner_at cf b) C s" and meta: "metas (snd s) topic = Some (Inr m)" and name: "is_valid_name topic"
    and p: "0 \<le> p" "p < m" "\<not> owner_at cf b topic p"
    and run: "serve_produce cf (demo_request topic key val p) b t s = (res, s')"
  shows "store_ok (owner_at cf b) C s' \<and> metas (snd s') topic = Some (Inr m) \<and> res = Inl Code_Failed_Precondition"
proof -
  let ?rq = "demo_request topic key val p"
  have q: "pq_topic ?rq = topic" "pq_partition ?rq = Some p" by (simp_all add: demo_request_def)
  obtain res1 s1 where r: "produce hash_broker_for (ring_at cf b) ?rq \<lfloor>t * 1000000000\<rfloor> t s = (res1, s1)" by (meson surj_pair)
  have d: "p = destination (so_topics (fst s)) m (pq_key ?rq) (pq_partition ?rq)" by (simp add: destination_def q)
  have m: "1 \<le> m" using p by simp
  note ring = ring_at_built [OF cf(1-3)]
  note k = produce_outcomes [OF ring(3) ok _ _ m r d refl refl, unfolded q]
  have "metas (snd s1) = metas (snd s) \<and> store_ok (owner_at cf b) C s1 \<and> res1 = Inl (redirect_to hash_broker_for (ring_at cf b) topic p)"
    using k name meta p by (simp add: ring_owns_iff)
  moreover have "code_of (redirect_to hash_broker_for (ring_at cf b) topic p) = Code_Failed_Precondition"
  proof (rule redirect_elsewhere [OF ring(3) p(1,3)])
    fix o' assume o: "0 \<le> o'" "o' < rg_brokers (ring_at cf b)" and red: "redirect_to hash_broker_for (ring_at cf b) topic p
        = (case address_of (ring_at cf b) o' of Inl e \<Rightarrow> Unknown e | Inr a \<Rightarrow> Failed_Precondition p o' a)"
    have "rg_brokers (ring_at cf b) = cf_brokers cf" using ring(1) by (auto simp: hash_ring_init_ok)
    with local_broker(3) [OF cf(4,3,1,2), of o'] o red show ?thesis by simp
  qed
  ultimately show ?thesis using run r meta by (auto simp: serve_produce_def)
qed

lemma places_routed:
  "places cf topic m rt \<Longrightarrow> routed rt p = Inr b \<Longrightarrow> 0 \<le> p \<and> p < m \<and> 0 \<le> b \<and> b < cf_brokers cf \<and> owner_at cf b topic p"
proof -
  assume a: "places cf topic m rt" "routed rt p = Inr b"
  then have "(p, b) \<in> set rt" by (auto simp: routed_def dest: map_of_SomeD split: option.splits)
  then have "p \<in> set (map fst rt)" by force
  moreover have "0 \<le> b \<and> b < cf_brokers cf \<and> owner_at cf b topic p" using a(1) \<open>(p, b) \<in> set rt\<close> by (auto simp: places_def)
  ultimately have "p \<in> set (map fst rt)" "0 \<le> b \<and> b < cf_brokers cf \<and> owner_at cf b topic p" by simp_all
  with a(1) show ?thesis by (simp add: places_def)
qed

lemma routing_faults:
  assumes "cu_faults w = []" "demo_routing (cluster_demo cf) topic w = (r, w')"
  shows "cu_faults w' = []"
proof -
  obtain x w1 where x: "call cf (demo_address (Some 0)) (serve_metadata cf [topic]) (Inl Code_Unavailable) w = (x, w1)"
    by (meson surj_pair)
  then have "w' = w1" using assms(2) by (auto simp: demo_routing_def cluster_net_def split: sum.splits list.splits)
  with call_delivered [OF assms(1) x] show ?thesis by simp
qed

lemma count_faults:
  assumes "cu_faults w = []" "demo_count (cluster_demo cf) w = (r, w')"
  shows "cu_faults w' = []"
proof -
  obtain x w1 where x: "call cf (demo_address (Some 0)) (serve_count cf) (Inl Code_Unavailable) w = (x, w1)"
    by (meson surj_pair)
  then have "w' = w1" using assms(2) by (auto simp: demo_count_def split: sum.splits)
  with call_delivered [OF assms(1) x] show ?thesis by simp
qed

text \<open>
  Property C27. The command that asks a broker for a partition of another. In a cluster of two brokers or more,
  as \<open>cluster.sh\<close> starts it, no broker ever accepts the record, whatever is lost on the way: the line that
  reports a split brain is never printed, and no broker's records change. If the command gets to the question,
  it names the owner and is refused, with \<open>FAILED_PRECONDITION\<close> if no call is lost.
\<close>

theorem wrong_is_refused:
  assumes "serving cf topic m D w" and "cf_template cf = ''localhost:909{ordinal}''" and "2 \<le> cf_brokers cf"
    and "demo_wrong (cluster_demo cf) topic part w = ((ls, err), w')"
  shows "serving cf topic m D w' \<and> Accepted \<notin> set ls
    \<and> (err = None \<longrightarrow> (\<exists>p b code. demo_int part = Inr p \<and> owner_at cf b topic p
         \<and> ls = [Asking p b ((b + 1) mod cf_brokers cf), Refused code]
         \<and> (cu_faults w = [] \<longrightarrow> code = Code_Failed_Precondition)))"
proof -
  let ?net = "cluster_demo cf" and ?n = "cf_brokers cf"
  from assms(1) have S: "0 < cf_vnodes cf" "is_valid_name topic" "1 \<le> m" by (simp_all add: serving_def)
  obtain rr w1 where 1: "demo_routing ?net topic w = (rr, w1)" by (meson surj_pair)
  note k1 = routing_call [OF assms(1) 1]
  obtain rn w2 where 2: "demo_count ?net w1 = (rn, w2)" by (meson surj_pair)
  have k2: "serving cf topic m D w2 \<and> (\<forall>n. rn = Inr n \<longrightarrow> n = ?n)" by (rule count_call [OF _ 2]) (use k1 in simp)
  show ?thesis
  proof (cases "\<exists>p rt b. demo_int part = Inr p \<and> rr = Inr rt \<and> routed rt p = Inr b \<and> rn = Inr ?n")
    case False
    then have "ls = [] \<and> (\<exists>e. err = Some e) \<and> w' \<in> {w, w1, w2}"
      using assms(4) k2 by (auto simp: demo_wrong_def demo_then_def 1 2 split: sum.splits prod.splits)
    then show ?thesis using assms(1) k1 k2 by auto
  next
    case True
    then obtain p rt b where q: "demo_int part = Inr p" "rr = Inr rt" "routed rt p = Inr b" "rn = Inr ?n" by blast
    let ?v = "(b + 1) mod ?n"
    let ?rq = "demo_request topic (Some (utf8 ''k'')) (utf8 ''v'') p"
    have b: "0 \<le> p" "p < m" "0 \<le> b" "b < ?n" "owner_at cf b topic p" using places_routed [OF _ q(3)] k1 q(2) by auto
    have v: "0 \<le> ?v" "?v < ?n" "?v \<noteq> b"
    proof -
      show "0 \<le> ?v" "?v < ?n" using assms(3) by simp_all
      show "?v \<noteq> b" using b(3,4) assms(3) by (cases "b + 1 = ?n") (auto simp: mod_pos_pos_trivial)
    qed
    then have foreign: "\<not> owner_at cf ?v topic p" using owner_unique [OF S(1) v(1,2) b(3,4)] b(5) by blast
    have here: "broker_at cf (demo_address (Some ?v)) = Some ?v" by (rule local_broker(1) [OF assms(2) S(1) v(1,2)])
    obtain y w3 where 3: "call cf (demo_address (Some ?v)) (serve_produce cf ?rq) (Inl Code_Unavailable) w2 = (y, w3)"
      by (meson surj_pair)
    have "cluster_ok cf topic m D w2" using k2 by (simp add: serving_def)
    have k3: "cluster_ok cf topic m D w3 \<and> (y = Inl Code_Unavailable
        \<or> (\<exists>b. broker_at cf (demo_address (Some ?v)) = Some b \<and> y = Inl Code_Failed_Precondition))"
    proof (rule call_keeps [OF \<open>cluster_ok cf topic m D w2\<close> 3])
      fix b' t y s assume a: "broker_at cf (demo_address (Some ?v)) = Some b'" "0 \<le> b'" "b' < ?n"
        "store_ok (owner_at cf b') (D b') (cu_stores w2 b')" "metas (snd (cu_stores w2 b')) topic = Some (Inr m)"
        "serve_produce cf ?rq b' t (cu_stores w2 b') = (y, s)"
      then have "\<not> owner_at cf b' topic p" using here foreign by simp
      from serve_produce_foreign [OF a(2,3) S(1) assms(2) a(4,5) S(2) b(1,2) this a(6)]
      show "store_ok (owner_at cf b') (D b') s \<and> metas (snd s) topic = Some (Inr m) \<and> y = Inl Code_Failed_Precondition" .
    qed
    then obtain code where code: "y = Inl code" by auto
    have run: "ls = [Asking p b ?v, Refused code]" "err = None" "w' = w3"
      using assms(4) q 1 2 3 code by (auto simp: demo_wrong_def demo_then_def demo_print_def cluster_net_def Let_def)
    have sure: "code = Code_Failed_Precondition" if "cu_faults w = []"
    proof -
      have "cu_faults w2 = []" using count_faults [OF routing_faults [OF that 1] 2] .
      from call_delivered [OF this 3] here have y: "y = fst (serve_produce cf ?rq ?v (cu_clock w2) (cu_stores w2 ?v))" by blast
      have "store_ok (owner_at cf ?v) (D ?v) (cu_stores w2 ?v)" "metas (snd (cu_stores w2 ?v)) topic = Some (Inr m)"
        using \<open>cluster_ok cf topic m D w2\<close> v(1,2) by (auto simp: cluster_ok_def)
      from serve_produce_foreign [OF v(1,2) S(1) assms(2) this S(2) b(1,2) foreign prod.collapse [symmetric]] y code
      show ?thesis by simp
    qed
    show ?thesis using run k3 S b(5) q(1) sure by (auto simp: serving_def)
  qed
qed

section \<open>Producing through failures\<close>

definition copied :: "buffered \<Rightarrow> log_record \<Rightarrow> bool" where
  "copied = (\<lambda>(p, key, val). copy_of (Some key) (Some val) None)"

text \<open>From \<open>D\<close> to \<open>D'\<close>, copies of buffered records were added to their partitions, at the owners, and nothing else changed.\<close>

definition enriched :: "config \<Rightarrow> string \<Rightarrow> buffered set \<Rightarrow> (int \<Rightarrow> contents) \<Rightarrow> (int \<Rightarrow> contents) \<Rightarrow> bool" where
  "enriched cf topic R D D' \<longleftrightarrow> (\<forall>b n q. fst (D' b n q) = fst (D b n q)
     \<and> (\<exists>xs. snd (D' b n q) = snd (D b n q) @ xs
         \<and> (\<forall>x \<in> set xs. n = topic \<and> owner_at cf b topic q \<and> (\<exists>item \<in> R. fst item = q \<and> copied item x))))"

definition held :: "config \<Rightarrow> string \<Rightarrow> (int \<Rightarrow> contents) \<Rightarrow> buffered \<Rightarrow> bool" where
  "held cf topic D item \<longleftrightarrow> (\<exists>b. 0 \<le> b \<and> b < cf_brokers cf \<and> owner_at cf b topic (fst item)
     \<and> (\<exists>x \<in> set (snd (D b topic (fst item))). copied item x))"

lemma enriched_refl: "enriched cf topic R D D"
  by (simp add: enriched_def)

lemma enriched_trans:
  assumes "enriched cf topic R D D1" "enriched cf topic R' D1 D2" "R \<union> R' \<subseteq> S"
  shows "enriched cf topic S D D2"
  unfolding enriched_def
proof (intro allI conjI)
  fix b n q
  from assms(1) obtain xs where xs: "fst (D1 b n q) = fst (D b n q)" "snd (D1 b n q) = snd (D b n q) @ xs"
    "\<forall>x \<in> set xs. n = topic \<and> owner_at cf b topic q \<and> (\<exists>item \<in> R. fst item = q \<and> copied item x)"
    unfolding enriched_def by blast
  from assms(2) obtain ys where ys: "fst (D2 b n q) = fst (D1 b n q)" "snd (D2 b n q) = snd (D1 b n q) @ ys"
    "\<forall>x \<in> set ys. n = topic \<and> owner_at cf b topic q \<and> (\<exists>item \<in> R'. fst item = q \<and> copied item x)"
    unfolding enriched_def by blast
  show "fst (D2 b n q) = fst (D b n q)" using xs ys by simp
  show "\<exists>zs. snd (D2 b n q) = snd (D b n q) @ zs
      \<and> (\<forall>x \<in> set zs. n = topic \<and> owner_at cf b topic q \<and> (\<exists>item \<in> S. fst item = q \<and> copied item x))"
  proof (intro exI conjI)
    show "snd (D2 b n q) = snd (D b n q) @ xs @ ys" using xs ys by simp
    show "\<forall>x \<in> set (xs @ ys). n = topic \<and> owner_at cf b topic q \<and> (\<exists>item \<in> S. fst item = q \<and> copied item x)"
      unfolding set_append using xs(3) ys(3) assms(3) by blast
  qed
qed

lemma held_enriched: "held cf topic D item \<Longrightarrow> enriched cf topic R D D' \<Longrightarrow> held cf topic D' item"
  unfolding held_def enriched_def by (metis UnI1 set_append)

text \<open>A record of the buffer is for its key's partition.\<close>

definition placed_item :: "int \<Rightarrow> buffered \<Rightarrow> bool" where
  "placed_item m = (\<lambda>(p, key, val). target m (Some key) p)"

lemma item_call:
  assumes "serving cf topic m D w" and "placed_item m (p, key, val)"
    and "nt_produce (cluster_demo cf) a (demo_request topic (Some key) val p) w = (x, w')"
  shows "\<exists>D'. serving cf topic m D' w' \<and> enriched cf topic {(p, key, val)} D D'
    \<and> (\<forall>resp. x = Inr resp \<longrightarrow> held cf topic D' (p, key, val))"
proof -
  from assms(1) have S: "cluster_ok cf topic m D w" "0 < cf_vnodes cf" "is_valid_name topic" "1 \<le> m" by (simp_all add: serving_def)
  have t: "target m (Some key) p" using assms(2) by (simp add: placed_item_def)
  have rq: "produce_message topic (Some key) (Some val) None p = Inr (demo_request topic (Some key) val p)"
    by (simp add: produce_message_def demo_request_def)
  have run: "nt_produce (cluster_net cf) a (demo_request topic (Some key) val p) w = (x, w')" using assms(3) by simp
  from produce_call [OF S t rq run] obtain D' where D': "cluster_ok cf topic m D' w'"
    "extended cf topic m (Some key) (Some val) None D D'"
    "\<forall>resp. x = Inr resp \<longrightarrow> pr_partition resp = p \<and> (\<exists>b. 0 \<le> b \<and> b < cf_brokers cf \<and> owner_at cf b topic p
        \<and> landed (Some key) (Some val) None (D' b topic p) (pr_offset resp))" by blast
  have only: "q = p" if "target m (Some key) q" for q using that t by (simp add: target_def)
  have "enriched cf topic {(p, key, val)} D D'"
    unfolding enriched_def
  proof (intro allI conjI)
    fix b n q
    from D'(2) obtain xs where "fst (D' b n q) = fst (D b n q)" "snd (D' b n q) = snd (D b n q) @ xs"
      "\<forall>x \<in> set xs. copy_of (Some key) (Some val) None x" "xs \<noteq> [] \<longrightarrow> n = topic \<and> target m (Some key) q \<and> owner_at cf b topic q"
      unfolding extended_def by blast
    then show "fst (D' b n q) = fst (D b n q)" "\<exists>xs. snd (D' b n q) = snd (D b n q) @ xs
      \<and> (\<forall>x \<in> set xs. n = topic \<and> owner_at cf b topic q \<and> (\<exists>item \<in> {(p, key, val)}. fst item = q \<and> copied item x))"
      using only by (auto simp: copied_def)
  qed
  moreover have "held cf topic D' (p, key, val)" if "x = Inr resp" for resp
    using D'(3) that by (fastforce simp: held_def landed_def copied_def)
  ultimately show ?thesis using D'(1) S by (auto simp: serving_def)
qed

text \<open>A pass: what is not in the buffer any more is held.\<close>

lemma pass_holds:
  assumes "serving cf topic m D w" and "\<forall>item \<in> set xs. placed_item m item"
    and "resilient_pass (cluster_demo cf) topic xs (rt, w) = (res, (rt', w'))"
  shows "\<exists>D'. serving cf topic m D' w' \<and> enriched cf topic (set xs) D D'
    \<and> (\<forall>still n. res = Inr (still, n) \<longrightarrow> set still \<subseteq> set xs \<and> (\<forall>item \<in> set xs - set still. held cf topic D' item))"
  using assms
proof (induction xs arbitrary: D w rt res rt' w')
  case Nil
  then show ?case using enriched_refl by auto
next
  case (Cons item xs)
  obtain p key val where x: "item = (p, key, val)" by (cases item)
  let ?net = "cluster_demo cf"
  obtain y w1 where 1: "nt_produce ?net (demo_address (map_of rt p)) (demo_request topic (Some key) val p) w = (y, w1)"
    by (meson surj_pair)
  have "placed_item m (p, key, val)" using Cons.prems(2) x by simp
  from item_call [OF Cons.prems(1) this 1] obtain D1 where D1: "serving cf topic m D1 w1" "enriched cf topic {item} D D1"
    "\<forall>resp. y = Inr resp \<longrightarrow> held cf topic D1 item" by (auto simp: x)
  obtain z w2 where 2: "(case y of Inl code \<Rightarrow> if code = Code_Failed_Precondition then demo_routing ?net topic w1 else (Inr rt, w1)
      | Inr resp \<Rightarrow> (Inr rt, w1)) = (z, w2)" by (meson surj_pair)
  have S2: "serving cf topic m D1 w2"
  proof (cases "y = Inl Code_Failed_Precondition")
    case True
    then have "demo_routing ?net topic w1 = (z, w2)" using 2 by simp
    from routing_call [OF D1(1) this] show ?thesis by simp
  next
    case False
    then have "w2 = w1" using 2 by (auto split: sum.splits)
    then show ?thesis using D1(1) by simp
  qed
  have sub: "{item} \<union> set xs \<subseteq> set (item # xs)" by simp
  show ?case
  proof (cases z)
    case (Inl e)
    with Cons.prems(3) 1 2 have "res = Inl e" "w' = w2" by (auto simp: x split: sum.splits if_split_asm)
    moreover have "enriched cf topic (set (item # xs)) D D1" by (rule enriched_trans [OF D1(2) enriched_refl [of cf topic "{}"]]) simp
    ultimately show ?thesis using S2 by blast
  next
    case (Inr rt1)
    obtain r rt2 w3 where r: "resilient_pass ?net topic xs (rt1, w2) = (r, (rt2, w3))" by (metis prod_cases3)
    from Cons.IH [OF S2 _ r] Cons.prems(2) obtain D2 where D2: "serving cf topic m D2 w3" "enriched cf topic (set xs) D1 D2"
      "\<forall>still n. r = Inr (still, n) \<longrightarrow> set still \<subseteq> set xs \<and> (\<forall>item \<in> set xs - set still. held cf topic D2 item)" by auto
    have w3: "w' = w3" using Cons.prems(3) 1 2 Inr r by (auto simp: x split: sum.splits if_split_asm prod.splits)
    have "set still \<subseteq> set (item # xs) \<and> (\<forall>i \<in> set (item # xs) - set still. held cf topic D2 i)" if out: "res = Inr (still, n)" for still n
    proof (cases y)
      case code: (Inl code)
      then obtain still1 where "r = Inr (still1, n)" "still = item # still1"
        using Cons.prems(3) 1 2 Inr r out by (auto simp: x split: sum.splits if_split_asm prod.splits)
      with D2(3) show ?thesis by auto
    next
      case resp: (Inr resp)
      then obtain k where "r = Inr (still, k)"
        using Cons.prems(3) 1 2 Inr r out by (auto simp: x split: sum.splits prod.splits)
      moreover have "held cf topic D2 item" using held_enriched D1(3) D2(2) resp by blast
      ultimately show ?thesis using D2(3) by auto
    qed
    with D2(1) enriched_trans [OF D1(2) D2(2) sub] w3 show ?thesis by blast
  qed
qed

text \<open>The record of number \<open>n\<close>, and the partition its key belongs to.\<close>

definition resilient_item :: "int \<Rightarrow> int \<Rightarrow> buffered" where
  "resilient_item m n = (uint (crc32 (resilient_key n) 0) mod m, resilient_key n, resilient_value n)"

lemma resilient_item_placed: "1 \<le> m \<Longrightarrow> placed_item m (resilient_item m n)"
  by (simp add: resilient_item_def placed_item_def target_def)

lemma resilient_records_items:
  "places cf topic m rt \<Longrightarrow> 1 \<le> m \<Longrightarrow> resilient_records rt ns = Inr (map (resilient_item m) ns)"
proof (induction ns)
  case (Cons n ns)
  have "length rt = length [0 .. m - 1]" using Cons.prems(1) by (metis places_def length_map)
  then have len: "int (length rt) = m" using Cons.prems(2) by simp
  have "fst (demo_partition partitioner_init (Some (resilient_key n)) rt) = Inr (fst (resilient_item m n))"
    using Cons.prems(2) by (simp add: demo_partition_def partition_for_def resilient_item_def len)
  with Cons show ?case by (simp add: resilient_item_def)
qed simp

lemma serving_sleep: "serving cf topic m D w \<Longrightarrow> serving cf topic m D (nt_sleep (cluster_demo cf) d w)"
  by (auto simp: serving_def cluster_net_def intro: cluster_ok_stores)

text \<open>
  Property C28. The client that produces through failures, before a cluster that loses calls and answers as it
  likes: it ends; what it adds to the cluster are copies of its records, in their keys' partitions and on
  the brokers that own them; and if it says that all are delivered, each of them is there. So a record can
  be there twice but not be missing, and no broker holds one for another.
\<close>

theorem resilient_delivers:
  assumes "serving cf topic m D w" and "demo_int many = Inr wanted"
  shows "\<exists>ls err w' D'. demo_resilient (cluster_demo cf) topic many limit w = Some ((ls, err), w')
    \<and> serving cf topic m D' w' \<and> enriched cf topic (resilient_item m ` {0 ..< wanted}) D D'
    \<and> (\<forall>k t. All_Delivered k t \<in> set ls \<longrightarrow> k = wanted \<and> (\<forall>n \<in> {0 ..< wanted}. held cf topic D' (resilient_item m n)))"
proof -
  let ?net = "cluster_demo cf" and ?B = "resilient_item m ` {0 ..< wanted}"
  have m: "1 \<le> m" using assms(1) by (simp add: serving_def)
  obtain res w1 where r: "demo_routing ?net topic w = (res, w1)" by (meson surj_pair)
  note k1 = routing_call [OF assms(1) r]
  show ?thesis
  proof (cases res)
    case (Inl e)
    then have "demo_resilient ?net topic many limit w = Some (([], Some e), w1)" by (simp add: demo_resilient_def assms(2) r)
    then show ?thesis using k1 enriched_refl by fastforce
  next
    case (Inr rt)
    let ?items = "map (resilient_item m) [0 .. wanted - 1]"
    have items: "resilient_records rt [0 .. wanted - 1] = Inr ?items" by (rule resilient_records_items) (use k1 Inr m in auto)
    have B: "set ?items = ?B" by auto
    let ?E = "\<lambda>w'. \<exists>D'. serving cf topic m D' w' \<and> enriched cf topic ?B D D'"
    let ?I = "\<lambda>xs (n :: int) (rw :: placing \<times> cluster). \<exists>D'. serving cf topic m D' (snd rw) \<and> enriched cf topic ?B D D'
      \<and> set xs \<subseteq> ?B \<and> (\<forall>item \<in> ?B - set xs. held cf topic D' item)"
    let ?L = "\<lambda>l. \<forall>k t. l \<noteq> All_Delivered k t"
    let ?C = "\<lambda>ls out w'. resilient_loop ?net topic wanted limit (cu_clock w1) ?items 0 (1 / 4) (rt, w1) = Some (ls, out, w')
      \<and> ?E w' \<and> (\<forall>l \<in> set ls. ?L l)
      \<and> (\<forall>xs n. out = Inr (xs, n) \<longrightarrow> (\<exists>rt. ?I xs n (rt, w')) \<and> (xs \<noteq> [] \<longrightarrow> cu_clock w1 + limit \<le> nt_now ?net w'))"
    have "\<exists>ls out w'. ?C ls out w'"
    proof (rule resilient_loop_rule [where E = ?E and I = ?I and L = ?L, OF cluster_demo_clocked])
      show "?I ?items 0 (rt, w1)" using k1 enriched_refl B by auto
      show "case res of Inl e \<Rightarrow> ?E (snd rw') | Inr (still, k) \<Rightarrow> ?I still (n + k) rw'"
        if I: "?I xs n rw" and pass: "resilient_pass ?net topic xs rw = (res, rw')" for xs and n :: int and rw res rw'
      proof -
        obtain rt w rt' w' where rw: "rw = (rt, w)" "rw' = (rt', w')" by (metis surj_pair)
        from I obtain D1 where D1: "serving cf topic m D1 w" "enriched cf topic ?B D D1" "set xs \<subseteq> ?B"
          "\<forall>item \<in> ?B - set xs. held cf topic D1 item" by (auto simp: rw)
        have "\<forall>item \<in> set xs. placed_item m item" using D1(3) resilient_item_placed [OF m] by blast
        from pass_holds [OF D1(1) this pass [unfolded rw]] obtain D2 where D2: "serving cf topic m D2 w'"
          "enriched cf topic (set xs) D1 D2"
          "\<forall>still n. res = Inr (still, n) \<longrightarrow> set still \<subseteq> set xs \<and> (\<forall>item \<in> set xs - set still. held cf topic D2 item)" by blast
        have e: "enriched cf topic ?B D D2" by (rule enriched_trans [OF D1(2) D2(2)]) (use D1(3) in simp)
        have "?I still (n + k) rw'" if "res = Inr (still, k)" for still k
        proof (intro exI conjI)
          show "serving cf topic m D2 (snd rw')" using D2(1) by (simp add: rw)
          show "set still \<subseteq> ?B" using D2(3) that D1(3) by blast
          show "\<forall>item \<in> ?B - set still. held cf topic D2 item"
            using D2(3) that D1(4) held_enriched [OF _ D2(2)] by blast
        qed (rule e)
        then show ?thesis using D2(1) e rw by (cases res) (auto split: prod.split)
      qed
      show "?I xs n (rt, nt_sleep ?net d w)" if "?I xs n (rt, w)" for xs and n :: int and rt w d
        using that serving_sleep by fastforce
    qed auto
    then obtain ls out w' where C: "?C ls out w'" by (elim exE) (rule that)
    note l = C [THEN conjunct1] C [THEN conjunct2, THEN conjunct1] C [THEN conjunct2, THEN conjunct2, THEN conjunct1]
    have left: "?I xs n (rt, w')" if "out = Inr (xs, n)" for xs and n :: int
      using C [THEN conjunct2, THEN conjunct2, THEN conjunct2] that by simp
    have run: "demo_resilient ?net topic many limit w = Some (case out of
        Inl e \<Rightarrow> ((ls, Some e), w')
      | Inr (left, sent) \<Rightarrow> ((ls @ [if left \<noteq> [] then Gave_Up limit (int (length left))
          else All_Delivered wanted (cu_clock w' - cu_clock w1)], None), w'))"
      using l(1) by (simp add: demo_resilient_def assms(2) r Inr items split: sum.split prod.split)
    show ?thesis
    proof (cases "\<exists>n. out = Inr ([], n)")
      case True
      then obtain n where n: "out = Inr ([], n)" by blast
      with left obtain D' where "serving cf topic m D' w'" "enriched cf topic ?B D D'" "\<forall>item \<in> ?B. held cf topic D' item" by auto
      moreover have "All_Delivered k t \<notin> set ls" for k t using l(3) by blast
      ultimately show ?thesis using run n by (intro exI conjI) auto
    next
      case False
      from l(2) obtain D' where "serving cf topic m D' w'" "enriched cf topic ?B D D'" by blast
      moreover from False obtain ls' err where "demo_resilient ?net topic many limit w = Some ((ls', err), w')" "\<forall>l \<in> set ls'. ?L l"
        using run l(3) by (cases out) (auto split: prod.splits)
      ultimately show ?thesis by blast
    qed
  qed
qed

section \<open>A concrete cluster\<close>

text \<open>Two brokers as \<open>cluster.sh\<close> starts them, with topic \<open>a\<close> of two partitions.\<close>

abbreviation local_config :: config where
  "local_config \<equiv> \<lparr>cf_brokers = 2, cf_template = ''localhost:909{ordinal}'', cf_vnodes = 1\<rparr>"

lemma sample_serving:
  obtains w where "serving local_config ''a'' 2 (\<lambda>b. empty_contents) w" "cu_faults w = []"
proof -
  have "\<exists>s. store_ok (owner_at local_config b) empty_contents s \<and> metas (snd s) ''a'' = Some (Inr 2)" for b
    using sample_created [of "owner_at local_config b"] by metis
  then obtain f where f: "\<And>b. store_ok (owner_at local_config b) empty_contents (f b) \<and> metas (snd (f b)) ''a'' = Some (Inr 2)" by metis
  have "serving local_config ''a'' 2 (\<lambda>b. empty_contents) \<lparr>cu_stores = f, cu_faults = [], cu_clock = 0\<rparr>"
    using f by (simp add: serving_def cluster_ok_def)
  then show ?thesis by (rule that) simp
qed

theorem wrong_is_refused_witness:
  "\<exists>w ls err w'. serving local_config ''a'' 2 (\<lambda>b. empty_contents) w \<and> demo_wrong (cluster_demo local_config) ''a'' ''0'' w = ((ls, err), w')
    \<and> serving local_config ''a'' 2 (\<lambda>b. empty_contents) w' \<and> Accepted \<notin> set ls"
proof -
  obtain w where w: "serving local_config ''a'' 2 (\<lambda>b. empty_contents) w" by (rule sample_serving)
  obtain ls err w' where r: "demo_wrong (cluster_demo local_config) ''a'' ''0'' w = ((ls, err), w')" by (metis surj_pair)
  from wrong_is_refused [OF w _ _ r] have "serving local_config ''a'' 2 (\<lambda>b. empty_contents) w' \<and> Accepted \<notin> set ls" by simp
  with w r show ?thesis by blast
qed

theorem resilient_delivers_witness:
  "\<exists>w ls err w' D'. serving local_config ''a'' 2 (\<lambda>b. empty_contents) w
    \<and> demo_resilient (cluster_demo local_config) ''a'' ''2'' 30 w = Some ((ls, err), w') \<and> serving local_config ''a'' 2 D' w'
    \<and> (\<forall>k t. All_Delivered k t \<in> set ls \<longrightarrow> k = 2 \<and> held local_config ''a'' D' (resilient_item 2 0) \<and> held local_config ''a'' D' (resilient_item 2 1))"
proof -
  obtain w where w: "serving local_config ''a'' 2 (\<lambda>b. empty_contents) w" by (rule sample_serving)
  have "py_int ''2'' = Some 2" by code_simp
  then have "demo_int ''2'' = Inr 2" by (simp add: demo_int_def)
  from resilient_delivers [OF w this, of 30] obtain ls err w' D' where
    "demo_resilient (cluster_demo local_config) ''a'' ''2'' 30 w = Some ((ls, err), w')" "serving local_config ''a'' 2 D' w'"
    "\<forall>k t. All_Delivered k t \<in> set ls \<longrightarrow> k = 2 \<and> (\<forall>n \<in> {0 ..< 2}. held local_config ''a'' D' (resilient_item 2 n))" by blast
  moreover have "(0 :: int) \<in> {0 ..< 2}" "(1 :: int) \<in> {0 ..< 2}" by simp_all
  ultimately show ?thesis using w by blast
qed

end
