(* ===== verification/Bench.thy ===== *)
theory Bench
  imports Part_Log
begin

text \<open>
  \<open>bench/bench_seek.py\<close>: what it writes and reads. The seconds it measures, and what it prints and keeps of
  them, are left out; a timed read is modelled by the record that it reaches.
\<close>

section \<open>The script\<close>

definition MIB :: int where "MIB = 1048576"

definition SIZES :: "int list" where "SIZES = [1 * MIB, 4 * MIB, 16 * MIB, 64 * MIB]"

definition BENCH_KEY :: bytes where "BENCH_KEY = utf8 ''k0000001''"

definition BENCH_VALUE :: bytes where "BENCH_VALUE = replicate 40 118"

definition RECORD_SIZE :: int where
  "RECORD_SIZE = int HEADER_SIZE + int (length BENCH_KEY) + int (length BENCH_VALUE)"

definition bench_record :: "int \<Rightarrow> log_record" where
  "bench_record n = \<lparr>rec_offset = n, rec_timestamp = 1700000000000 + n, rec_key = Some BENCH_KEY, rec_value = Some BENCH_VALUE\<rparr>"

fun bench_fill :: "segment \<Rightarrow> int list \<Rightarrow> dir \<Rightarrow> unit result \<times> segment \<times> dir" where
  "bench_fill seg [] d = (Inr (), seg, d)"
| "bench_fill seg (n # ns) d =
     (case seg_append seg (bench_record n) d of
        (Inl e, seg1, d1) \<Rightarrow> (Inl e, seg1, d1)
      | (Inr p, seg1, d1) \<Rightarrow> bench_fill seg1 ns d1)"

text \<open>\<open>Segment(directory, Offset(0))\<close>, with the default for \<open>max_bytes\<close>.\<close>

definition bench_open :: "dir \<Rightarrow> segment result \<times> dir" where
  "bench_open d = seg_open 0 (2 ^ 30) d"

definition bench_build :: "int \<Rightarrow> dir \<Rightarrow> (segment \<times> int) result \<times> dir" where
  "bench_build target_bytes d =
     (case bench_open d of
        (Inl e, d1) \<Rightarrow> (Inl e, d1)
      | (Inr seg, d1) \<Rightarrow>
          (let count = target_bytes div RECORD_SIZE
           in case bench_fill seg [0 .. count - 1] d1 of
                (Inl e, seg1, d2) \<Rightarrow> (Inl e, d2)
              | (Inr u, seg1, d2) \<Rightarrow>
                  (case seg_close seg1 d2 of
                     (Inl e, seg2, d3) \<Rightarrow> (Inl e, d3)
                   | (Inr u, seg2, d3) \<Rightarrow> (Inr (seg2, count), d3))))"

datatype bench_error = Bench_Raised py_error | Stop_Iteration

text \<open>\<open>next(seg.read_from(offset))\<close>\<close>

definition first_record :: "segment \<Rightarrow> dir \<Rightarrow> offset \<Rightarrow> bench_error + log_record" where
  "first_record seg d off =
     (case seg_read_from seg off d of
        Inl e \<Rightarrow> Inl (Bench_Raised e)
      | Inr (r # rs, err) \<Rightarrow> Inr r
      | Inr ([], Some e) \<Rightarrow> Inl (Bench_Raised e)
      | Inr ([], None) \<Rightarrow> Inl Stop_Iteration)"

fun first_records :: "segment \<Rightarrow> dir \<Rightarrow> offset list \<Rightarrow> bench_error + log_record list" where
  "first_records seg d [] = Inr []"
| "first_records seg d (off # offs) =
     (case first_record seg d off of
        Inl e \<Rightarrow> Inl e
      | Inr r \<Rightarrow> (case first_records seg d offs of Inl e \<Rightarrow> Inl e | Inr rs \<Rightarrow> Inr (r # rs)))"

text \<open>
  One size, in a new directory: the records there are, and those reached, the warm-up's first. \<open>draw\<close> is
  \<open>random.Random(SEED)\<close>: the offsets it gives for a count, which must not be zero.
\<close>

definition run_one_size :: "(int \<Rightarrow> offset list) \<Rightarrow> int \<Rightarrow> dir \<Rightarrow> (bench_error + int \<times> log_record list) \<times> dir" where
  "run_one_size draw target_bytes d =
     (case bench_build target_bytes d of
        (Inl e, d1) \<Rightarrow> (Inl (Bench_Raised e), d1)
      | (Inr (old, count), d1) \<Rightarrow>
          (case bench_open d1 of
             (Inl e, d2) \<Rightarrow> (Inl (Bench_Raised e), d2)
           | (Inr seg, d2) \<Rightarrow>
               if count \<le> 0 then (Inl (Bench_Raised ValueError), d2)
               else
               (let offsets = draw count
                in case first_records seg d2 (hd offsets # offsets) of
                     Inl e \<Rightarrow> (Inl e, d2)
                   | Inr rs \<Rightarrow>
                       (case seg_close seg d2 of
                          (Inl e, seg1, d3) \<Rightarrow> (Inl (Bench_Raised e), d3)
                        | (Inr u, seg1, d3) \<Rightarrow> (Inr (count, rs), d3)))))"

section \<open>The records\<close>

lemma bench_sizes: "length BENCH_KEY = 8" "length BENCH_VALUE = 40"
proof -
  show "length BENCH_KEY = 8" by code_simp
qed (simp add: BENCH_VALUE_def)

lemma RECORD_SIZE_80: "RECORD_SIZE = 80"
  by (simp add: RECORD_SIZE_def bench_sizes HEADER_SIZE_def)

text \<open>Every size of the sweep holds a record and is within the default \<open>max_bytes\<close>.\<close>

lemma SIZES_fit: "n \<in> set SIZES \<Longrightarrow> 80 \<le> n \<and> n \<le> 2 ^ 30"
  by (auto simp: SIZES_def MIB_def)

lemma bench_record_size: "rec_size (bench_record n) = 80"
  by (simp add: rec_size_def bench_record_def bench_sizes HEADER_SIZE_def)

lemma bench_record_offset: "rec_offset (bench_record n) = n"
  by (simp add: bench_record_def)

lemma bench_record_encodable: "0 \<le> n \<Longrightarrow> n < 2 ^ 62 \<Longrightarrow> encodable (bench_record n)"
  by (simp add: encodable_def bench_record_def in_i64_def payload_size_def field_bytes_def bench_sizes MAX_SIZE_def)

abbreviation bench_records :: "int \<Rightarrow> log_record list" where
  "bench_records n \<equiv> map bench_record [0 .. n - 1]"

lemma bench_records_Suc: "0 \<le> n \<Longrightarrow> bench_records (n + 1) = bench_records n @ [bench_record n]"
  by (simp add: upto_rec2)

lemma bench_induct [consumes 1, case_names zero Suc]:
  assumes "0 \<le> n" and "P 0" and "\<And>n. 0 \<le> n \<Longrightarrow> P n \<Longrightarrow> P (n + 1)"
  shows "P (n::int)"
  using assms(1) by (rule int_ge_induct) (use assms(2,3) in simp_all)

lemma bench_sequential: "0 \<le> n \<Longrightarrow> n < 2 ^ 62 \<Longrightarrow> sequential 0 (bench_records n)"
proof (induction n rule: bench_induct)
  case (Suc n)
  then show ?case unfolding bench_records_Suc [OF Suc.hyps]
    using bench_record_encodable [of n] by (simp add: bench_record_offset)
qed simp

lemma bench_bytes: "0 \<le> n \<Longrightarrow> length (rec_bytes (bench_records n)) = 80 * nat n"
proof (induction n rule: bench_induct)
  case (Suc n)
  then show ?case unfolding bench_records_Suc [OF Suc.hyps]
    using bench_record_size [of n] by (simp add: nat_add_distrib)
qed simp

section \<open>The file it builds\<close>

lemma bench_fill_ok:
  assumes "seg_ok s (bench_records m) d" "\<not> sg_closed s" "sg_base s = 0" "sg_max s = 2 ^ 30"
    and "0 \<le> m" "m \<le> n" "80 * n \<le> 2 ^ 30"
  shows "\<exists>s' d'. bench_fill s [m .. n - 1] d = (Inr (), s', d') \<and> seg_ok s' (bench_records n) d'
    \<and> sg_base s' = 0 \<and> only_touches (seg_files 0) d d'"
  using assms
proof (induction "nat (n - m)" arbitrary: s d m)
  case 0
  then show ?case by (intro exI [of _ s] exI [of _ d]) simp
next
  case (Suc k)
  have r: "rec_offset (bench_record m) = sg_next s"
    using seg_ok_fields(2) [OF Suc.prems(1)] Suc.prems(3,5) by (simp add: bench_record_def)
  have pos: "sg_pos s = 80 * nat m"
    using seg_ok_fields(3) [OF Suc.prems(1)] bench_bytes [of m] Suc.prems(5) by simp
  have room: "has_room_for s (bench_record m)"
    using pos Suc.hyps(2) Suc.prems(4,5,7)
    by (simp add: has_room_for_def bench_record_size) linarith
  have enc: "encodable (bench_record m)"
    using Suc.hyps(2) Suc.prems(5,7) by (intro bench_record_encodable) simp_all
  obtain s1 d1 where a: "seg_append s (bench_record m) d = (Inr (sg_pos s), s1, d1)"
    "seg_ok s1 (bench_records m @ [bench_record m]) d1" "sg_base s1 = sg_base s" "sg_max s1 = sg_max s"
    "\<not> sg_closed s1" "only_touches (seg_files (sg_base s)) d d1"
    by (rule seg_append_ok [OF Suc.prems(1,2) r enc room])
  have "seg_ok s1 (bench_records (m + 1)) d1" using a(2) bench_records_Suc [OF Suc.prems(5)] by simp
  from Suc.hyps(1) [OF _ this a(5)] a(3,4) Suc.hyps(2) Suc.prems obtain s2 d2 where
    "bench_fill s1 [m + 1 .. n - 1] d1 = (Inr (), s2, d2)" "seg_ok s2 (bench_records n) d2" "sg_base s2 = 0"
    "only_touches (seg_files 0) d1 d2" by fastforce
  moreover have "[m .. n - 1] = m # [m + 1 .. n - 1]" using Suc.hyps(2) by (intro upto_rec1) simp
  ultimately show ?case
    using a(1,3,6) Suc.prems(3) by (auto intro: only_touches_trans)
qed

lemma bench_open_ok:
  assumes "recoverable 0 (file_data (log_name 0) d) rs" "length (file_data (log_name 0) d) \<le> 2 ^ 30"
  shows "\<exists>s d'. bench_open d = (Inr s, d') \<and> seg_ok s rs d' \<and> sg_base s = 0 \<and> sg_max s = 2 ^ 30 \<and> \<not> sg_closed s
    \<and> only_touches (seg_files 0) d d'"
proof -
  have "int (length (file_data (log_name 0) d)) \<le> MAX_U32 + 1" using assms(2) by (simp add: MAX_U32_def)
  moreover have "(2::int) ^ 30 \<le> MAX_U32 + 1" by (simp add: MAX_U32_def)
  ultimately obtain s d' where "seg_open 0 (2 ^ 30) d = (Inr s, d')" "seg_ok s rs d'" "sg_base s = 0"
    "sg_max s = 2 ^ 30" "\<not> sg_closed s" "only_touches (seg_files 0) d d'"
    using seg_open_recoverable [of "2 ^ 30" 0 d rs] assms(1) by (metis zero_less_numeral zero_less_power)
  then show ?thesis by (auto simp: bench_open_def)
qed

lemma bench_build_ok:
  assumes "0 \<le> target" "target \<le> 2 ^ 30"
  shows "\<exists>s d. bench_build target [] = (Inr (s, target div 80), d) \<and> healthy d
    \<and> file_data (log_name 0) d = rec_bytes (bench_records (target div 80))"
proof -
  let ?n = "target div 80"
  have empty: "file_data (log_name 0) [] = []" and h: "healthy []" by (simp_all add: file_data_def healthy_def)
  have "recoverable 0 (file_data (log_name 0) []) []" using recoverable_records [of 0 "[]"] empty by simp
  from bench_open_ok [OF this] empty obtain s d where o: "bench_open [] = (Inr s, d)" "seg_ok s [] d"
    "sg_base s = 0" "sg_max s = 2 ^ 30" "\<not> sg_closed s" "only_touches (seg_files 0) [] d"
    by auto
  have "\<exists>s' d'. bench_fill s [0 .. ?n - 1] d = (Inr (), s', d') \<and> seg_ok s' (bench_records ?n) d'
    \<and> sg_base s' = 0 \<and> only_touches (seg_files 0) d d'"
    using o assms by (intro bench_fill_ok) simp_all
  then obtain s1 d1 where f: "bench_fill s [0 .. ?n - 1] d = (Inr (), s1, d1)" "seg_ok s1 (bench_records ?n) d1"
    "sg_base s1 = 0" "only_touches (seg_files 0) d d1" by blast
  have h1: "healthy d1" using h o(6) f(4) by (auto simp: only_touches_def)
  obtain s2 d2 where c: "seg_close s1 d1 = (Inr (), s2, d2)" using seg_close_healthy [OF f(2) h1] by blast
  note k = seg_close_ok [OF f(2) c]
  have "bench_build target [] = (Inr (s2, ?n), d2)"
    by (simp add: bench_build_def o(1) RECORD_SIZE_80 f(1) c)
  moreover have "healthy d2" using k h1 by (auto simp: only_touches_def)
  moreover have "file_data (log_name 0) d2 = rec_bytes (bench_records ?n)"
    using k f(3) seg_ok_fields(4) [of s2 "bench_records ?n" d2] by simp
  ultimately show ?thesis by blast
qed

section \<open>The records it reaches\<close>

lemma first_record_ok:
  assumes "seg_ok s (bench_records n) d" "sg_base s = 0" "0 \<le> off" "off < n"
  shows "first_record s d off = Inr (bench_record off)"
proof -
  have i: "nat off < length (bench_records n)" using assms(3,4) by simp
  have "seg_read_from s off d = Inr (bench_records n ! nat off # drop (Suc (nat off)) (bench_records n), None)"
    using seg_read_ok [OF assms(1)] assms(2,3) by (simp add: Cons_nth_drop_Suc [OF i])
  moreover have "bench_records n ! nat off = bench_record off" using i assms(3,4) by (simp add: nth_upto)
  ultimately show ?thesis by (simp add: first_record_def)
qed

lemma first_records_ok:
  assumes "seg_ok s (bench_records n) d" "sg_base s = 0"
  shows "\<forall>off \<in> set offs. 0 \<le> off \<and> off < n \<Longrightarrow> first_records s d offs = Inr (map bench_record offs)"
  by (induction offs) (simp_all add: first_record_ok [OF assms])

text \<open>
  One size of the benchmark, whatever offsets are drawn: no call of it raises, there are as many records as fit, and
  every timed read reaches the record of the offset that it asks for.
\<close>

theorem bench_reads_are_exact:
  assumes "80 \<le> target" and "target \<le> 2 ^ 30"
    and "draw (target div 80) \<noteq> []" and "\<forall>off \<in> set (draw (target div 80)). 0 \<le> off \<and> off < target div 80"
  shows "\<exists>d. run_one_size draw target []
    = (Inr (target div 80, map bench_record (hd (draw (target div 80)) # draw (target div 80))), d)"
proof -
  let ?n = "target div 80" and ?rs = "bench_records (target div 80)"
  from assms obtain s d where b: "bench_build target [] = (Inr (s, ?n), d)" "healthy d"
    "file_data (log_name 0) d = rec_bytes ?rs" using bench_build_ok [of target] by auto
  have n: "0 \<le> ?n" "?n \<le> 2 ^ 30" using assms(1,2) by linarith+
  then have "sequential 0 ?rs" by (intro bench_sequential) simp_all
  then have "recoverable 0 (file_data (log_name 0) d) ?rs" unfolding b(3) by (rule recoverable_records)
  moreover have "length (file_data (log_name 0) d) \<le> 2 ^ 30" using assms(1,2) n by (simp add: b(3) bench_bytes)
  ultimately obtain s1 d1 where o: "bench_open d = (Inr s1, d1)" "seg_ok s1 ?rs d1" "sg_base s1 = 0"
    "only_touches (seg_files 0) d d1" using bench_open_ok by blast
  have "healthy d1" using b(2) o(4) by (auto simp: only_touches_def)
  then obtain s2 d2 where c: "seg_close s1 d1 = (Inr (), s2, d2)" using seg_close_healthy [OF o(2)] by blast
  have "\<not> ?n \<le> 0" using assms(1) by (simp add: pos_imp_zdiv_pos_iff not_le)
  moreover have "first_records s1 d1 (hd (draw ?n) # draw ?n) = Inr (map bench_record (hd (draw ?n) # draw ?n))"
    using assms(3,4) by (intro first_records_ok [OF o(2,3)]) simp
  ultimately show ?thesis by (simp add: run_one_size_def b(1) o(1) c Let_def)
qed

end
