(* ===== verification/Examples.thy ===== *)
theory Examples
  imports Cluster_Run Demo
begin

text \<open>
  \<open>examples/producer.py\<close> and \<open>examples/consumer.py\<close>: the interactive clients. What is typed is a list of
  lines, which Ctrl-D or Ctrl-C at the prompt ends; what is printed is a list of values; arguments are those
  after the program's name. A string is a list of code points below 256, which always encode.
\<close>

section \<open>Producer\<close>

definition EXAMPLE_BOOTSTRAP :: "string list" where
  "EXAMPLE_BOOTSTRAP = [''localhost:9090'', ''localhost:9091'', ''localhost:9092'']"

definition argument :: "nat \<Rightarrow> string list \<Rightarrow> string option" where
  "argument n argv = (if n < length argv then Some (argv ! n) else None)"

definition example_topic :: "string list \<Rightarrow> string" where
  "example_topic argv = (case argument 0 argv of None \<Rightarrow> ''orders'' | Some t \<Rightarrow> t)"

text \<open>\<open>line.partition("=")\<close> without the separator.\<close>

definition at_equals :: "string \<Rightarrow> string \<times> string" where
  "at_equals line = (takeWhile (\<lambda>c. c \<noteq> CHR ''='') line, drop 1 (dropWhile (\<lambda>c. c \<noteq> CHR ''='') line))"

definition typed_record :: "string \<Rightarrow> bytes option \<times> bytes" where
  "typed_record line =
     (let (key, val) = (case at_equals line of (key, val) \<Rightarrow> if val = [] then (None, line) else (Some key, val))
      in (case key of None \<Rightarrow> None | Some k \<Rightarrow> if k = [] then None else Some (utf8 k), utf8 val))"

datatype producer_line =
    Producing string int
  | Placed int int
  | Handed_Back "(string \<times> bytes option \<times> bytes option) list"

fun producing ::
  "'w net \<Rightarrow> string \<Rightarrow> string list \<Rightarrow> client \<times> 'w \<Rightarrow> ((producer_line list \<times> client_error option) \<times> client \<times> 'w) option" where
  "producing net topic [] cw = Some (([], None), cw)"
| "producing net topic (typed # lines) cw =
     (if strip typed = [] then producing net topic lines cw
      else
        (case typed_record (strip typed) of
           (key, val) \<Rightarrow>
             (case send net 30 (1 / 4) topic (Some val) key None cw of
                None \<Rightarrow> None
              | Some (Inr (p, off), cw1) \<Rightarrow>
                  map_option (\<lambda>((ls, err), cw2). ((Placed p off # ls, err), cw2)) (producing net topic lines cw1)
              | Some (Inl (Delivery_Failed failed), cw1) \<Rightarrow>
                  map_option (\<lambda>((ls, err), cw2). ((Handed_Back failed # ls, err), cw2)) (producing net topic lines cw1)
              | Some (Inl e, cw1) \<Rightarrow> Some (([], Some e), cw1))))"

definition example_producer ::
  "'w net \<Rightarrow> string list \<Rightarrow> string list \<Rightarrow> 'w \<Rightarrow> ((producer_line list \<times> client_error option) \<times> 'w) option" where
  "example_producer net argv lines w =
     (let topic = example_topic argv
      in case connection_init EXAMPLE_BOOTSTRAP of
           Inl e \<Rightarrow> Some (([], Some e), w)
         | Inr c \<Rightarrow>
             (case routing_of net topic False (c, w) of
                (Inl e, cw1) \<Rightarrow> Some (([], Some e), snd cw1)
              | (Inr rt, cw1) \<Rightarrow>
                  map_option (\<lambda>((ls, err), cw2). ((Producing topic (int (length rt)) # ls, err), snd cw2))
                    (producing net topic lines cw1)))"

section \<open>Consumer\<close>

datatype consumer_line =
    Follows string int string int
  | Received int "bytes option" "bytes option"
  | Stopped
  | Stream_Ended client_error

datatype consumer_error =
    Consumer_Client client_error
  | Consumer_Value_Error

definition is_pyka_error :: "client_error \<Rightarrow> bool" where
  "is_pyka_error e = (case e of Pyka_Error \<Rightarrow> True | Delivery_Failed f \<Rightarrow> True | Client_Unknown_Topic \<Rightarrow> True | _ \<Rightarrow> False)"

text \<open>An absent and an empty key are printed alike; what is no UTF-8 raises \<open>UnicodeDecodeError\<close>.\<close>

definition received_line :: "client_record \<Rightarrow> consumer_line option" where
  "received_line r =
     (let key = (if cr_key r = Some [] then None else cr_key r)
      in if (\<forall>k \<in> set_option key. utf8_valid k) \<and> (is_tombstone r \<or> (\<forall>v \<in> set_option (cr_value r). utf8_valid v))
         then Some (Received (cr_offset r) key (cr_value r)) else None)"

text \<open>The loop over the stream, up to its end, an exception, or Ctrl-C after so many records.\<close>

fun following_lines ::
  "nat option \<Rightarrow> client_record list \<Rightarrow> client_error option \<Rightarrow> consumer_line list \<times> consumer_error option" where
  "following_lines (Some 0) rs err = ([Stopped], None)"
| "following_lines stop [] None = ([], None)"
| "following_lines stop [] (Some e) =
     (if is_pyka_error e then ([Stream_Ended e], None) else ([], Some (Consumer_Client e)))"
| "following_lines stop (r # rs) err =
     (case received_line r of
        None \<Rightarrow> ([], Some Consumer_Value_Error)
      | Some l \<Rightarrow> (case following_lines (map_option (\<lambda>n. n - 1) stop) rs err of (ls, e) \<Rightarrow> (l # ls, e)))"

definition int_argument :: "nat \<Rightarrow> string list \<Rightarrow> int option" where
  "int_argument n argv = (case argument n argv of None \<Rightarrow> Some 0 | Some t \<Rightarrow> py_int t)"

definition example_consumer ::
  "'w net \<Rightarrow> string list \<Rightarrow> nat option \<Rightarrow> 'w \<Rightarrow> (consumer_line list \<times> consumer_error option) option" where
  "example_consumer net argv stop w =
     (let topic = example_topic argv
      in case int_argument 1 argv of
           None \<Rightarrow> Some ([], Some Consumer_Value_Error)
         | Some p \<Rightarrow>
             (case int_argument 2 argv of
                None \<Rightarrow> Some ([], Some Consumer_Value_Error)
              | Some off \<Rightarrow>
                  (case connection_init EXAMPLE_BOOTSTRAP of
                     Inl e \<Rightarrow> Some ([], Some (Consumer_Client e))
                   | Inr c \<Rightarrow>
                       (case routing_of net topic False (c, w) of
                          (Inl e, cw1) \<Rightarrow> Some ([], Some (Consumer_Client e))
                        | (Inr rt, cw1) \<Rightarrow>
                            (case map_of rt p of
                               None \<Rightarrow> Some ([], Some (Consumer_Client Client_Key_Error))
                             | Some a \<Rightarrow>
                                 map_option (\<lambda>((rs, err), cw2).
                                     (case following_lines stop rs err of (ls, e) \<Rightarrow> (Follows topic p a off # ls, e)))
                                   (client_consume net topic p off True 0 0 cw1))))))"

section \<open>What a line stands for\<close>

lemma typed_record_keyed:
  "CHR ''='' \<notin> set k \<Longrightarrow> k \<noteq> [] \<Longrightarrow> v \<noteq> [] \<Longrightarrow> typed_record (k @ CHR ''='' # v) = (Some (utf8 k), utf8 v)"
  by (auto simp: typed_record_def at_equals_def takeWhile_append dropWhile_append)

lemma typed_record_keyless:
  assumes "CHR ''='' \<notin> set k"
  shows "typed_record k = (None, utf8 k)" "typed_record (k @ ''='') = (None, utf8 (k @ ''=''))"
proof -
  have k: "dropWhile (\<lambda>c. c \<noteq> CHR ''='') k = []" "takeWhile (\<lambda>c. c \<noteq> CHR ''='') k = k"
    using assms by (auto simp: dropWhile_eq_Nil_conv takeWhile_eq_all_conv)
  show "typed_record k = (None, utf8 k)" by (simp add: typed_record_def at_equals_def k del: dropWhile_eq_Nil_conv)
  have "dropWhile (\<lambda>c. c \<noteq> CHR ''='') (k @ ''='') = ''=''" using assms by (subst dropWhile_append2) auto
  then show "typed_record (k @ ''='') = (None, utf8 (k @ ''=''))" by (simp add: typed_record_def at_equals_def)
qed

section \<open>What the lines typed come to\<close>

definition entered :: "string list \<Rightarrow> string list" where
  "entered lines = filter (\<lambda>l. l \<noteq> []) (map strip lines)"

text \<open>\<open>x\<close> is the record of one of these lines, where its key puts it.\<close>

definition typed_copy :: "int \<Rightarrow> string set \<Rightarrow> int \<Rightarrow> log_record \<Rightarrow> bool" where
  "typed_copy m B p x \<longleftrightarrow> (\<exists>l \<in> B. copy_of (fst (typed_record l)) (Some (snd (typed_record l))) None x
     \<and> target m (fst (typed_record l)) p)"

text \<open>From \<open>D\<close> to \<open>D'\<close>, copies of the records of these lines were added, at owners, and nothing else changed.\<close>

definition typed_in :: "config \<Rightarrow> string \<Rightarrow> int \<Rightarrow> string set \<Rightarrow> (int \<Rightarrow> contents) \<Rightarrow> (int \<Rightarrow> contents) \<Rightarrow> bool" where
  "typed_in cf topic m B D D' \<longleftrightarrow> (\<forall>b name p. fst (D' b name p) = fst (D b name p)
     \<and> (\<exists>xs. snd (D' b name p) = snd (D b name p) @ xs \<and> (\<forall>x \<in> set xs. typed_copy m B p x)
         \<and> (xs \<noteq> [] \<longrightarrow> name = topic \<and> owner_at cf b topic p)))"

text \<open>What is printed of a line as placed is in its partition, at its owner, at that offset.\<close>

definition placed_at :: "config \<Rightarrow> string \<Rightarrow> int \<Rightarrow> (int \<Rightarrow> contents) \<Rightarrow> string \<Rightarrow> producer_line \<Rightarrow> bool" where
  "placed_at cf topic m D line out \<longleftrightarrow> (\<forall>p off. out = Placed p off \<longrightarrow>
     (\<exists>b xs new ys. 0 \<le> b \<and> b < cf_brokers cf \<and> owner_at cf b topic p
       \<and> snd (D b topic p) = xs @ new # ys \<and> off = fst (D b topic p) + int (length xs) \<and> typed_copy m {line} p new))"

lemma typed_in_refl: "typed_in cf topic m B D D"
  by (simp add: typed_in_def)

lemma typed_copy_mono: "typed_copy m B p x \<Longrightarrow> B \<subseteq> B' \<Longrightarrow> typed_copy m B' p x"
  by (auto simp: typed_copy_def)

lemma typed_in_trans:
  assumes "typed_in cf topic m B D D1" "typed_in cf topic m B' D1 D2"
  shows "typed_in cf topic m (B \<union> B') D D2"
  unfolding typed_in_def
proof (intro allI conjI)
  fix b name p
  show "fst (D2 b name p) = fst (D b name p)" using assms by (simp add: typed_in_def)
  from assms obtain xs ys where
    "snd (D1 b name p) = snd (D b name p) @ xs" "\<forall>x \<in> set xs. typed_copy m B p x"
    "xs \<noteq> [] \<longrightarrow> name = topic \<and> owner_at cf b topic p"
    "snd (D2 b name p) = snd (D1 b name p) @ ys" "\<forall>x \<in> set ys. typed_copy m B' p x"
    "ys \<noteq> [] \<longrightarrow> name = topic \<and> owner_at cf b topic p"
    unfolding typed_in_def by metis
  then show "\<exists>zs. snd (D2 b name p) = snd (D b name p) @ zs \<and> (\<forall>x \<in> set zs. typed_copy m (B \<union> B') p x)
      \<and> (zs \<noteq> [] \<longrightarrow> name = topic \<and> owner_at cf b topic p)"
    by (intro exI [of _ "xs @ ys"]) (auto intro: typed_copy_mono)
qed

lemma extended_typed:
  assumes "extended cf topic m (fst (typed_record l)) (Some (snd (typed_record l))) None D D'"
  shows "typed_in cf topic m {l} D D'"
  unfolding typed_in_def
proof (intro allI conjI)
  fix b name p
  show "fst (D' b name p) = fst (D b name p)" using assms by (simp add: extended_def)
  from assms obtain xs where "snd (D' b name p) = snd (D b name p) @ xs"
    "\<forall>x \<in> set xs. copy_of (fst (typed_record l)) (Some (snd (typed_record l))) None x"
    "xs \<noteq> [] \<longrightarrow> name = topic \<and> target m (fst (typed_record l)) p \<and> owner_at cf b topic p"
    unfolding extended_def by metis
  then show "\<exists>xs. snd (D' b name p) = snd (D b name p) @ xs \<and> (\<forall>x \<in> set xs. typed_copy m {l} p x)
      \<and> (xs \<noteq> [] \<longrightarrow> name = topic \<and> owner_at cf b topic p)"
    by (intro exI [of _ xs]) (cases "xs = []"; simp add: typed_copy_def)
qed

lemma placed_at_kept:
  assumes "placed_at cf topic m D l out" "typed_in cf topic m B D D'"
  shows "placed_at cf topic m D' l out"
  unfolding placed_at_def
proof (intro allI impI)
  fix p off assume "out = Placed p off"
  with assms(1) obtain b xs new ys where 1: "0 \<le> b" "b < cf_brokers cf" "owner_at cf b topic p"
    "snd (D b topic p) = xs @ new # ys" "off = fst (D b topic p) + int (length xs)" "typed_copy m {l} p new"
    unfolding placed_at_def by blast
  from assms(2) obtain zs where "fst (D' b topic p) = fst (D b topic p)" "snd (D' b topic p) = snd (D b topic p) @ zs"
    unfolding typed_in_def by blast
  with 1 show "\<exists>b xs new ys. 0 \<le> b \<and> b < cf_brokers cf \<and> owner_at cf b topic p
       \<and> snd (D' b topic p) = xs @ new # ys \<and> off = fst (D' b topic p) + int (length xs) \<and> typed_copy m {l} p new"
    by (intro exI [of _ b] exI [of _ xs] exI [of _ new] exI [of _ "ys @ zs"]) simp
qed

text \<open>One line.\<close>

lemma send_typed:
  assumes "running cf topic m D cw"
  shows "\<exists>res cw' D'. send (cluster_net cf) 30 (1 / 4) topic (Some (snd (typed_record l))) (fst (typed_record l)) None cw = Some (res, cw')
    \<and> running cf topic m D' cw' \<and> typed_in cf topic m {l} D D'
    \<and> (\<forall>p off. res = Inr (p, off) \<longrightarrow> placed_at cf topic m D' l (Placed p off))"
proof -
  let ?key = "fst (typed_record l)" and ?val = "Some (snd (typed_record l))"
  obtain res cw' where s: "send (cluster_net cf) 30 (1 / 4) topic ?val ?key None cw = Some (res, cw')"
    using cluster.send_terminates [of "1 / 4" cf 30 topic ?val ?key None cw] by auto
  have "(0 :: rat) < 1 / 4" by simp
  from send_delivers [OF assms this s] obtain D' where D': "running cf topic m D' cw'"
    "extended cf topic m ?key ?val None D D'"
    "\<forall>p off. res = Inr (p, off) \<longrightarrow> target m ?key p
        \<and> (\<exists>b. 0 \<le> b \<and> b < cf_brokers cf \<and> owner_at cf b topic p \<and> landed ?key ?val None (D' b topic p) off)" by blast
  have "placed_at cf topic m D' l (Placed p off)" if r: "res = Inr (p, off)" for p off
  proof -
    from D'(3) r obtain b xs new where b: "target m ?key p" "0 \<le> b" "b < cf_brokers cf" "owner_at cf b topic p"
      "snd (D' b topic p) = xs @ [new]" "copy_of ?key ?val None new" "off = fst (D' b topic p) + int (length xs)"
      unfolding landed_def by blast
    then have "typed_copy m {l} p new" by (simp add: typed_copy_def)
    with b show ?thesis unfolding placed_at_def by blast
  qed
  with s D'(1) extended_typed [OF D'(2)] show ?thesis by blast
qed

text \<open>
  The interactive producer, before a cluster that loses calls and answers as it likes: it ends when the lines do,
  unless an exception ends it before; what it adds are copies of the lines' records, in their keys' partitions and
  at the owners; and what it reports as placed is there when it ends.
\<close>

theorem typed_lines_placed:
  assumes "running cf topic m D cw"
  shows "\<exists>ls err cw' D'. producing (cluster_net cf) topic lines cw = Some ((ls, err), cw')
    \<and> running cf topic m D' cw' \<and> typed_in cf topic m (set (entered lines)) D D'
    \<and> length ls \<le> length (entered lines) \<and> (err = None \<longrightarrow> length ls = length (entered lines))
    \<and> (\<forall>(l, out) \<in> set (zip (entered lines) ls). placed_at cf topic m D' l out)"
  using assms
proof (induction lines arbitrary: cw D)
  case Nil
  then show ?case using typed_in_refl by (fastforce simp: entered_def)
next
  case (Cons typed lines)
  let ?net = "cluster_net cf" and ?l = "strip typed"
  show ?case
  proof (cases "?l = []")
    case True
    with Cons show ?thesis by (simp add: entered_def)
  next
    case False
    then have e: "entered (typed # lines) = ?l # entered lines" by (simp add: entered_def)
    obtain key val where kv: "typed_record ?l = (key, val)" by (meson surj_pair)
    from send_typed [OF Cons.prems, of ?l] obtain res cw1 D1 where
      s: "send ?net 30 (1 / 4) topic (Some val) key None cw = Some (res, cw1)" and D1: "running cf topic m D1 cw1"
      "typed_in cf topic m {?l} D D1" "\<forall>p off. res = Inr (p, off) \<longrightarrow> placed_at cf topic m D1 ?l (Placed p off)"
      by (auto simp: kv)
    from Cons.IH [OF D1(1)] obtain ls err cw2 D2 where
      r: "producing ?net topic lines cw1 = Some ((ls, err), cw2)" and D2: "running cf topic m D2 cw2"
      "typed_in cf topic m (set (entered lines)) D1 D2" "length ls \<le> length (entered lines)"
      "err = None \<longrightarrow> length ls = length (entered lines)"
      "\<forall>(l, out) \<in> set (zip (entered lines) ls). placed_at cf topic m D2 l out" by blast
    have all: "typed_in cf topic m (set (entered (typed # lines))) D D2"
      using typed_in_trans [OF D1(2) D2(2)] by (simp add: e)
    have goes_on: ?thesis if run: "producing ?net topic (typed # lines) cw = Some ((out # ls, err), cw2)"
      and out: "placed_at cf topic m D1 ?l out" for out
      using run D2 all placed_at_kept [OF out D2(2)]
      by (intro exI [of _ "out # ls"] exI [of _ err] exI [of _ cw2] exI [of _ D2]) (simp add: e)
    have stops: ?thesis if run: "producing ?net topic (typed # lines) cw = Some (([], Some x), cw1)" for x
    proof -
      have "typed_in cf topic m (set (entered (typed # lines))) D D1"
        using typed_in_trans [OF D1(2) typed_in_refl [of _ _ _ "set (entered lines)"]] by (simp add: e)
      with run D1(1) show ?thesis
        by (intro exI [of _ "[]"] exI [of _ "Some x"] exI [of _ cw1] exI [of _ D1]) simp
    qed
    show ?thesis
    proof (cases res)
      case (Inr po)
      then obtain p off where po: "res = Inr (p, off)" by (cases po) simp
      show ?thesis
        by (rule goes_on [of "Placed p off"]) (use False kv s r po D1(3) in simp_all)
    next
      case (Inl x)
      show ?thesis
      proof (cases "\<exists>failed. x = Delivery_Failed failed")
        case True
        then obtain failed where x: "x = Delivery_Failed failed" by blast
        show ?thesis
          by (rule goes_on [of "Handed_Back failed"]) (use False kv s r x Inl in \<open>simp_all add: placed_at_def\<close>)
      next
        case other: False
        show ?thesis
          by (rule stops [of x]) (use False kv s Inl other in \<open>cases x; simp\<close>)
      qed
    qed
  qed
qed

section \<open>What the consumer prints\<close>

text \<open>Of a stream it can decode: every record in order, and then why it ended.\<close>

lemma following_lines_all:
  assumes "\<forall>r \<in> set rs. received_line r \<noteq> None"
  shows "following_lines None rs err = (case following_lines None [] err of
    (ls, e) \<Rightarrow> (map (\<lambda>r. the (received_line r)) rs @ ls, e))"
  using assms by (induction rs) (auto split: prod.splits)

lemma following_lines_stopped:
  assumes "\<forall>r \<in> set rs. received_line r \<noteq> None" "k \<le> length rs"
  shows "following_lines (Some k) rs err = (map (\<lambda>r. the (received_line r)) (take k rs) @ [Stopped], None)"
  using assms
proof (induction rs arbitrary: k)
  case Nil
  then show ?case by simp
next
  case (Cons r rs)
  then show ?case by (cases k) auto
qed

end
