(* ===== verification/Spec2Isabelle.thy ===== *)
theory Spec2Isabelle
  imports Prelude Bytes Crc32 Framing Log_Record Py_Text Files Bisect Log_Index Log_Segment
    Record_Log Part_Log Partitioner Sync_Policy Blake2b Cluster_Ring Topics
    Tail Store Live_Tail Handler Client Cluster_Run Admin_Api Startup Log_Disk Durability Log_Service
    Broker_Refinement Wire_Types Serve Rest_Client Demo Batch Demo_Cluster Bench Examples
begin

text \<open>
  Verification development for pyKA, a partitioned log broker (\<open>src/src/pyka\<close>).

  \<^bold>\<open>The program.\<close> A broker keeps topics; a topic is a fixed number of partitions, and a partition is an
  append-only log of records, numbered by offset, in segment files with a sparse index beside each. A
  cluster is a fixed number of brokers: which of them owns a partition is computed from static inputs,
  the same way everywhere. Producers and consumers speak gRPC to the owner of a partition; a REST API
  serves operators. The parts, from the disk up, with the theory that models each:

  \<^item> \<open>storage/record.py\<close> -- \<open>Log_Record\<close>: the binary format. \<open>Bytes\<close> is Python's \<open>struct\<close>, \<open>Crc32\<close> is
    \<open>zlib.crc32\<close>, \<open>Framing\<close> the contract of a format whose records follow each other in a file.
  \<^item> \<open>storage/index.py\<close> -- \<open>Log_Index\<close>; \<open>storage/segment.py\<close> -- \<open>Log_Segment\<close>; \<open>storage/log.py\<close> --
    \<open>Part_Log\<close>. \<open>Files\<close> is the directory they work on, \<open>Py_Text\<close> the numbers in file names, \<open>Bisect\<close>
    the binary search, \<open>Record_Log\<close> the contract of an append-only log, \<open>Log_Disk\<close> what a directory
    holds between two openings.
  \<^item> \<open>topic/partitioner.py\<close>, \<open>topic/policy.py\<close>, \<open>topic/topic.py\<close> -- \<open>Partitioner\<close>, \<open>Sync_Policy\<close>, \<open>Topics\<close>.
  \<^item> \<open>cluster/ring.py\<close> -- \<open>Cluster_Ring\<close>, with \<open>hashlib.blake2b\<close> in \<open>Blake2b\<close>.
  \<^item> \<open>broker/store.py\<close>, \<open>broker/tail.py\<close> -- \<open>Store\<close>, \<open>Tail\<close>; \<open>broker/handler.py\<close> -- \<open>Handler\<close>, and
    \<open>Consume\<close> with \<open>follow\<close> in \<open>Live_Tail\<close>; \<open>broker/admin.py\<close> -- \<open>Admin_Api\<close>; \<open>broker/server.py\<close> and
    \<open>cli/broker.py\<close> -- \<open>Startup\<close> (configuration, health service, the steps of start and stop) and
    \<open>Serve\<close> (the whole of \<open>serve\<close>, from the environment to the end of the process).
  \<^item> \<open>client.py\<close> -- \<open>Client\<close> (producer and consumer) and \<open>Rest_Client\<close> (the class \<open>Admin\<close>, with the
    routes of \<open>broker/admin.py\<close> that it reaches); \<open>Cluster_Run\<close> puts the client before a whole cluster,
    \<open>Batch\<close> its \<open>send_batch\<close> before \<open>ProduceStream\<close>.
  \<^item> \<open>scripts/demo.py\<close> -- \<open>Demo\<close>, and before a cluster \<open>Demo_Cluster\<close>; \<open>examples/\<close> -- \<open>Examples\<close>;
    \<open>bench/bench_seek.py\<close> -- \<open>Bench\<close>.
  \<^item> Across the parts: \<open>Durability\<close> carries what a power cut cannot take through topics and store;
    \<open>Log_Service\<close> is what a broker promises, without disks and segments, and \<open>Broker_Refinement\<close> shows
    that a broker keeps it; \<open>Wire_Types\<close> is the integer types of \<open>proto/pyka/v1/broker.proto\<close>.

  \<^bold>\<open>How the code is modelled.\<close> An object is a record of its attributes, a method a function from its
  arguments, the object and what is outside it (a directory, the data root, the network) to its result,
  the object and the outside. Exceptions are values: \<open>py_error\<close> has a constructor per class, a result is
  \<open>Inl\<close> the exception or \<open>Inr\<close> the value, and state that was changed before a raise stays changed.
  \<open>int\<close> is \<open>int\<close>; widths appear where \<open>struct\<close> or protobuf checks them; checksums are \<open>32 word\<close>. A
  \<open>dict\<close> is an association list with distinct keys in insertion order. A generator is the list it yields
  with the exception that ends it. Loops are recursions; those that may not end are
  \<open>partial_function (option)\<close> (\<open>consume_loop\<close>, \<open>send_loop\<close>, \<open>await_loop\<close>, \<open>resilient_loop\<close>), and that they end is proved; no loop
  has fuel.
  A partition's abstract value is a pair of base offset and records; \<open>contents\<close> gives it for every topic
  and partition. \<open>seg_ok\<close>, \<open>log_ok\<close>, \<open>topics_ok\<close>, \<open>store_ok\<close> and \<open>cluster_ok\<close> tie the states to it, layer
  by layer, and the lemmas named \<open>..._ok\<close> and \<open>..._decides\<close> say for each operation what it returns and
  which contents it leaves.

  \<^bold>\<open>What is shown.\<close>
  \<^item> \<open>Log_Record\<close>: \<open>encode\<close>, \<open>decode\<close> and \<open>read_one\<close> are inverse; a torn record reads as the end of the
    stream; a change to one byte of the checksum or of what it covers is found.
  \<^item> \<open>Log_Segment\<close>: opening accepts exactly sequential records with a torn tail, and rebuilds the index
    as the appends had built it; a read is exact whatever the index says; the index brings it near.
  \<^item> \<open>Part_Log\<close>, \<open>Log_Disk\<close>: any run of appends gives consecutive offsets and reads back; synced records
    survive a power cut; a chain with a hole is refused; closing and opening keeps the records.
  \<^item> \<open>Topics\<close>: every outcome of append and read; acknowledged records survive under the policy that syncs
    each; names stay in the data root; the number of partitions never changes.
  \<^item> \<open>Cluster_Ring\<close>: one owner per partition on either ring; growing moves partitions to new brokers only.
  \<^item> \<open>Store\<close>, \<open>Startup\<close>: a broker serves exactly when it holds no other broker's data, both probes say
    so, and a shutdown frees its streams and loses nothing.
  \<^item> \<open>Serve\<close>: after the signal the process syncs every byte, unless the grace period in its environment
    is no number: then it raises with the server up and the files as they were.
  \<^item> \<open>Live_Tail\<close>: \<open>live_step\<close> interleaves any number of following streams with writes, notifications,
    timeouts, cancellations and the shutdown. No stream misses, doubles or reorders a record, none sleeps
    through one, and the timeout is never needed.
  \<^item> \<open>Handler\<close>: every status of \<open>Produce\<close> and \<open>Consume\<close>; \<open>Consume\<close> in batches equals one read;
    \<open>Metadata\<close> is the same on every broker.
  \<^item> \<open>Client\<close>, \<open>Cluster_Run\<close>: \<open>send\<close> returns, delivers at least once to the owner of the record's partition
    however many calls and answers are lost, and changes nothing else; \<open>consume\<close> gives back what was sent.
  \<^item> \<open>Batch\<close>: a stream of requests is answered up to the first that is refused; \<open>send_batch\<close> adds of each
    partition's records a prefix, once and in order, and all of them if it returns.
  \<^item> \<open>Broker_Refinement\<close>, \<open>Durability\<close>: a broker with its disk simulates the log service through any
    requests, restarts and power cuts, so an acknowledged record is read back for ever under the policy
    that syncs each. \<open>Wire_Types\<close>: in all such runs the answers fit their fields.
  \<^item> \<open>Rest_Client\<close>: each method of \<open>Admin\<close> is the endpoint it calls.
  \<^item> \<open>Demo\<close>, \<open>Demo_Cluster\<close>, \<open>Examples\<close>: the demo's wrong broker refuses; its resilient producer ends, accounts
    for each record and puts it where it belongs; so does the interactive producer. \<open>Bench\<close>: no call of
    the benchmark raises, and each timed read reaches the record that it asks for.
  \<^item> \<open>Admin_Api\<close>: what syncing and rolling do, and that syncing a topic fails on a broker with a part of it.

  \<^bold>\<open>Interfaces.\<close> \<open>framing\<close> (a record format; interpreted by the records of \<open>Log_Record\<close>), \<open>record_log\<close> (an
  append-only log; interpreted twice by \<open>Part_Log\<close>, for the records held and for those kept through a
  power cut), \<open>placement\<close> (who owns what; interpreted by both rings), \<open>clocked\<close> (calls that take time;
  interpreted by the cluster), \<open>simulation\<close> (an implementation whose answers a specification allows;
  interpreted by the broker and the log service).

  \<^bold>\<open>Assumptions.\<close>
  \<^item> Files: a power cut leaves of each file a prefix, at least as long as was synced; names of files, and
    truncations, last at once. Writing to a file succeeds; syncing it fails always or never, and \<open>healthy\<close>
    says never. \<open>max_bytes\<close> is at most 2 to the 32, so that positions fit the index.
  \<^item> \<open>topic.json\<close> is what reading it gives. Characters are below 256; on ASCII text \<open>isdigit\<close> and \<open>int\<close>
    are as \<open>Py_Text\<close> says.
  \<^item> Locks make calls in worker threads atomic steps; code on the event loop runs without interruption
    between two awaits. An operation takes one reading of each clock; clocks and backoffs are rationals.
  \<^item> gRPC: a call runs its handler once and its answer arrives, or the caller gets an error, the handler
    having run or not (\<open>call\<close> of \<open>Cluster_Run\<close>). Partition numbers and counts fit the wire's 32 bits.

  \<^bold>\<open>Not modelled.\<close> The code that protoc generates, and the work of gRPC, FastAPI and uvicorn themselves:
  what binding a port comes to and when the signal arrives are arguments. Log output, the texts of errors
  and the layout of what is printed; floating point, which is exact here; the times that the benchmark
  measures, with the statistics and the file it makes of them. A read that races a roll sees the segments it
  started with, which the model has as one step.
\<close>

end
